(* ===== verification/Zeos_Prelude.thy ===== *)
theory Zeos_Prelude
  imports Main "HOL-Library.Word" "HOL-Library.Signed_Division" "HOL-Library.Monad_Syntax"
begin

text \<open>
  Shared vocabulary of the development: the C integer types of \<^verbatim>\<open>include/types.h\<close>, the
  address-space constants of \<^verbatim>\<open>include/mm_address.h\<close>, \<^verbatim>\<open>include/mm.h\<close> and
  \<^verbatim>\<open>include/sched.h\<close>, the error numbers of \<^verbatim>\<open>include/errno.h\<close> and the generic
  lemmas on lists, options and words that the component theories share.

  Conventions. A C \<^verbatim>\<open>unsigned\<close> value is a word of its width. A C \<^verbatim>\<open>int\<close> is an
  \<^typ>\<open>int\<close> and every operation that can leave the 32-bit range is wrapped by \<open>wrap32\<close>
  (two's complement, what the generated i386 code computes). A kernel routine that may
  dereference a null or unmapped pointer returns an \<^typ>\<open>'a option\<close>: \<^term>\<open>None\<close> is the
  page fault in kernel mode, after which \<^verbatim>\<open>pgf_routine\<close> never returns.
\<close>

unbundle bit_operations_syntax

subsection \<open>Integer types\<close>

type_synonym Byte = "8 word"
type_synonym Word16 = "16 word"
type_synonym DWord = "32 word"

definition wrap32 :: "int \<Rightarrow> int" where
  "wrap32 x = signed_take_bit 31 x"

subsection \<open>Constants\<close>

abbreviation (input) TOTAL_PAGES :: nat where "TOTAL_PAGES \<equiv> 1024"
abbreviation (input) NUM_PAG_KERNEL :: nat where "NUM_PAG_KERNEL \<equiv> 256"
abbreviation (input) NUM_PAG_CODE :: nat where "NUM_PAG_CODE \<equiv> 8"
abbreviation (input) NUM_PAG_DATA :: nat where "NUM_PAG_DATA \<equiv> 20"
abbreviation (input) PAGE_SIZE :: int where "PAGE_SIZE \<equiv> 4096"
abbreviation (input) PAG_LOG_INIT_DATA :: nat where "PAG_LOG_INIT_DATA \<equiv> 256"
abbreviation (input) PAG_LOG_INIT_CODE :: nat where "PAG_LOG_INIT_CODE \<equiv> 276"
abbreviation (input) USER_FIRST_PAGE :: nat where "USER_FIRST_PAGE \<equiv> 256"
abbreviation (input) USER_LAST_PAGE :: nat where "USER_LAST_PAGE \<equiv> 284"
abbreviation (input) NUM_SHARED_PAGES :: nat where "NUM_SHARED_PAGES \<equiv> 10"
abbreviation (input) NR_TASKS :: nat where "NR_TASKS \<equiv> 10"
abbreviation (input) KERNEL_STACK_SIZE :: nat where "KERNEL_STACK_SIZE \<equiv> 1024"

abbreviation (input) EBADF :: int where "EBADF \<equiv> 9"
abbreviation (input) ECHILD :: int where "ECHILD \<equiv> 10"
abbreviation (input) ENOMEM :: int where "ENOMEM \<equiv> 12"
abbreviation (input) EACCES :: int where "EACCES \<equiv> 13"
abbreviation (input) EFAULT :: int where "EFAULT \<equiv> 14"
abbreviation (input) EINVAL :: int where "EINVAL \<equiv> 22"
abbreviation (input) ENOSYS :: int where "ENOSYS \<equiv> 40"
abbreviation (input) EOUTSCREEN :: int where "EOUTSCREEN \<equiv> 43"
abbreviation (input) ENOCOLOR :: int where "ENOCOLOR \<equiv> 44"
abbreviation (input) ENOSHR :: int where "ENOSHR \<equiv> 45"

subsection \<open>Loops over a list that may fail\<close>

definition fold_option :: "('a \<Rightarrow> 's \<Rightarrow> 's option) \<Rightarrow> 'a list \<Rightarrow> 's \<Rightarrow> 's option" where
  "fold_option f xs s = fold (\<lambda>x r. Option.bind r (f x)) xs (Some s)"

subsection \<open>Fact collections\<close>

named_theorems frame_simps \<open>what an operation leaves unchanged\<close>

subsection \<open>Generic lemmas\<close>

lemma wrap32_id: "- (2 ^ 31) \<le> x \<Longrightarrow> x < 2 ^ 31 \<Longrightarrow> wrap32 x = x"
  unfolding wrap32_def by (rule signed_take_bit_int_eq_self) simp_all

lemma wrap32_range: "- (2 ^ 31) \<le> wrap32 x \<and> wrap32 x < 2 ^ 31"
  unfolding wrap32_def
  using signed_take_bit_int_greater_eq_minus_exp[of 31 x] signed_take_bit_int_less_exp[of 31 x]
  by simp

lemma smod_nonneg: "0 \<le> (a::int) \<Longrightarrow> 0 < b \<Longrightarrow> a smod b = a mod b"
  by (simp add: signed_modulo_int_def signed_divide_int_def minus_div_mult_eq_mod sgn_if)

lemma sdiv_nonneg: "0 \<le> (a::int) \<Longrightarrow> 0 < b \<Longrightarrow> a sdiv b = a div b"
  by (simp add: signed_divide_int_def sgn_if)

lemma bind_SomeE:
  assumes "Option.bind m f = Some r"
  obtains x where "m = Some x" and "f x = Some r"
  using assms by (cases m) auto

lemma fold_option_simps [simp]:
  "fold_option f [] s = Some s" "fold_option f (xs @ [x]) s = Option.bind (fold_option f xs s) (f x)"
  by (simp_all add: fold_option_def)

lemma fold_option_Cons: "fold_option f (x # xs) s = Option.bind (f x s) (fold_option f xs)"
proof -
  have "fold (\<lambda>x r. Option.bind r (f x)) xs None = None" for xs by (induction xs) simp_all
  then show ?thesis by (cases "f x s") (simp_all add: fold_option_def)
qed

lemma fold_option_None: "x \<in> set xs \<Longrightarrow> (\<And>s. f x s = None) \<Longrightarrow> fold_option f xs s = None"
  by (induction xs arbitrary: s) (auto simp: fold_option_Cons split: bind_splits)

lemma fold_option_prefix_None:
  assumes "fold_option f [0..<m] s = None" "m \<le> n"
  shows "fold_option f [0..<n] s = None"
  using assms(2,1) by (induction n rule: dec_induct) simp_all

lemma find_upt_Some_iff:
  "List.find P [a..<b] = Some i \<longleftrightarrow> a \<le> i \<and> i < b \<and> P i \<and> (\<forall>j. a \<le> j \<and> j < i \<longrightarrow> \<not> P j)"
proof
  assume "List.find P [a..<b] = Some i"
  then obtain k where k: "k < length [a..<b]" "P ([a..<b] ! k)" "i = [a..<b] ! k"
      "\<forall>j<k. \<not> P ([a..<b] ! j)"
    by (auto simp: find_Some_iff)
  then have i: "i = a + k" "a + k < b" by auto
  have "\<not> P j" if "a \<le> j" "j < i" for j
    using k(4)[rule_format, of "j - a"] that i by auto
  with i k show "a \<le> i \<and> i < b \<and> P i \<and> (\<forall>j. a \<le> j \<and> j < i \<longrightarrow> \<not> P j)" by auto
next
  assume h: "a \<le> i \<and> i < b \<and> P i \<and> (\<forall>j. a \<le> j \<and> j < i \<longrightarrow> \<not> P j)"
  then show "List.find P [a..<b] = Some i"
    by (auto simp: find_Some_iff intro!: exI[of _ "i - a"])
qed

lemma find_upt_None_iff: "List.find P [a..<b] = None \<longleftrightarrow> (\<forall>i. a \<le> i \<and> i < b \<longrightarrow> \<not> P i)"
  by (auto simp: find_None_iff)

text \<open>Indices modulo 32 (the ring size of the keyboard buffer), as case distinctions.\<close>

lemma mod32_diff: "0 \<le> (r::int) \<Longrightarrow> r < 32 \<Longrightarrow> 0 \<le> w \<Longrightarrow> w < 32 \<Longrightarrow>
    (w - r) mod 32 = (if r \<le> w then w - r else w - r + 32)"
  using mod_add_self2[of "w - r" 32, symmetric] mod_pos_pos_trivial[of "w - r + 32" 32] by auto

lemma mod32_succ: "0 \<le> (w::int) \<Longrightarrow> w < 32 \<Longrightarrow> (w + 1) mod 32 = (if w = 31 then 0 else w + 1)"
  by auto

lemma mod32_add_nat: "i < 32 \<Longrightarrow> j < (32::nat) \<Longrightarrow> (i + j) mod 32 = (if i + j < 32 then i + j else i + j - 32)"
  by (auto simp: mod_if)

text \<open>A loop that rewrites one cell per index, each from a value fixed before the loop.\<close>

lemma fold_upd_id:
  "distinct xs \<Longrightarrow> fold (\<lambda>i f. f(i := v i)) xs f x = (if x \<in> set xs then v x else f x)"
  by (induction xs arbitrary: f) auto

lemma row_offset_eq:
  assumes "p < k" "p' < (k::nat)"
  shows "k * t' + p' = k * t + p \<longleftrightarrow> t' = t \<and> p' = p"
proof
  assume e: "k * t' + p' = k * t + p"
  have "(k * t' + p') div k = t'" "(k * t + p) div k = t" using assms by simp_all
  then show "t' = t \<and> p' = p" using e by simp
qed simp

subsection \<open>Addresses as page number and offset\<close>

lemma unat_of_nat_DWord: "n < 2 ^ 32 \<Longrightarrow> unat (of_nat n :: DWord) = n"
  by (simp add: unat_of_nat take_bit_nat_eq_self)

lemma unat_DWord_less: "unat (w :: DWord) < 2 ^ 32"
  using unsigned_less[of w] by simp

lemma of_nat_DWord_inj: "m < 2 ^ 32 \<Longrightarrow> n < 2 ^ 32 \<Longrightarrow> (of_nat m :: DWord) = of_nat n \<longleftrightarrow> m = n"
  using unat_of_nat_DWord[of m] unat_of_nat_DWord[of n] by metis

lemma sint_small: "unat (w::DWord) < 2 ^ 31 \<Longrightarrow> sint w = int (unat w)"
proof -
  assume "unat w < 2 ^ 31"
  then have "int (unat w) < int (2 ^ 31)" by (simp only: of_nat_less_iff)
  then have "uint w < 2 ^ 31" by simp
  moreover have "- (2 ^ 31) \<le> uint w" using order_trans[of "- (2 ^ 31)" 0 "uint w"] by simp
  ultimately have "signed_take_bit 31 (uint w) = uint w" by (intro signed_take_bit_int_eq_self)
  then show ?thesis by (simp add: sint_uint)
qed

lemma and_FFF_take_bit: "(w::DWord) AND 0xFFF = take_bit 12 w"
  by (simp add: take_bit_eq_mask mask_eq_exp_minus_1)

lemma page_of_addr:
  assumes "p < 2 ^ 20" "i < 4096"
  shows "drop_bit 12 (of_nat (4096 * p + i) :: DWord) = of_nat p"
proof -
  have u: "unat (of_nat (4096 * p + i) :: DWord) = 4096 * p + i"
    by (rule unat_of_nat_DWord) (use assms in simp)
  have "unat (drop_bit 12 (of_nat (4096 * p + i) :: DWord)) = unat (of_nat p :: DWord)"
    unfolding unat_drop_bit_eq u using assms by (simp add: drop_bit_eq_div unat_of_nat_DWord)
  then show ?thesis by (rule word_unat_eq_iff[THEN iffD2])
qed

lemma offset_of_addr:
  assumes "p < 2 ^ 20" "i < 4096"
  shows "(of_nat (4096 * p + i) :: DWord) AND 0xFFF = of_nat i"
proof -
  have u: "unat (of_nat (4096 * p + i) :: DWord) = 4096 * p + i"
    by (rule unat_of_nat_DWord) (use assms in simp)
  have "unat (take_bit 12 (of_nat (4096 * p + i) :: DWord)) = unat (of_nat i :: DWord)"
    unfolding unsigned_take_bit_eq u using assms by (simp add: take_bit_eq_mod unat_of_nat_DWord)
  then show ?thesis unfolding and_FFF_take_bit by (rule word_unat_eq_iff[THEN iffD2])
qed

lemma addr_of_page:
  assumes "f < 2 ^ 20" "i < 4096"
  shows "push_bit 12 (of_nat f :: DWord) OR of_nat i = of_nat (4096 * f + i)"
proof -
  have "take_bit 12 (of_nat i :: DWord) = of_nat i"
    using offset_of_addr[of 0 i] assms by (simp add: and_FFF_take_bit)
  then have low: "bit (of_nat i :: DWord) n \<Longrightarrow> n < 12" for n
    by (metis bit_take_bit_iff)
  have "push_bit 12 (of_nat f :: DWord) + of_nat i = push_bit 12 (of_nat f) OR of_nat i"
  proof (rule disjunctive_add)
    fix n show "\<not> bit (push_bit 12 (of_nat f :: DWord)) n \<or> \<not> bit (of_nat i :: DWord) n"
      using low[of n] by (auto simp: bit_push_bit_iff)
  qed
  then show ?thesis by (simp add: push_bit_eq_mult algebra_simps)
qed

lemma aligned_unat: "(a::DWord) AND 0xFFF = 0 \<longleftrightarrow> unat a mod 4096 = 0"
proof -
  have "a AND 0xFFF = 0 \<longleftrightarrow> unat (take_bit 12 a) = 0"
    unfolding and_FFF_take_bit by (rule unat_eq_0[symmetric])
  also have "\<dots> \<longleftrightarrow> take_bit 12 (unat a) = 0" unfolding unsigned_take_bit_eq ..
  finally show ?thesis by (simp add: take_bit_eq_mod)
qed

lemma push_drop_aligned:
  assumes "(a::DWord) AND 0xFFF = 0"
  shows "push_bit 12 (drop_bit 12 a) = a"
  using bits_ident[of 12 a] assms by (simp add: and_FFF_take_bit)

lemma fold_inv: "P x \<Longrightarrow> (\<And>i y. i \<in> set xs \<Longrightarrow> P y \<Longrightarrow> P (f i y)) \<Longrightarrow> P (fold f xs x)"
  by (induction xs arbitrary: x) simp_all

end
