(* ===== verification/Zeos_List.thy ===== *)
theory Zeos_List
  imports Zeos_Prelude
begin

text \<open>
  The intrusive doubly linked lists of \<^verbatim>\<open>list.c\<close> and \<^verbatim>\<open>include/list.h\<close>. A
  \<open>struct list_head\<close> is an object with two pointers; the heap maps the object's name to its
  fields and a pointer is an \<^typ>\<open>'a option\<close> (\<^term>\<open>None\<close> is NULL). Writing through NULL
  faults, which is the result \<^term>\<open>None\<close> of an operation.

  \<open>dlist h p xs\<close> says that the object \<open>p\<close> heads the circular list of the entries \<open>xs\<close>;
  \<open>lists_rep h L\<close> that the heap holds the pairwise disjoint lists \<open>L\<close>. The locale
  \<open>list_family\<close> is the interface the scheduler and the system calls use.
\<close>

record 'a list_head =
  nxt :: "'a option"
  prv :: "'a option"

type_synonym 'a list_heap = "'a \<Rightarrow> 'a list_head"

definition set_next :: "'a option \<Rightarrow> 'a option \<Rightarrow> 'a list_heap \<Rightarrow> 'a list_heap option" where
  "set_next p v h = (case p of None \<Rightarrow> None | Some a \<Rightarrow> Some (h(a := (h a)\<lparr>nxt := v\<rparr>)))"

definition set_prev :: "'a option \<Rightarrow> 'a option \<Rightarrow> 'a list_heap \<Rightarrow> 'a list_heap option" where
  "set_prev p v h = (case p of None \<Rightarrow> None | Some a \<Rightarrow> Some (h(a := (h a)\<lparr>prv := v\<rparr>)))"

definition INIT_LIST_HEAD :: "'a \<Rightarrow> 'a list_heap \<Rightarrow> 'a list_heap" where
  "INIT_LIST_HEAD l h = h(l := \<lparr>nxt = Some l, prv = Some l\<rparr>)"

text \<open>\<^verbatim>\<open>__list_add\<close>\<close>

definition list_add_between ::
  "'a \<Rightarrow> 'a option \<Rightarrow> 'a option \<Rightarrow> 'a list_heap \<Rightarrow> 'a list_heap option" where
  "list_add_between new prev next h = do {
     h \<leftarrow> set_prev next (Some new) h;
     h \<leftarrow> set_next (Some new) next h;
     h \<leftarrow> set_prev (Some new) prev h;
     set_next prev (Some new) h
   }"

definition list_add :: "'a \<Rightarrow> 'a \<Rightarrow> 'a list_heap \<Rightarrow> 'a list_heap option" where
  "list_add new head h = list_add_between new (Some head) (nxt (h head)) h"

definition list_add_tail :: "'a \<Rightarrow> 'a \<Rightarrow> 'a list_heap \<Rightarrow> 'a list_heap option" where
  "list_add_tail new head h = list_add_between new (prv (h head)) (Some head) h"

text \<open>\<^verbatim>\<open>__list_del\<close>\<close>

definition list_unlink :: "'a option \<Rightarrow> 'a option \<Rightarrow> 'a list_heap \<Rightarrow> 'a list_heap option" where
  "list_unlink prev next h = do {
     h \<leftarrow> set_prev next prev h;
     set_next prev next h
   }"

definition list_del :: "'a \<Rightarrow> 'a list_heap \<Rightarrow> 'a list_heap option" where
  "list_del entry h = do {
     h \<leftarrow> list_unlink (prv (h entry)) (nxt (h entry)) h;
     h \<leftarrow> set_next (Some entry) None h;
     set_prev (Some entry) None h
   }"

definition list_is_last :: "'a list_heap \<Rightarrow> 'a \<Rightarrow> 'a \<Rightarrow> bool" where
  "list_is_last h l head \<longleftrightarrow> nxt (h l) = Some head"

definition list_empty :: "'a list_heap \<Rightarrow> 'a \<Rightarrow> bool" where
  "list_empty h head \<longleftrightarrow> nxt (h head) = Some head"

definition list_first :: "'a list_heap \<Rightarrow> 'a \<Rightarrow> 'a option" where
  "list_first h head = nxt (h head)"

text \<open>
  \<^verbatim>\<open>list_size\<close>. The traversal follows \<^verbatim>\<open>next\<close> until it meets the head again: it may fault
  at a NULL link or never meet the head, and both are \<^term>\<open>None\<close>.
\<close>

partial_function (option) list_size_loop ::
  "'a list_heap \<Rightarrow> 'a \<Rightarrow> 'a option \<Rightarrow> int \<Rightarrow> int option" where
  "list_size_loop h head pos count =
     (if pos = Some head then Some count
      else case pos of None \<Rightarrow> None
           | Some a \<Rightarrow> list_size_loop h head (nxt (h a)) (wrap32 (count + 1)))"

definition list_size :: "'a list_heap \<Rightarrow> 'a option \<Rightarrow> int option" where
  "list_size h head = (case head of None \<Rightarrow> Some 0
     | Some p \<Rightarrow> if list_empty h p then Some 0 else list_size_loop h p (nxt (h p)) 0)"

subsection \<open>Specification side: what a heap represents\<close>

primrec links :: "'a list_heap \<Rightarrow> 'a \<Rightarrow> 'a list \<Rightarrow> 'a \<Rightarrow> bool" where
  "links h a [] b \<longleftrightarrow> nxt (h a) = Some b \<and> prv (h b) = Some a"
| "links h a (x # xs) b \<longleftrightarrow> nxt (h a) = Some x \<and> prv (h x) = Some a \<and> links h x xs b"

definition dlist :: "'a list_heap \<Rightarrow> 'a \<Rightarrow> 'a list \<Rightarrow> bool" where
  "dlist h p xs \<longleftrightarrow> links h p xs p \<and> distinct (p # xs)"

definition unlinked :: "'a list_heap \<Rightarrow> 'a \<Rightarrow> bool" where
  "unlinked h x \<longleftrightarrow> nxt (h x) = None \<and> prv (h x) = None"

definition lists_rep :: "'a list_heap \<Rightarrow> ('a \<rightharpoonup> 'a list) \<Rightarrow> bool" where
  "lists_rep h L \<longleftrightarrow> (\<forall>p xs. L p = Some xs \<longrightarrow> dlist h p xs) \<and>
     (\<forall>p q xs ys. L p = Some xs \<longrightarrow> L q = Some ys \<longrightarrow> p \<noteq> q \<longrightarrow> set (p # xs) \<inter> set (q # ys) = {})"

definition fresh :: "('a \<rightharpoonup> 'a list) \<Rightarrow> 'a \<Rightarrow> bool" where
  "fresh L n \<longleftrightarrow> (\<forall>p xs. L p = Some xs \<longrightarrow> n \<notin> set (p # xs))"

subsection \<open>Interface: a family of disjoint lists\<close>

locale list_family =
  fixes lists :: "'h \<Rightarrow> ('a \<rightharpoonup> 'a list) \<Rightarrow> bool"
    and add_tail :: "'a \<Rightarrow> 'a \<Rightarrow> 'h \<Rightarrow> 'h option"
    and del :: "'a \<Rightarrow> 'h \<Rightarrow> 'h option"
    and empty :: "'h \<Rightarrow> 'a \<Rightarrow> bool"
    and first :: "'h \<Rightarrow> 'a \<Rightarrow> 'a option"
  assumes fam_distinct: "lists h L \<Longrightarrow> L p = Some xs \<Longrightarrow> distinct (p # xs)"
    and fam_disjoint: "lists h L \<Longrightarrow> L p = Some xs \<Longrightarrow> L q = Some ys \<Longrightarrow> p \<noteq> q \<Longrightarrow>
      set (p # xs) \<inter> set (q # ys) = {}"
    and add_tail_law: "lists h L \<Longrightarrow> L p = Some xs \<Longrightarrow> fresh L n \<Longrightarrow>
      \<exists>h'. add_tail n p h = Some h' \<and> lists h' (L(p \<mapsto> xs @ [n]))"
    and del_law: "lists h L \<Longrightarrow> L p = Some (xs @ x # ys) \<Longrightarrow>
      \<exists>h'. del x h = Some h' \<and> lists h' (L(p \<mapsto> xs @ ys))"
    and empty_law: "lists h L \<Longrightarrow> L p = Some xs \<Longrightarrow> empty h p \<longleftrightarrow> xs = []"
    and first_law: "lists h L \<Longrightarrow> L p = Some (x # xs) \<Longrightarrow> first h p = Some x"
begin

text \<open>Removing an entry makes its object fresh again.\<close>

lemma fresh_after_del:
  assumes "lists h L" "L p = Some (xs @ x # ys)"
  shows "fresh (L(p \<mapsto> xs @ ys)) x"
  unfolding fresh_def
proof (intro allI impI)
  fix q zs assume q: "(L(p \<mapsto> xs @ ys)) q = Some zs"
  show "x \<notin> set (q # zs)"
  proof (cases "q = p")
    case True
    then show ?thesis using q fam_distinct[OF assms] by auto
  next
    case False
    then have zs: "L q = Some zs" using q by simp
    show ?thesis using fam_disjoint[OF assms zs] False by auto
  qed
qed

text \<open>Moving an entry from one list to the tail of another.\<close>

lemma move_law:
  assumes "lists h L" "L p = Some (xs @ x # ys)" "L q = Some zs" "p \<noteq> q"
  shows "\<exists>h1 h2. del x h = Some h1 \<and> add_tail x q h1 = Some h2 \<and>
    lists h2 (L(p \<mapsto> xs @ ys, q \<mapsto> zs @ [x]))"
proof -
  obtain h1 where h1: "del x h = Some h1" "lists h1 (L(p \<mapsto> xs @ ys))"
    using del_law[OF assms(1,2)] by blast
  have "(L(p \<mapsto> xs @ ys)) q = Some zs" using assms(3,4) by simp
  then obtain h2 where "add_tail x q h1 = Some h2"
      "lists h2 ((L(p \<mapsto> xs @ ys))(q \<mapsto> zs @ [x]))"
    using add_tail_law[OF h1(2) _ fresh_after_del[OF assms(1,2)]] by blast
  with h1 show ?thesis by blast
qed

text \<open>Taking the first entry of a queue after putting a fresh one at its tail.\<close>

lemma push_pop_law:
  assumes "lists h L" "L p = Some (x # xs)" "fresh L n"
  shows "\<exists>h1 h2. add_tail n p h = Some h1 \<and> del x h1 = Some h2 \<and>
    lists h2 (L(p \<mapsto> xs @ [n]))"
proof -
  obtain h1 where h1: "add_tail n p h = Some h1" "lists h1 (L(p \<mapsto> (x # xs) @ [n]))"
    using add_tail_law[OF assms] by blast
  have "(L(p \<mapsto> (x # xs) @ [n])) p = Some ([] @ x # (xs @ [n]))" by simp
  from del_law[OF h1(2) this] obtain h2 where "del x h1 = Some h2"
      "lists h2 (L(p \<mapsto> (x # xs) @ [n], p \<mapsto> [] @ xs @ [n]))" by blast
  with h1 show ?thesis by auto
qed

end

subsection \<open>Linked segments\<close>

lemma links_append:
  "links h a (xs @ x # ys) b \<longleftrightarrow> links h a xs x \<and> links h x ys b"
  by (induction xs arbitrary: a) auto

lemma links_snoc:
  "links h a (xs @ [x]) b \<longleftrightarrow> links h a xs x \<and> nxt (h x) = Some b \<and> prv (h b) = Some x"
  by (simp add: links_append)

text \<open>A segment reads \<^verbatim>\<open>next\<close> of its entries but the last and \<^verbatim>\<open>prev\<close> of all but the first.\<close>

lemma links_cong:
  assumes "\<And>x. x \<in> set (a # xs) \<Longrightarrow> nxt (h' x) = nxt (h x)"
    and "\<And>x. x \<in> set (xs @ [b]) \<Longrightarrow> prv (h' x) = prv (h x)"
  shows "links h' a xs b = links h a xs b"
  using assms by (induction xs arbitrary: a) simp_all

lemma links_unique:
  "links h a xs b \<Longrightarrow> links h a ys b \<Longrightarrow> b \<notin> set xs \<Longrightarrow> b \<notin> set ys \<Longrightarrow> xs = ys"
proof (induction xs arbitrary: a ys)
  case Nil
  then show ?case by (cases ys) auto
next
  case (Cons x xs)
  then show ?case by (cases ys) auto
qed

lemma links_last_prv: "links h a xs b \<Longrightarrow> prv (h b) = Some (last (a # xs))"
  by (induction xs arbitrary: a) auto

lemma links_first_nxt: "links h a xs b \<Longrightarrow> nxt (h a) = Some (hd (xs @ [b]))"
  by (cases xs) auto

lemma dlist_unique: "dlist h p xs \<Longrightarrow> dlist h p ys \<Longrightarrow> xs = ys"
  unfolding dlist_def using links_unique by fastforce

lemma dlist_cong:
  assumes "\<And>x. x \<in> set (p # xs) \<Longrightarrow> h' x = h x"
  shows "dlist h' p xs = dlist h p xs"
proof -
  have "links h' p xs p = links h p xs p" by (rule links_cong) (use assms in auto)
  then show ?thesis by (simp add: dlist_def)
qed

lemma dlist_rotate: "dlist h p (xs @ x # ys) \<Longrightarrow> dlist h x (ys @ p # xs)"
  unfolding dlist_def by (auto simp: links_append)

lemma list_empty_iff: "dlist h p xs \<Longrightarrow> list_empty h p \<longleftrightarrow> xs = []"
  by (cases xs) (auto simp: dlist_def list_empty_def)

lemma list_first_hd: "dlist h p (x # xs) \<Longrightarrow> list_first h p = Some x"
  by (simp add: dlist_def list_first_def)

subsection \<open>The operations on one list\<close>

lemma between_reads:
  assumes "n \<noteq> a" "n \<noteq> b" "list_add_between n (Some a) (Some b) h = Some h'"
  shows "nxt (h' x) = (if x = a then Some n else if x = n then Some b else nxt (h x))"
    and "prv (h' x) = (if x = n then Some a else if x = b then Some n else prv (h x))"
    and "x \<notin> {a, b, n} \<Longrightarrow> h' x = h x"
  using assms by (auto simp: list_add_between_def set_next_def set_prev_def)

lemma list_add_between_Some: "\<exists>h'. list_add_between n (Some a) (Some b) h = Some h'"
  by (simp add: list_add_between_def set_next_def set_prev_def)

lemma del_reads:
  assumes "prv (h x) = Some a" "nxt (h x) = Some b" "x \<noteq> a" "x \<noteq> b" "list_del x h = Some h'"
  shows "nxt (h' y) = (if y = x then None else if y = a then Some b else nxt (h y))"
    and "prv (h' y) = (if y = x then None else if y = b then Some a else prv (h y))"
    and "y \<notin> {a, b, x} \<Longrightarrow> h' y = h y"
  using assms by (auto simp: list_del_def list_unlink_def set_next_def set_prev_def)

lemma list_del_Some:
  "prv (h x) = Some a \<Longrightarrow> nxt (h x) = Some b \<Longrightarrow> \<exists>h'. list_del x h = Some h'"
  by (simp add: list_del_def list_unlink_def set_next_def set_prev_def)

lemma list_del_unlinked: "unlinked h x \<Longrightarrow> list_del x h = None"
  by (simp add: unlinked_def list_del_def list_unlink_def set_prev_def)

text \<open>Redirecting the last link of a segment to another object.\<close>

lemma links_retarget:
  assumes "links h a xs b" "distinct (a # xs)"
    and "\<And>x. x \<in> set (a # xs) \<Longrightarrow> x \<noteq> last (a # xs) \<Longrightarrow> nxt (h' x) = nxt (h x)"
    and "\<And>x. x \<in> set xs \<Longrightarrow> prv (h' x) = prv (h x)"
    and "nxt (h' (last (a # xs))) = Some c" "prv (h' c) = Some (last (a # xs))"
  shows "links h' a xs c"
  using assms
proof (induction xs arbitrary: a)
  case Nil
  then show ?case by simp
next
  case (Cons x xs)
  have "nxt (h' a) = nxt (h a)" by (rule Cons.prems(3)) (use Cons.prems(2) in auto)
  moreover have "links h' x xs c"
    by (rule Cons.IH) (use Cons.prems in auto)
  ultimately show ?case using Cons.prems(1,4) by simp
qed

lemma dlist_add_tail:
  assumes d: "dlist h p xs" and n: "n \<notin> set (p # xs)"
  shows "\<exists>h'. list_add_tail n p h = Some h' \<and> dlist h' p (xs @ [n]) \<and>
    (\<forall>x. x \<notin> set (p # xs @ [n]) \<longrightarrow> h' x = h x)"
proof -
  let ?l = "last (p # xs)"
  have l: "links h p xs p" "distinct (p # xs)" using d by (auto simp: dlist_def)
  have lin: "?l \<in> set (p # xs)" by simp
  have nl: "n \<noteq> ?l" "n \<noteq> p" using n lin by (metis, simp)
  obtain h' where h': "list_add_between n (Some ?l) (Some p) h = Some h'"
    using list_add_between_Some[of n ?l p h] by blast
  note rd = between_reads[of n ?l p h h', OF nl h']
  have "links h' p xs n"
  proof (rule links_retarget[OF l])
    fix x assume "x \<in> set (p # xs)" "x \<noteq> ?l"
    then show "nxt (h' x) = nxt (h x)" using n rd(1) by auto
  next
    fix x assume "x \<in> set xs"
    then show "prv (h' x) = prv (h x)" using n l(2) rd(2) by auto
  qed (use rd nl in auto)
  then have "dlist h' p (xs @ [n])"
    using l(2) n nl rd unfolding dlist_def by (auto simp: links_snoc)
  moreover have "list_add_tail n p h = Some h'"
    using h' links_last_prv[OF l(1)] by (simp add: list_add_tail_def)
  moreover have "h' x = h x" if "x \<notin> set (p # xs @ [n])" for x
  proof -
    have "x \<noteq> ?l" using that lin by (metis Un_iff append_Cons set_append)
    then show ?thesis using that rd(3)[of x] by simp
  qed
  ultimately show ?thesis by blast
qed

lemma dlist_add:
  assumes d: "dlist h p xs" and n: "n \<notin> set (p # xs)"
  shows "\<exists>h'. list_add n p h = Some h' \<and> dlist h' p (n # xs) \<and>
    (\<forall>x. x \<notin> set (p # n # xs) \<longrightarrow> h' x = h x)"
proof (cases xs)
  case Nil
  have "list_add n p h = list_add_tail n p h"
    using d Nil by (simp add: dlist_def list_add_def list_add_tail_def)
  then show ?thesis using dlist_add_tail[OF d n] Nil by auto
next
  case (Cons x ys)
  have r: "dlist h x (ys @ [p])" using dlist_rotate[of h p "[]" x ys] d Cons by simp
  have nr: "n \<notin> set (x # ys @ [p])" using n Cons by auto
  have eq: "list_add n p h = list_add_tail n x h"
    using d Cons by (simp add: dlist_def list_add_def list_add_tail_def)
  obtain h' where h': "list_add_tail n x h = Some h'" "dlist h' x ((ys @ [p]) @ [n])"
      "\<forall>z. z \<notin> set (x # (ys @ [p]) @ [n]) \<longrightarrow> h' z = h z"
    using dlist_add_tail[OF r nr] by blast
  have "dlist h' p ([n] @ x # ys)" by (rule dlist_rotate) (use h'(2) in simp)
  then show ?thesis using h' eq Cons by auto
qed

lemma dlist_del:
  assumes d: "dlist h p (xs @ x # ys)"
  shows "\<exists>h'. list_del x h = Some h' \<and> dlist h' p (xs @ ys) \<and> unlinked h' x \<and>
    (\<forall>z. z \<notin> set (p # xs @ x # ys) \<longrightarrow> h' z = h z)"
proof -
  obtain f zs where fz: "ys @ p # xs = f # zs" by (cases ys) auto
  let ?l = "last (f # zs)"
  have r: "dlist h x (f # zs)" using dlist_rotate[OF d] fz by simp
  then have l: "links h f zs x" "distinct (f # zs)" "x \<notin> set (f # zs)"
      and nx: "nxt (h x) = Some f" and px: "prv (h x) = Some ?l"
    using links_last_prv[of h f zs x] by (auto simp: dlist_def)
  have lin: "?l \<in> set (f # zs)" by simp
  have ne: "x \<noteq> ?l" "x \<noteq> f" using l(3) lin by (metis, auto)
  obtain h' where h': "list_del x h = Some h'" using list_del_Some[of h x ?l f] px nx by blast
  note rd = del_reads[of h x ?l f h', OF px nx ne h']
  have "links h' f zs f"
  proof (rule links_retarget[OF l(1,2)])
    fix z assume "z \<in> set (f # zs)" "z \<noteq> ?l"
    then show "nxt (h' z) = nxt (h z)" using l(3) rd(1) by auto
  next
    fix z assume "z \<in> set zs"
    then show "prv (h' z) = prv (h z)" using l(2,3) rd(2) by auto
  qed (use rd ne in auto)
  then have df: "dlist h' f zs" using l(2) by (simp add: dlist_def)
  have "dlist h' p (xs @ ys)"
  proof (cases ys)
    case Nil
    then show ?thesis using df fz by simp
  next
    case (Cons g ws)
    then have "f = g" "zs = ws @ p # xs" using fz by auto
    then show ?thesis using dlist_rotate[of h' f ws p xs] df Cons by simp
  qed
  moreover have "unlinked h' x" using rd(1,2)[of x] by (simp add: unlinked_def)
  moreover have "h' z = h z" if z: "z \<notin> set (p # xs @ x # ys)" for z
  proof -
    have "set (f # zs) = set (ys @ p # xs)" using fz by simp
    then have "z \<notin> set (f # zs)" using z by auto
    then have "z \<notin> {?l, f, x}" using z lin by (metis insertE list.set_intros(1) set_append UnI2 singletonD list.set_intros(2))
    then show ?thesis by (rule rd(3))
  qed
  ultimately show ?thesis using h' by blast
qed

lemma INIT_LIST_HEAD_dlist: "dlist (INIT_LIST_HEAD p h) p []"
  by (simp add: dlist_def INIT_LIST_HEAD_def)

subsection \<open>Counting\<close>

lemma list_size_loop_links:
  "links h a xs p \<Longrightarrow> p \<notin> set xs \<Longrightarrow> 0 \<le> c \<Longrightarrow> c + int (length xs) < 2 ^ 31 \<Longrightarrow>
     list_size_loop h p (nxt (h a)) c = Some (c + int (length xs))"
proof (induction xs arbitrary: a c)
  case Nil
  then show ?case by (simp add: list_size_loop.simps)
next
  case (Cons x xs)
  have w: "wrap32 (c + 1) = c + 1" by (rule wrap32_id) (use Cons.prems in auto)
  have "list_size_loop h p (nxt (h x)) (c + 1) = Some (c + 1 + int (length xs))"
    by (rule Cons.IH) (use Cons.prems in auto)
  then show ?case
    using Cons.prems w by (subst list_size_loop.simps) (auto simp: algebra_simps)
qed

lemma list_size_dlist:
  assumes "dlist h p xs" "length xs < 2 ^ 31"
  shows "list_size h (Some p) = Some (int (length xs))"
proof (cases "xs = []")
  case True
  then show ?thesis using list_empty_iff[OF assms(1)] by (simp add: list_size_def)
next
  case False
  have "list_size_loop h p (nxt (h p)) 0 = Some (0 + int (length xs))"
    by (rule list_size_loop_links) (use assms in \<open>auto simp: dlist_def\<close>)
  then show ?thesis using False list_empty_iff[OF assms(1)] by (simp add: list_size_def)
qed

subsection \<open>Families of lists\<close>

lemma lists_repD:
  "lists_rep h L \<Longrightarrow> L p = Some xs \<Longrightarrow> dlist h p xs"
  by (simp add: lists_rep_def)

lemma lists_rep_disjoint:
  "lists_rep h L \<Longrightarrow> L p = Some xs \<Longrightarrow> L q = Some ys \<Longrightarrow> p \<noteq> q \<Longrightarrow> set (p # xs) \<inter> set (q # ys) = {}"
  unfolding lists_rep_def by blast

text \<open>Replacing one list of the family, the heap unchanged elsewhere.\<close>

lemma lists_rep_update:
  assumes L: "lists_rep h L" and d: "dlist h' p zs"
    and sub: "\<And>q ys. L q = Some ys \<Longrightarrow> q \<noteq> p \<Longrightarrow> set (p # zs) \<inter> set (q # ys) = {}"
    and same: "\<And>q ys x. L q = Some ys \<Longrightarrow> q \<noteq> p \<Longrightarrow> x \<in> set (q # ys) \<Longrightarrow> h' x = h x"
  shows "lists_rep h' (L(p \<mapsto> zs))"
  unfolding lists_rep_def
proof (intro conjI allI impI)
  fix q ys assume "(L(p \<mapsto> zs)) q = Some ys"
  then show "dlist h' q ys"
    using d dlist_cong[of q ys h' h] same lists_repD[OF L] by (auto split: if_splits)
next
  fix q r ys ws
  assume "(L(p \<mapsto> zs)) q = Some ys" "(L(p \<mapsto> zs)) r = Some ws" "q \<noteq> r"
  then show "set (q # ys) \<inter> set (r # ws) = {}"
    using sub lists_rep_disjoint[OF L] by (cases "q = p"; cases "r = p") (auto simp: Int_commute)
qed

lemma lists_rep_add_tail:
  assumes L: "lists_rep h L" and p: "L p = Some xs" and n: "fresh L n"
  shows "\<exists>h'. list_add_tail n p h = Some h' \<and> lists_rep h' (L(p \<mapsto> xs @ [n])) \<and>
    (\<forall>x. x \<notin> set (p # xs @ [n]) \<longrightarrow> h' x = h x)"
proof -
  have np: "n \<notin> set (p # xs)" using n p unfolding fresh_def by blast
  obtain h' where h': "list_add_tail n p h = Some h'" "dlist h' p (xs @ [n])"
      "\<forall>x. x \<notin> set (p # xs @ [n]) \<longrightarrow> h' x = h x"
    using dlist_add_tail[OF lists_repD[OF L p] np] by blast
  have dis: "set (p # xs @ [n]) \<inter> set (q # ys) = {}" if q: "L q = Some ys" "q \<noteq> p" for q ys
  proof -
    have "set (p # xs) \<inter> set (q # ys) = {}" using lists_rep_disjoint[OF L p q(1)] q(2) by simp
    moreover have "n \<notin> set (q # ys)" using n q(1) unfolding fresh_def by blast
    ultimately show ?thesis by auto
  qed
  have "lists_rep h' (L(p \<mapsto> xs @ [n]))"
    by (rule lists_rep_update[OF L h'(2) dis]) (use h'(3) dis in \<open>blast+\<close>)
  with h' show ?thesis by blast
qed

lemma lists_rep_add:
  assumes L: "lists_rep h L" and p: "L p = Some xs" and n: "fresh L n"
  shows "\<exists>h'. list_add n p h = Some h' \<and> lists_rep h' (L(p \<mapsto> n # xs)) \<and>
    (\<forall>x. x \<notin> set (p # n # xs) \<longrightarrow> h' x = h x)"
proof -
  have np: "n \<notin> set (p # xs)" using n p unfolding fresh_def by blast
  obtain h' where h': "list_add n p h = Some h'" "dlist h' p (n # xs)"
      "\<forall>x. x \<notin> set (p # n # xs) \<longrightarrow> h' x = h x"
    using dlist_add[OF lists_repD[OF L p] np] by blast
  have dis: "set (p # n # xs) \<inter> set (q # ys) = {}" if q: "L q = Some ys" "q \<noteq> p" for q ys
  proof -
    have "set (p # xs) \<inter> set (q # ys) = {}" using lists_rep_disjoint[OF L p q(1)] q(2) by simp
    moreover have "n \<notin> set (q # ys)" using n q(1) unfolding fresh_def by blast
    ultimately show ?thesis by auto
  qed
  have "lists_rep h' (L(p \<mapsto> n # xs))"
    by (rule lists_rep_update[OF L h'(2) dis]) (use h'(3) dis in \<open>blast+\<close>)
  with h' show ?thesis by blast
qed

lemma lists_rep_del:
  assumes L: "lists_rep h L" and p: "L p = Some (xs @ x # ys)"
  shows "\<exists>h'. list_del x h = Some h' \<and> lists_rep h' (L(p \<mapsto> xs @ ys)) \<and> unlinked h' x \<and>
    (\<forall>z. z \<notin> set (p # xs @ x # ys) \<longrightarrow> h' z = h z)"
proof -
  obtain h' where h': "list_del x h = Some h'" "dlist h' p (xs @ ys)" "unlinked h' x"
      "\<forall>z. z \<notin> set (p # xs @ x # ys) \<longrightarrow> h' z = h z"
    using dlist_del[OF lists_repD[OF L p]] by blast
  have dis: "set (p # xs @ x # ys) \<inter> set (q # zs) = {}" if "L q = Some zs" "q \<noteq> p" for q zs
    using lists_rep_disjoint[OF L p that(1)] that(2) by simp
  have "lists_rep h' (L(p \<mapsto> xs @ ys))"
  proof (rule lists_rep_update[OF L h'(2)])
    fix q zs assume q: "L q = Some zs" "q \<noteq> p"
    show "set (p # xs @ ys) \<inter> set (q # zs) = {}" using dis[OF q] by auto
    fix z assume "z \<in> set (q # zs)"
    then have "z \<notin> set (p # xs @ x # ys)" using dis[OF q] by blast
    then show "h' z = h z" using h'(4) by blast
  qed
  with h' show ?thesis by blast
qed

lemma lists_rep_init:
  assumes L: "lists_rep h L" and n: "fresh L p"
  shows "lists_rep (INIT_LIST_HEAD p h) (L(p \<mapsto> []))"
proof (rule lists_rep_update[OF L INIT_LIST_HEAD_dlist])
  fix q ys assume "L q = Some ys" "q \<noteq> p"
  then show "set [p] \<inter> set (q # ys) = {}" using n unfolding fresh_def by fastforce
next
  fix q ys x assume "L q = Some ys" "q \<noteq> p" "x \<in> set (q # ys)"
  then have "x \<noteq> p" using n unfolding fresh_def by blast
  then show "INIT_LIST_HEAD p h x = h x" by (simp add: INIT_LIST_HEAD_def)
qed

lemma lists_rep_distinct: "lists_rep h L \<Longrightarrow> L p = Some xs \<Longrightarrow> distinct (p # xs)"
  using lists_repD[of h L p xs] by (simp add: dlist_def)

text \<open>The operations leave every object outside the family alone.\<close>

lemma del_frame:
  assumes "lists_rep h L" "L p = Some (xs @ n # ys)" "fresh L y" "list_del n h = Some h'"
  shows "h' y = h y"
proof -
  have d: "dlist h p (xs @ n # ys)" by (rule lists_repD[OF assms(1,2)])
  then have l: "links h p (xs @ n # ys) p" "distinct (p # xs @ n # ys)" by (simp_all add: dlist_def)
  have s: "links h p xs n" "links h n ys p" using l(1) by (simp_all add: links_append)
  have "last (p # xs) \<noteq> n" "hd (ys @ [p]) \<noteq> n" using l(2) by (auto simp: last_in_set hd_in_set hd_append split: if_splits)
  moreover have "last (p # xs) \<in> set (p # xs)" "hd (ys @ [p]) \<in> set (ys @ [p])" by (rule last_in_set, simp) (rule hd_in_set, simp)
  then have "y \<noteq> last (p # xs)" "y \<noteq> hd (ys @ [p])" "y \<noteq> n" using assms(2,3) unfolding fresh_def by fastforce+
  ultimately show ?thesis
    using del_reads(3)[OF links_last_prv[OF s(1)] links_first_nxt[OF s(2)] _ _ assms(4), of y] by auto
qed

lemma add_tail_frame:
  assumes "lists_rep h L" "L p = Some xs" "fresh L n" "fresh L y" "y \<noteq> n" "list_add_tail n p h = Some h'"
  shows "h' y = h y"
proof -
  have "links h p xs p" using lists_repD[OF assms(1,2)] by (simp add: dlist_def)
  note l = links_last_prv[OF this]
  have "last (p # xs) \<in> set (p # xs)" by (rule last_in_set) simp
  then have "n \<noteq> last (p # xs)" "n \<noteq> p" "y \<noteq> last (p # xs)" "y \<noteq> p" using assms(2-4) unfolding fresh_def by fastforce+
  then show ?thesis using between_reads(3)[OF _ _ assms(6)[unfolded list_add_tail_def l], of y] assms(5) by auto
qed

interpretation klists: list_family lists_rep list_add_tail list_del list_empty list_first
proof
  show "lists_rep h L \<Longrightarrow> L p = Some xs \<Longrightarrow> distinct (p # xs)" for h :: "'a list_heap" and L p xs
    by (rule lists_rep_distinct)
  show "lists_rep h L \<Longrightarrow> L p = Some xs \<Longrightarrow> L q = Some ys \<Longrightarrow> p \<noteq> q \<Longrightarrow>
      set (p # xs) \<inter> set (q # ys) = {}" for h :: "'a list_heap" and L p xs q ys
    by (rule lists_rep_disjoint)
  show "lists_rep h L \<Longrightarrow> L p = Some xs \<Longrightarrow> fresh L n \<Longrightarrow>
      \<exists>h'. list_add_tail n p h = Some h' \<and> lists_rep h' (L(p \<mapsto> xs @ [n]))"
    for h :: "'a list_heap" and L p xs n
    using lists_rep_add_tail[of h L p xs n] by auto
  show "\<exists>h'. list_del x h = Some h' \<and> lists_rep h' (L(p \<mapsto> xs @ ys))"
    if L: "lists_rep h L" "L p = Some (xs @ x # ys)"
    for h :: "'a list_heap" and L p xs x ys
    using lists_rep_del[OF L] by (elim exE conjE) (intro exI conjI)
  show "lists_rep h L \<Longrightarrow> L p = Some xs \<Longrightarrow> list_empty h p \<longleftrightarrow> xs = []"
    for h :: "'a list_heap" and L p xs
    using list_empty_iff[of h p xs] lists_repD[of h L p xs] by auto
  show "lists_rep h L \<Longrightarrow> L p = Some (x # xs) \<Longrightarrow> list_first h p = Some x"
    for h :: "'a list_heap" and L p x xs
    using list_first_hd[of h p x xs] lists_repD[of h L p "x # xs"] by auto
qed

subsection \<open>Properties\<close>

text \<open>C28: \<^verbatim>\<open>list_add_tail\<close> appends the new object to the list it names, and \<^verbatim>\<open>list_add\<close> puts it in
  front. Neither faults, all other lists of the family keep their entries, and no object outside
  the list and the new entry is written.\<close>

theorem list_insertion:
  assumes L: "lists_rep h L" and p: "L p = Some xs" and n: "fresh L n"
  shows "(\<exists>h'. list_add_tail n p h = Some h' \<and> lists_rep h' (L(p \<mapsto> xs @ [n])) \<and>
      (\<forall>x. x \<notin> set (p # xs @ [n]) \<longrightarrow> h' x = h x)) \<and>
    (\<exists>h'. list_add n p h = Some h' \<and> lists_rep h' (L(p \<mapsto> n # xs)) \<and>
      (\<forall>x. x \<notin> set (p # n # xs) \<longrightarrow> h' x = h x))"
  by (rule conjI[OF lists_rep_add_tail[OF assms] lists_rep_add[OF assms]])

theorem list_insertion_witness:
  "\<exists>h'. list_add_tail (1::nat) 0 (INIT_LIST_HEAD 0 (\<lambda>_. \<lparr>nxt = None, prv = None\<rparr>)) = Some h' \<and>
     lists_rep h' ([0 \<mapsto> []](0 \<mapsto> [] @ [1]))"
proof -
  have "lists_rep (INIT_LIST_HEAD 0 (\<lambda>_. \<lparr>nxt = None, prv = None\<rparr>)) [0::nat \<mapsto> []]"
    by (simp add: lists_rep_def INIT_LIST_HEAD_dlist)
  moreover have "fresh [0::nat \<mapsto> []] 1" by (simp add: fresh_def)
  ultimately show ?thesis
    using list_insertion[of "INIT_LIST_HEAD 0 (\<lambda>_. \<lparr>nxt = None, prv = None\<rparr>)" "[0::nat \<mapsto> []]" 0 "[]" 1]
    by auto
qed

text \<open>C29: \<^verbatim>\<open>list_del\<close> of an entry of a list removes exactly that entry, clears its two links and
  leaves every other list alone; a second \<^verbatim>\<open>list_del\<close> of the same object writes through a NULL
  link, which faults.\<close>

theorem list_deletion:
  assumes L: "lists_rep h L" and p: "L p = Some (xs @ x # ys)"
  shows "\<exists>h'. list_del x h = Some h' \<and> lists_rep h' (L(p \<mapsto> xs @ ys)) \<and>
    (\<forall>z. z \<notin> set (p # xs @ x # ys) \<longrightarrow> h' z = h z) \<and> unlinked h' x \<and> list_del x h' = None"
proof -
  obtain h' where h': "list_del x h = Some h'" "lists_rep h' (L(p \<mapsto> xs @ ys))" "unlinked h' x"
      "\<forall>z. z \<notin> set (p # xs @ x # ys) \<longrightarrow> h' z = h z"
    using lists_rep_del[OF assms] by (elim exE conjE)
  show ?thesis by (intro exI[of _ h'] conjI) (use h' list_del_unlinked[OF h'(3)] in simp_all)
qed

theorem list_deletion_witness:
  "\<exists>h'. list_del 1 (((\<lambda>_. \<lparr>nxt = None, prv = None\<rparr>)(0 := \<lparr>nxt = Some 1, prv = Some 1\<rparr>))
      (1::nat := \<lparr>nxt = Some 0, prv = Some 0\<rparr>)) = Some h' \<and> list_del 1 h' = None"
proof -
  let ?h = "((\<lambda>_. \<lparr>nxt = None, prv = None\<rparr>)(0 := \<lparr>nxt = Some 1, prv = Some 1\<rparr>))
      (1::nat := \<lparr>nxt = Some 0, prv = Some 0\<rparr>)"
  have "lists_rep ?h [0 \<mapsto> [] @ 1 # []]" by (simp add: lists_rep_def dlist_def)
  then show ?thesis using list_deletion[of ?h "[0 \<mapsto> [] @ 1 # []]" 0 "[]" 1 "[]"] by auto
qed

text \<open>\<^verbatim>\<open>list_size\<close> terminates on every well-formed list and returns its number of entries (a
  list of 2 to the 31 entries would overflow the counter); on a NULL head it returns 0.\<close>

lemma list_size_counts:
  assumes "dlist h p xs" "length xs < 2 ^ 31"
  shows "list_size h (Some p) = Some (int (length xs)) \<and> list_size h None = Some 0"
  using list_size_dlist[OF assms] by (simp add: list_size_def)

end
