(* ===== verification/Zeos_Types.thy ===== *)
theory Zeos_Types
  imports Zeos_Prelude
begin

text \<open>
  The hardware-facing types of \<^verbatim>\<open>include/types.h\<close>: the address-slicing macros, the gate and
  segment descriptors and the \<open>page_table_entry\<close> union. The union is its 32-bit word
  (\<^verbatim>\<open>entry\<close>); the bit-fields of \<^verbatim>\<open>bits\<close> are read and written by the functions below.
\<close>

subsection \<open>Address slices\<close>

definition highWord :: "DWord \<Rightarrow> Word16" where
  "highWord address = ucast (drop_bit 16 address AND 0xFFFF)"

definition lowWord :: "DWord \<Rightarrow> Word16" where
  "lowWord address = ucast (address AND 0xFFFF)"

definition midByte :: "DWord \<Rightarrow> Byte" where
  "midByte address = ucast (drop_bit 16 address AND 0xFF)"

definition highByte :: "DWord \<Rightarrow> Byte" where
  "highByte address = ucast (drop_bit (16 + 8) address AND 0xFF)"

definition high4Bits :: "DWord \<Rightarrow> Byte" where
  "high4Bits limit = ucast (drop_bit 16 limit AND 0x0F)"

subsection \<open>Descriptors, gates, registers\<close>

record Descriptor =
  limit :: Word16
  lowBase :: Word16
  midBase :: Byte
  flags1 :: Byte
  flags2 :: Byte
  highBase :: Byte

record Gate =
  lowOffset :: Word16
  segmentSelector :: Word16
  gate_flags :: Word16
  highOffset :: Word16

record Register =
  reg_limit :: Word16
  reg_base :: DWord

abbreviation (input) KERNEL_CS :: Word16 where "KERNEL_CS \<equiv> 0x10"
abbreviation (input) KERNEL_DS :: Word16 where "KERNEL_DS \<equiv> 0x18"
abbreviation (input) USER_CS :: Word16 where "USER_CS \<equiv> 0x23"
abbreviation (input) USER_DS :: Word16 where "USER_DS \<equiv> 0x2B"
abbreviation (input) KERNEL_TSS :: Word16 where "KERNEL_TSS \<equiv> 0x30"

subsection \<open>Page table entries\<close>

type_synonym page_table_entry = DWord

definition pte_present :: "page_table_entry \<Rightarrow> DWord" where
  "pte_present e = e AND 1"

definition pte_rw :: "page_table_entry \<Rightarrow> DWord" where
  "pte_rw e = drop_bit 1 e AND 1"

definition pte_user :: "page_table_entry \<Rightarrow> DWord" where
  "pte_user e = drop_bit 2 e AND 1"

definition pte_pbase_addr :: "page_table_entry \<Rightarrow> DWord" where
  "pte_pbase_addr e = drop_bit 12 e"

definition set_pte_present :: "DWord \<Rightarrow> page_table_entry \<Rightarrow> page_table_entry" where
  "set_pte_present v e = (e AND NOT 1) OR (v AND 1)"

definition set_pte_rw :: "DWord \<Rightarrow> page_table_entry \<Rightarrow> page_table_entry" where
  "set_pte_rw v e = (e AND NOT 2) OR push_bit 1 (v AND 1)"

definition set_pte_user :: "DWord \<Rightarrow> page_table_entry \<Rightarrow> page_table_entry" where
  "set_pte_user v e = (e AND NOT 4) OR push_bit 2 (v AND 1)"

definition set_pte_pbase_addr :: "DWord \<Rightarrow> page_table_entry \<Rightarrow> page_table_entry" where
  "set_pte_pbase_addr v e = (e AND 0xFFF) OR push_bit 12 v"

text \<open>An entry given by its base frame and its three low flag bits.\<close>

definition mk_pte :: "DWord \<Rightarrow> DWord \<Rightarrow> page_table_entry" where
  "mk_pte frame flags = push_bit 12 frame OR (flags AND 7)"

subsection \<open>Reading back what was written\<close>

lemma bit_numeral_low_masks:
  "bit (7::int) n \<longleftrightarrow> n < 3" "bit (0xFFF::int) n \<longleftrightarrow> n < 12"
  "bit (0xFFFF::int) n \<longleftrightarrow> n < 16" "bit (0xFF::int) n \<longleftrightarrow> n < 8"
proof -
  have m: "(7::int) = mask 3" "(0xFFF::int) = mask 12" "(0xFFFF::int) = mask 16"
      "(0xFF::int) = mask 8"
    by (simp_all add: mask_eq_exp_minus_1)
  show "bit (7::int) n \<longleftrightarrow> n < 3" "bit (0xFFF::int) n \<longleftrightarrow> n < 12"
      "bit (0xFFFF::int) n \<longleftrightarrow> n < 16" "bit (0xFF::int) n \<longleftrightarrow> n < 8"
    unfolding m by (auto simp: bit_mask_iff)
qed

lemma bit_small_int: "bit (2::int) n \<longleftrightarrow> n = 1" "bit (4::int) n \<longleftrightarrow> n = 2"
  "bit (5::int) n \<longleftrightarrow> n = 0 \<or> n = 2" "bit (3::int) n \<longleftrightarrow> n = 0 \<or> n = 1"
proof -
  have e: "bit (1::int) n \<longleftrightarrow> n = 0" for n
    by (simp add: bit_1_iff)
  show "bit (2::int) n \<longleftrightarrow> n = 1"
    by (cases n) (simp_all add: bit_0 bit_Suc e)
  have two: "bit (2::int) n \<longleftrightarrow> n = 1" for n
    by (cases n) (simp_all add: bit_0 bit_Suc e)
  show "bit (4::int) n \<longleftrightarrow> n = 2" "bit (5::int) n \<longleftrightarrow> n = 0 \<or> n = 2"
      "bit (3::int) n \<longleftrightarrow> n = 0 \<or> n = 1"
    by (cases n; simp add: bit_0 bit_Suc e two)+
qed

lemmas pte_bits = bit_simps bit_numeral_low_masks bit_small_int

lemma pbase_mk_pte: "pte_pbase_addr (mk_pte f fl) = take_bit 20 f"
  unfolding pte_pbase_addr_def mk_pte_def
  by (rule bit_word_eqI) (auto simp: pte_bits)

lemma pbase_mk_pte_of_nat: "n < 2 ^ 20 \<Longrightarrow> pte_pbase_addr (mk_pte (of_nat n) fl) = of_nat n"
  unfolding pbase_mk_pte by (simp add: take_bit_of_nat take_bit_nat_eq_self)

lemma set_flags_mk_pte:
  "set_pte_present 1 (set_pte_rw 1 (set_pte_user 1 (set_pte_pbase_addr f 0))) = mk_pte f 7"
  "set_pte_present 1 (set_pte_user 1 (set_pte_pbase_addr f 0)) = mk_pte f 5"
  "set_pte_present 1 (set_pte_rw 1 (set_pte_pbase_addr f 0)) = mk_pte f 3"
  unfolding set_pte_present_def set_pte_rw_def set_pte_user_def set_pte_pbase_addr_def mk_pte_def
  by (rule bit_word_eqI; auto simp: pte_bits)+

lemma mk_pte_fields [simp]:
  "pte_present (mk_pte f fl) = fl AND 1"
  "pte_rw (mk_pte f fl) = drop_bit 1 fl AND 1"
  "pte_user (mk_pte f fl) = drop_bit 2 fl AND 1"
  unfolding pte_present_def pte_rw_def pte_user_def mk_pte_def
  by (rule bit_word_eqI; auto simp: pte_bits)+

lemma mk_pte_nonzero: "fl AND 1 \<noteq> 0 \<Longrightarrow> mk_pte f fl \<noteq> 0"
  using mk_pte_fields(1)[of f fl] by (auto simp: pte_present_def)

lemma set_rw_mk_pte: "set_pte_rw 1 (mk_pte f fl) = mk_pte f (fl OR 2)"
  unfolding set_pte_rw_def mk_pte_def by (rule bit_word_eqI) (auto simp: pte_bits)

lemma mk_pte_inject:
  "m < 2 ^ 20 \<Longrightarrow> n < 2 ^ 20 \<Longrightarrow> mk_pte (of_nat m) fl = mk_pte (of_nat n) fl' \<Longrightarrow> m = n"
proof -
  assume b: "m < 2 ^ 20" "n < 2 ^ 20" and e: "mk_pte (of_nat m) fl = mk_pte (of_nat n) fl'"
  have "(of_nat m :: DWord) = of_nat n"
    using arg_cong[OF e, of pte_pbase_addr] pbase_mk_pte_of_nat b by simp
  then have "unat (of_nat m :: DWord) = unat (of_nat n :: DWord)" by simp
  then show ?thesis using b by (simp add: unat_of_nat take_bit_nat_eq_self)
qed

text \<open>The slices of an address determine it.\<close>

lemma slices_offset: "(ucast (lowWord a) :: DWord) OR push_bit 16 (ucast (highWord a)) = a"
  unfolding lowWord_def highWord_def by (rule bit_word_eqI) (auto simp: pte_bits)

lemma slices_base:
  "(ucast (lowWord a) :: DWord) OR push_bit 16 (ucast (midByte a)) OR push_bit 24 (ucast (highByte a)) = a"
proof (rule bit_word_eqI)
  fix n assume "n < LENGTH(32)"
  then show "bit ((ucast (lowWord a) :: DWord) OR push_bit 16 (ucast (midByte a)) OR
      push_bit 24 (ucast (highByte a))) n \<longleftrightarrow> bit a n"
    unfolding lowWord_def midByte_def highByte_def by (cases "n < 24") (auto simp: pte_bits)
qed

end
