(* ===== verification/Zeos_Utils.thy ===== *)
theory Zeos_Utils
  imports Zeos_Types
begin

text \<open>
  The block routines of \<^verbatim>\<open>utils.c\<close>, the pointer check \<^verbatim>\<open>access_ok\<close> and the time stamp \<^verbatim>\<open>get_ticks\<close>. Memory is a map
  from physical addresses to bytes; a routine works on virtual addresses, so it takes the
  translation \<open>tr\<close> in force (\<^term>\<open>None\<close> where no page is present). A 32-bit move reads its
  four bytes and then writes them; an access that does not translate is the page fault
  \<^term>\<open>None\<close>. TLB contents are not modelled: every translation is the one of the page table.
\<close>

type_synonym ram = "DWord \<Rightarrow> Byte"
type_synonym translation = "DWord \<Rightarrow> DWord option"

definition load8 :: "translation \<Rightarrow> DWord \<Rightarrow> ram \<Rightarrow> Byte option" where
  "load8 tr a m = map_option m (tr a)"

definition store8 :: "translation \<Rightarrow> DWord \<Rightarrow> Byte \<Rightarrow> ram \<Rightarrow> ram option" where
  "store8 tr a v m = map_option (\<lambda>p. m(p := v)) (tr a)"

text \<open>\<^verbatim>\<open>*q = *p\<close> on \<^verbatim>\<open>DWord\<close> pointers\<close>

definition move32 :: "translation \<Rightarrow> DWord \<Rightarrow> DWord \<Rightarrow> ram \<Rightarrow> ram option" where
  "move32 tr p q m = do {
     b0 \<leftarrow> load8 tr p m; b1 \<leftarrow> load8 tr (p + 1) m;
     b2 \<leftarrow> load8 tr (p + 2) m; b3 \<leftarrow> load8 tr (p + 3) m;
     m \<leftarrow> store8 tr q b0 m; m \<leftarrow> store8 tr (q + 1) b1 m;
     m \<leftarrow> store8 tr (q + 2) b2 m; store8 tr (q + 3) b3 m
   }"

definition move8 :: "translation \<Rightarrow> DWord \<Rightarrow> DWord \<Rightarrow> ram \<Rightarrow> ram option" where
  "move8 tr p q m = do { b \<leftarrow> load8 tr p m; store8 tr q b m }"

definition zero32 :: "translation \<Rightarrow> DWord \<Rightarrow> ram \<Rightarrow> ram option" where
  "zero32 tr q m = do {
     m \<leftarrow> store8 tr q 0 m; m \<leftarrow> store8 tr (q + 1) 0 m;
     m \<leftarrow> store8 tr (q + 2) 0 m; store8 tr (q + 3) 0 m
   }"

text \<open>The two loops every copy routine of the file consists of: words, then bytes.\<close>

function copy_words ::
  "translation \<Rightarrow> DWord \<Rightarrow> DWord \<Rightarrow> int \<Rightarrow> ram \<Rightarrow> (DWord \<times> DWord \<times> int \<times> ram) option" where
  "copy_words tr p q sz m =
     (if sz > 4 then
        (case move32 tr p q m of None \<Rightarrow> None
         | Some m' \<Rightarrow> copy_words tr (p + 4) (q + 4) (sz - 4) m')
      else Some (p, q, sz, m))"
  by pat_completeness auto
termination
  by (relation "measure (\<lambda>(tr, p, q, sz, m). nat sz)") auto

function copy_bytes :: "translation \<Rightarrow> DWord \<Rightarrow> DWord \<Rightarrow> int \<Rightarrow> ram \<Rightarrow> ram option" where
  "copy_bytes tr p q sz m =
     (if sz > 0 then
        (case move8 tr p q m of None \<Rightarrow> None
         | Some m' \<Rightarrow> copy_bytes tr (p + 1) (q + 1) (sz - 1) m')
      else Some m)"
  by pat_completeness auto
termination
  by (relation "measure (\<lambda>(tr, p, q, sz, m). nat sz)") auto

definition copy_data :: "translation \<Rightarrow> DWord \<Rightarrow> DWord \<Rightarrow> int \<Rightarrow> ram \<Rightarrow> ram option" where
  "copy_data tr start dest sz m = do {
     (p, q, sz, m) \<leftarrow> copy_words tr start dest sz m;
     copy_bytes tr p q sz m
   }"

definition copy_from_user :: "translation \<Rightarrow> DWord \<Rightarrow> DWord \<Rightarrow> int \<Rightarrow> ram \<Rightarrow> (int \<times> ram) option" where
  "copy_from_user tr start dest sz m = do {
     (p, q, sz, m) \<leftarrow> copy_words tr start dest sz m;
     m \<leftarrow> copy_bytes tr p q sz m;
     Some (0, m)
   }"

definition copy_to_user :: "translation \<Rightarrow> DWord \<Rightarrow> DWord \<Rightarrow> int \<Rightarrow> ram \<Rightarrow> (int \<times> ram) option" where
  "copy_to_user tr start dest sz m = do {
     (p, q, sz, m) \<leftarrow> copy_words tr start dest sz m;
     m \<leftarrow> copy_bytes tr p q sz m;
     Some (0, m)
   }"

function zero_words :: "translation \<Rightarrow> DWord \<Rightarrow> int \<Rightarrow> ram \<Rightarrow> (DWord \<times> int \<times> ram) option" where
  "zero_words tr q sz m =
     (if sz > 4 then
        (case zero32 tr q m of None \<Rightarrow> None
         | Some m' \<Rightarrow> zero_words tr (q + 4) (sz - 4) m')
      else Some (q, sz, m))"
  by pat_completeness auto
termination
  by (relation "measure (\<lambda>(tr, q, sz, m). nat sz)") auto

function zero_bytes :: "translation \<Rightarrow> DWord \<Rightarrow> int \<Rightarrow> ram \<Rightarrow> ram option" where
  "zero_bytes tr q sz m =
     (if sz > 0 then
        (case store8 tr q 0 m of None \<Rightarrow> None
         | Some m' \<Rightarrow> zero_bytes tr (q + 1) (sz - 1) m')
      else Some m)"
  by pat_completeness auto
termination
  by (relation "measure (\<lambda>(tr, q, sz, m). nat sz)") auto

definition zero_out :: "translation \<Rightarrow> DWord \<Rightarrow> int \<Rightarrow> ram \<Rightarrow> ram option" where
  "zero_out tr dest sz m = do {
     (q, sz, m) \<leftarrow> zero_words tr dest sz m;
     zero_bytes tr q sz m
   }"

declare copy_words.simps [simp del] copy_bytes.simps [simp del]
  zero_words.simps [simp del] zero_bytes.simps [simp del]

subsection \<open>Checking user pointers\<close>

abbreviation (input) VERIFY_READ :: int where "VERIFY_READ \<equiv> 0"
abbreviation (input) VERIFY_WRITE :: int where "VERIFY_WRITE \<equiv> 1"

text \<open>
  \<open>pt\<close> is the page table of the current process, \<^verbatim>\<open>get_PT(current())\<close>; a page is free when
  its entry is 0 (\<^verbatim>\<open>is_logic_page_free\<close>).
\<close>

definition check_allocated :: "(nat \<Rightarrow> page_table_entry) \<Rightarrow> DWord \<Rightarrow> DWord \<Rightarrow> bool" where
  "check_allocated pt addr_ini addr_fin =
     list_all (\<lambda>i. pt i \<noteq> 0) [unat addr_ini..<Suc (unat addr_fin)]"

text \<open>
  The \<^verbatim>\<open>switch\<close> has no \<^verbatim>\<open>break\<close>: a write check that fails both of its tests falls through
  into the read check.
\<close>

definition access_ok :: "(nat \<Rightarrow> page_table_entry) \<Rightarrow> int \<Rightarrow> DWord \<Rightarrow> DWord \<Rightarrow> bool" where
  "access_ok pt type addr sz =
     (let addr_ini = drop_bit 12 addr; addr_fin = drop_bit 12 (addr + sz) in
      if addr_fin < addr_ini then False
      else
        let read_check =
          (if addr_ini \<ge> of_nat USER_FIRST_PAGE \<and>
              addr_fin \<le> of_nat (USER_FIRST_PAGE + NUM_PAG_CODE + NUM_PAG_DATA) then True
           else if addr_ini \<ge> of_nat USER_LAST_PAGE \<and> addr_fin < of_nat TOTAL_PAGES
             then check_allocated pt addr_ini addr_fin
           else False)
        in
          if type = VERIFY_WRITE then
            (if addr_ini \<ge> of_nat (USER_FIRST_PAGE + NUM_PAG_CODE) \<and>
                addr_fin \<le> of_nat USER_LAST_PAGE then True
             else if addr_ini \<ge> of_nat USER_LAST_PAGE \<and> addr_fin < of_nat TOTAL_PAGES
               then check_allocated pt addr_ini addr_fin
             else read_check)
          else read_check)"

subsection \<open>Specification side\<close>

text \<open>
  \<open>maps_range tr a n d\<close>: the \<open>n\<close> bytes from virtual address \<open>a\<close> on are present at the
  physical addresses \<open>d 0, \<dots>, d (n - 1)\<close>.
\<close>

definition maps_range :: "translation \<Rightarrow> DWord \<Rightarrow> nat \<Rightarrow> (nat \<Rightarrow> DWord) \<Rightarrow> bool" where
  "maps_range tr a n d \<longleftrightarrow> (\<forall>i<n. tr (a + of_nat i) = Some (d i))"

definition copied :: "(nat \<Rightarrow> DWord) \<Rightarrow> (nat \<Rightarrow> DWord) \<Rightarrow> nat \<Rightarrow> ram \<Rightarrow> ram \<Rightarrow> bool" where
  "copied s d n m m' \<longleftrightarrow> (\<forall>i<n. m' (d i) = m (s i)) \<and> (\<forall>x. x \<notin> d ` {..<n} \<longrightarrow> m' x = m x)"

definition separate :: "(nat \<Rightarrow> DWord) \<Rightarrow> (nat \<Rightarrow> DWord) \<Rightarrow> nat \<Rightarrow> bool" where
  "separate s d n \<longleftrightarrow> inj_on d {..<n} \<and> s ` {..<n} \<inter> d ` {..<n} = {}"

subsection \<open>Copying\<close>

lemma maps_range_at: "maps_range tr a n d \<Longrightarrow> i < n \<Longrightarrow> tr (a + of_nat i) = Some (d i)"
  by (simp add: maps_range_def)

lemma maps_range_shift:
  assumes "maps_range tr a n d" "k \<le> n"
  shows "maps_range tr (a + of_nat k) (n - k) (\<lambda>i. d (k + i))"
  unfolding maps_range_def
proof (intro allI impI)
  fix i assume "i < n - k"
  then have "tr (a + of_nat (k + i)) = Some (d (k + i))"
    using assms by (intro maps_range_at) auto
  then show "tr (a + of_nat k + of_nat i) = Some (d (k + i))" by (simp add: add.assoc)
qed

lemma separate_shift:
  assumes "separate s d n" "k \<le> n"
  shows "separate (\<lambda>i. s (k + i)) (\<lambda>i. d (k + i)) (n - k)"
  unfolding separate_def
proof
  have inj: "inj_on d {..<n}" and dis: "s ` {..<n} \<inter> d ` {..<n} = {}"
    using assms(1) by (simp_all add: separate_def)
  show "inj_on (\<lambda>i. d (k + i)) {..<n - k}"
  proof (rule inj_onI)
    fix x y assume "x \<in> {..<n - k}" "y \<in> {..<n - k}" "d (k + x) = d (k + y)"
    then show "x = y" using inj_onD[OF inj, of "k + x" "k + y"] by auto
  qed
  have "(\<lambda>i. s (k + i)) ` {..<n - k} \<subseteq> s ` {..<n}" "(\<lambda>i. d (k + i)) ` {..<n - k} \<subseteq> d ` {..<n}"
    by auto
  then show "(\<lambda>i. s (k + i)) ` {..<n - k} \<inter> (\<lambda>i. d (k + i)) ` {..<n - k} = {}"
    using dis by blast
qed

text \<open>Copying a prefix and then the rest copies the whole.\<close>

lemma copied_trans:
  assumes sep: "separate s d n" and k: "k \<le> n"
    and 1: "copied s d k m m1"
    and 2: "copied (\<lambda>i. s (k + i)) (\<lambda>i. d (k + i)) (n - k) m1 m2"
  shows "copied s d n m m2"
proof -
  have dd: "d i \<noteq> d j" if "i < n" "j < n" "i \<noteq> j" for i j
    using sep that unfolding separate_def inj_on_def by auto
  have sd: "s i \<noteq> d j" if "i < n" "j < n" for i j
    using sep that unfolding separate_def by blast
  have m1: "m1 x = m x" if "\<And>j. j < k \<Longrightarrow> x \<noteq> d j" for x
    using 1 that unfolding copied_def by auto
  have m2: "m2 x = m1 x" if x: "\<And>j. k \<le> j \<Longrightarrow> j < n \<Longrightarrow> x \<noteq> d j" for x
  proof -
    have "x \<notin> (\<lambda>i. d (k + i)) ` {..<n - k}" using x[of "k + i" for i] by force
    then show ?thesis using 2 unfolding copied_def by blast
  qed
  have "m2 (d i) = m (s i)" if i: "i < n" for i
  proof (cases "i < k")
    case True
    have "m2 (d i) = m1 (d i)" by (rule m2) (use dd i True in auto)
    then show ?thesis using 1 True unfolding copied_def by simp
  next
    case False
    then obtain j where j: "i = k + j" "j < n - k" using i k le_Suc_ex[of k i] by auto
    have "m2 (d i) = m1 (s i)" using 2 j unfolding copied_def by auto
    also have "\<dots> = m (s i)" by (rule m1) (use sd i k in auto)
    finally show ?thesis .
  qed
  moreover have "m2 x = m x" if x: "x \<notin> d ` {..<n}" for x
  proof -
    have "m2 x = m1 x" by (rule m2) (use x in auto)
    also have "\<dots> = m x" by (rule m1) (use x k in auto)
    finally show ?thesis .
  qed
  ultimately show ?thesis unfolding copied_def by blast
qed

lemma move8_copied:
  assumes "maps_range tr p n s" "maps_range tr q n d" "0 < n"
  shows "\<exists>m'. move8 tr p q m = Some m' \<and> copied s d 1 m m'"
  using maps_range_at[OF assms(1,3)] maps_range_at[OF assms(2,3)]
  by (auto simp: move8_def load8_def store8_def copied_def)

lemma move32_copied:
  assumes s: "maps_range tr p n s" and d: "maps_range tr q n d" and n: "4 \<le> n"
    and sep: "separate s d n"
  shows "\<exists>m'. move32 tr p q m = Some m' \<and> copied s d 4 m m'"
proof -
  have ts: "tr p = Some (s 0)" "tr (p + 1) = Some (s 1)" "tr (p + 2) = Some (s 2)"
      "tr (p + 3) = Some (s 3)"
    using maps_range_at[OF s, of 0] maps_range_at[OF s, of 1] maps_range_at[OF s, of 2]
      maps_range_at[OF s, of 3] n by auto
  have td: "tr q = Some (d 0)" "tr (q + 1) = Some (d 1)" "tr (q + 2) = Some (d 2)"
      "tr (q + 3) = Some (d 3)"
    using maps_range_at[OF d, of 0] maps_range_at[OF d, of 1] maps_range_at[OF d, of 2]
      maps_range_at[OF d, of 3] n by auto
  let ?m = "m(d 0 := m (s 0), d 1 := m (s 1), d 2 := m (s 2), d 3 := m (s 3))"
  have "move32 tr p q m = Some ?m"
    by (simp add: move32_def load8_def store8_def ts td)
  moreover have "d i \<noteq> d j" if "i < 4" "j < 4" "i \<noteq> j" for i j
    using sep that n unfolding separate_def inj_on_def by auto
  then have "copied s d 4 m ?m"
    unfolding copied_def by (auto simp: less_Suc_eq numeral_eq_Suc)
  ultimately show ?thesis by blast
qed

lemma copy_bytes_copied:
  "maps_range tr p n s \<Longrightarrow> maps_range tr q n d \<Longrightarrow> separate s d n \<Longrightarrow>
     \<exists>m'. copy_bytes tr p q (int n) m = Some m' \<and> copied s d n m m'"
proof (induction n arbitrary: p q s d m)
  case 0
  then show ?case by (simp add: copy_bytes.simps copied_def)
next
  case (Suc n)
  obtain m1 where m1: "move8 tr p q m = Some m1" "copied s d 1 m m1"
    using move8_copied[OF Suc.prems(1,2)] by blast
  obtain m2 where m2: "copy_bytes tr (p + 1) (q + 1) (int n) m1 = Some m2"
      "copied (\<lambda>i. s (1 + i)) (\<lambda>i. d (1 + i)) n m1 m2"
    using Suc.IH[of "p + 1" "\<lambda>i. s (1 + i)" "q + 1" "\<lambda>i. d (1 + i)" m1]
      maps_range_shift[OF Suc.prems(1), of 1] maps_range_shift[OF Suc.prems(2), of 1]
      separate_shift[OF Suc.prems(3), of 1] by auto
  have "copied s d (Suc n) m m2"
    by (rule copied_trans[OF Suc.prems(3) _ m1(2)]) (use m2 in simp_all)
  moreover have "copy_bytes tr p q (int (Suc n)) m = Some m2"
    using m1 m2 by (subst copy_bytes.simps) simp
  ultimately show ?case by blast
qed

lemma copy_data_step:
  "copy_data tr p q sz m =
     (if sz > 4 then
        (case move32 tr p q m of None \<Rightarrow> None
         | Some m' \<Rightarrow> copy_data tr (p + 4) (q + 4) (sz - 4) m')
      else copy_bytes tr p q sz m)"
  unfolding copy_data_def by (subst copy_words.simps) (auto split: option.split)

lemma copy_data_copied:
  "maps_range tr p n s \<Longrightarrow> maps_range tr q n d \<Longrightarrow> separate s d n \<Longrightarrow>
     \<exists>m'. copy_data tr p q (int n) m = Some m' \<and> copied s d n m m'"
proof (induction n arbitrary: p q s d m rule: less_induct)
  case (less n)
  show ?case
  proof (cases "n > 4")
    case False
    then show ?thesis using copy_bytes_copied[OF less.prems] by (subst copy_data_step) simp
  next
    case True
    obtain m1 where m1: "move32 tr p q m = Some m1" "copied s d 4 m m1"
      using move32_copied[OF less.prems(1,2) _ less.prems(3)] True by auto
    obtain m2 where m2: "copy_data tr (p + 4) (q + 4) (int (n - 4)) m1 = Some m2"
        "copied (\<lambda>i. s (4 + i)) (\<lambda>i. d (4 + i)) (n - 4) m1 m2"
      using less.IH[of "n - 4" "p + 4" "\<lambda>i. s (4 + i)" "q + 4" "\<lambda>i. d (4 + i)" m1]
        maps_range_shift[OF less.prems(1), of 4] maps_range_shift[OF less.prems(2), of 4]
        separate_shift[OF less.prems(3), of 4] True by auto
    have "copied s d n m m2"
      by (rule copied_trans[OF less.prems(3) _ m1(2) m2(2)]) (use True in simp)
    moreover have "copy_data tr p q (int n) m = Some m2"
      using m1 m2 True by (subst copy_data_step) (simp add: of_nat_diff)
    ultimately show ?thesis by blast
  qed
qed

lemma copy_user_data:
  "copy_from_user tr p q n m = map_option (\<lambda>m. (0, m)) (copy_data tr p q n m)"
  "copy_to_user tr p q n m = map_option (\<lambda>m. (0, m)) (copy_data tr p q n m)"
  unfolding copy_from_user_def copy_to_user_def copy_data_def
  by (auto simp: bind_eq_Some_conv split: Option.bind_splits)

subsection \<open>Zeroing\<close>

definition zeroed :: "(nat \<Rightarrow> DWord) \<Rightarrow> nat \<Rightarrow> ram \<Rightarrow> ram \<Rightarrow> bool" where
  "zeroed d n m m' \<longleftrightarrow> m' = (\<lambda>x. if x \<in> d ` {..<n} then 0 else m x)"

lemma zeroed_trans:
  assumes "k \<le> n" "zeroed d k m m1" "zeroed (\<lambda>i. d (k + i)) (n - k) m1 m2"
  shows "zeroed d n m m2"
proof -
  have "{..<n} = {..<k} \<union> (+) k ` {..<n - k}"
  proof (rule set_eqI)
    fix x show "x \<in> {..<n} \<longleftrightarrow> x \<in> {..<k} \<union> (+) k ` {..<n - k}"
      using assms(1) by (cases "x < k") (auto intro: image_eqI[of _ _ "x - k"])
  qed
  then have "d ` {..<n} = d ` {..<k} \<union> (\<lambda>i. d (k + i)) ` {..<n - k}"
    by (simp add: image_Un image_image)
  then show ?thesis using assms(2,3) unfolding zeroed_def by auto
qed

lemma zero_bytes_zeroed:
  "maps_range tr q n d \<Longrightarrow> \<exists>m'. zero_bytes tr q (int n) m = Some m' \<and> zeroed d n m m'"
proof (induction n arbitrary: q d m)
  case 0
  then show ?case by (simp add: zero_bytes.simps zeroed_def)
next
  case (Suc n)
  have s: "store8 tr q 0 m = Some (m(d 0 := 0))"
    using maps_range_at[OF Suc.prems, of 0] by (simp add: store8_def)
  obtain m2 where m2: "zero_bytes tr (q + 1) (int n) (m(d 0 := 0)) = Some m2"
      "zeroed (\<lambda>i. d (1 + i)) n (m(d 0 := 0)) m2"
    using Suc.IH[of "q + 1" "\<lambda>i. d (1 + i)"] maps_range_shift[OF Suc.prems, of 1] by auto
  have "zeroed d 1 m (m(d 0 := 0))" by (simp add: zeroed_def lessThan_Suc fun_eq_iff)
  then have "zeroed d (Suc n) m m2"
    using m2(2) by (intro zeroed_trans[of 1 "Suc n" d m "m(d 0 := 0)" m2]) simp_all
  moreover have "zero_bytes tr q (int (Suc n)) m = Some m2"
    using s m2 by (subst zero_bytes.simps) simp
  ultimately show ?case by blast
qed

lemma zero_out_step:
  "zero_out tr q sz m =
     (if sz > 4 then
        (case zero32 tr q m of None \<Rightarrow> None | Some m' \<Rightarrow> zero_out tr (q + 4) (sz - 4) m')
      else zero_bytes tr q sz m)"
  unfolding zero_out_def by (subst zero_words.simps) (auto split: option.split)

lemma zero_out_zeroed:
  "maps_range tr q n d \<Longrightarrow> \<exists>m'. zero_out tr q (int n) m = Some m' \<and> zeroed d n m m'"
proof (induction n arbitrary: q d m rule: less_induct)
  case (less n)
  show ?case
  proof (cases "n > 4")
    case False
    then show ?thesis using zero_bytes_zeroed[OF less.prems] by (subst zero_out_step) simp
  next
    case True
    have td: "tr q = Some (d 0)" "tr (q + 1) = Some (d 1)" "tr (q + 2) = Some (d 2)"
        "tr (q + 3) = Some (d 3)"
      using maps_range_at[OF less.prems, of 0] maps_range_at[OF less.prems, of 1]
        maps_range_at[OF less.prems, of 2] maps_range_at[OF less.prems, of 3] True by auto
    define m1 where "m1 = m(d 0 := 0, d 1 := 0, d 2 := 0, d 3 := 0)"
    have z: "zero32 tr q m = Some m1" "zeroed d 4 m m1"
      unfolding m1_def
      by (auto simp: zero32_def store8_def td zeroed_def fun_eq_iff lessThan_Suc numeral_eq_Suc)
    obtain m2 where m2: "zero_out tr (q + 4) (int (n - 4)) m1 = Some m2"
        "zeroed (\<lambda>i. d (4 + i)) (n - 4) m1 m2"
      using less.IH[of "n - 4" "q + 4" "\<lambda>i. d (4 + i)" m1]
        maps_range_shift[OF less.prems, of 4] True by auto
    have "zeroed d n m m2" by (rule zeroed_trans[OF _ z(2) m2(2)]) (use True in simp)
    moreover have "zero_out tr q (int n) m = Some m2"
      using z m2 True by (subst zero_out_step) (simp add: of_nat_diff)
    ultimately show ?thesis by blast
  qed
qed

subsection \<open>The pointer check\<close>

lemma access_ok_type_irrelevant: "access_ok pt VERIFY_WRITE a n = access_ok pt VERIFY_READ a n"
proof -
  have "a \<ge> (264::DWord) \<Longrightarrow> a \<ge> 256" for a :: DWord
    by (rule order_trans[of 256 264 a]) simp_all
  moreover have "a \<ge> (284::DWord) \<Longrightarrow> a \<ge> 264" for a :: DWord
    by (rule order_trans[of 264 284 a]) simp_all
  ultimately show ?thesis by (auto simp: access_ok_def Let_def)
qed

lemma access_ok_other_type:
  "ty \<noteq> VERIFY_WRITE \<Longrightarrow> access_ok pt ty a n = access_ok pt VERIFY_READ a n"
  unfolding access_ok_def by simp

text \<open>The check in terms of page numbers.\<close>

lemma access_ok_iff:
  "access_ok pt ty a n \<longleftrightarrow> (let l = unat a div 4096; r = unat (a + n) div 4096 in
     l \<le> r \<and> (256 \<le> l \<and> r \<le> 284 \<or> 284 \<le> l \<and> r < 1024 \<and> (\<forall>p. l \<le> p \<and> p \<le> r \<longrightarrow> pt p \<noteq> 0)))"
proof -
  have u: "unat (drop_bit 12 x) = unat x div 4096" for x :: DWord
    unfolding unat_drop_bit_eq by (simp add: drop_bit_eq_div)
  have "access_ok pt ty a n = access_ok pt VERIFY_READ a n"
    using access_ok_type_irrelevant[of pt a n] access_ok_other_type[of ty pt a n] by (cases "ty = VERIFY_WRITE") simp_all
  also have "\<dots> \<longleftrightarrow> (let l = unat a div 4096; r = unat (a + n) div 4096 in
     l \<le> r \<and> (256 \<le> l \<and> r \<le> 284 \<or> 284 \<le> l \<and> r < 1024 \<and> (\<forall>p. l \<le> p \<and> p \<le> r \<longrightarrow> pt p \<noteq> 0)))"
    unfolding access_ok_def Let_def word_le_nat_alt word_less_nat_alt check_allocated_def u
    by (auto simp: list_all_iff)
  finally show ?thesis .
qed

lemma access_ok_pages:
  assumes ok: "access_ok pt ty a n"
  defines "l \<equiv> unat a div 4096" and "r \<equiv> unat (a + n) div 4096"
  shows "256 \<le> l" "l \<le> r" "r < 1024" "r \<le> 284 \<or> (\<forall>p. l \<le> p \<and> p \<le> r \<longrightarrow> pt p \<noteq> 0)"
  using ok[unfolded access_ok_iff] by (auto simp: Let_def l_def r_def)

lemma access_ok_range:
  assumes ok: "access_ok pt ty a n" and n: "n < 2 ^ 31" and i: "i \<le> unat n"
  shows "unat (a + of_nat i) = unat a + i"
    "256 \<le> (unat a + i) div 4096" "(unat a + i) div 4096 < 1024"
    "(unat a + i) div 4096 \<le> 284 \<or> pt ((unat a + i) div 4096) \<noteq> 0"
proof -
  note p = access_ok_pages[OF ok]
  have a: "unat a < 2 ^ 22" using p(2,3) by simp
  have nn: "unat n < 2 ^ 31" using n by (simp add: word_less_nat_alt)
  have s: "unat (a + n) = unat a + unat n" by (subst unat_word_ariths) (use a nn in simp)
  have "unat (of_nat i :: DWord) = i" by (rule unat_of_nat_DWord) (use i nn in simp)
  then show "unat (a + of_nat i) = unat a + i"
    by (subst unat_word_ariths) (use a nn i in simp)
  have b: "unat a div 4096 \<le> (unat a + i) div 4096" "(unat a + i) div 4096 \<le> unat (a + n) div 4096"
    using i s by (simp_all add: div_le_mono)
  then show "256 \<le> (unat a + i) div 4096" "(unat a + i) div 4096 < 1024"
    "(unat a + i) div 4096 \<le> 284 \<or> pt ((unat a + i) div 4096) \<noteq> 0"
    using p by auto
qed

subsection \<open>Properties\<close>

text \<open>C30: \<^verbatim>\<open>copy_data\<close> copies \<open>n\<close> bytes whatever the alignment of \<open>n\<close>: when both ranges are mapped
  and the destination neither aliases itself nor the source, the routine does not fault, every
  destination byte becomes the source byte, and no other byte of memory changes.
  \<^verbatim>\<open>copy_from_user\<close> and \<^verbatim>\<open>copy_to_user\<close> do the same and return 0.\<close>

theorem copy_data_correct:
  assumes "maps_range tr p n s" "maps_range tr q n d" "separate s d n"
  shows "\<exists>m'. copy_data tr p q (int n) m = Some m' \<and>
    copy_from_user tr p q (int n) m = Some (0, m') \<and> copy_to_user tr p q (int n) m = Some (0, m') \<and>
    (\<forall>i<n. m' (d i) = m (s i)) \<and> (\<forall>x. x \<notin> d ` {..<n} \<longrightarrow> m' x = m x)"
  using copy_data_copied[OF assms, of m] by (auto simp: copy_user_data copied_def)

theorem copy_data_correct_witness:
  "\<exists>m'. copy_data Some 0 8 6 (\<lambda>x. ucast x) = Some m' \<and> m' 9 = 1 \<and> m' 13 = 5 \<and> m' 14 = 14"
proof -
  have r: "maps_range Some 0 6 (\<lambda>i. of_nat i)" "maps_range Some 8 6 (\<lambda>i. 8 + of_nat i)"
    by (simp_all add: maps_range_def)
  have six: "{..<6::nat} = {0, 1, 2, 3, 4, 5}" by auto
  have sp: "separate (\<lambda>i. of_nat i) (\<lambda>i. 8 + of_nat i :: DWord) 6"
    unfolding separate_def six by (simp add: inj_on_def)
  obtain m' where m': "copy_data Some 0 8 (int 6) (\<lambda>x. ucast x) = Some m'"
      "\<forall>i<6. m' (8 + of_nat i) = ucast (of_nat i :: DWord)"
      "\<forall>x. x \<notin> (\<lambda>i. 8 + of_nat i) ` {..<6::nat} \<longrightarrow> m' x = ucast x"
    using copy_data_correct[OF r sp, of "\<lambda>x. ucast x"] by blast
  have "m' 9 = 1" "m' 13 = 5" using m'(2)[rule_format, of 1] m'(2)[rule_format, of 5] by simp_all
  moreover have "m' 14 = 14" using m'(3)[rule_format, of 14] by (simp add: six)
  ultimately show ?thesis using m'(1) by auto
qed

text \<open>\<^verbatim>\<open>zero_out\<close> of a mapped range clears exactly the bytes of the range and does not fault,
  even where two of its pages share a frame.\<close>

lemma zero_out_correct:
  assumes "maps_range tr q n d"
  shows "zero_out tr q (int n) m = Some (\<lambda>x. if x \<in> d ` {..<n} then 0 else m x)"
  using zero_out_zeroed[OF assms, of m] by (auto simp: zeroed_def)



subsection \<open>Time stamps\<close>

text \<open>\<^verbatim>\<open>divl\<close> divides the pair of words \<open>hi:lo\<close> by a word; a quotient that does not fit into a word is a fault.\<close>

definition divl :: "DWord \<Rightarrow> DWord \<Rightarrow> DWord \<Rightarrow> (DWord \<times> DWord) option" where
  "divl hi lo base = (let n = 2 ^ 32 * unat hi + unat lo; b = unat base in
     if b = 0 \<or> n div b \<ge> 2 ^ 32 then None else Some (of_nat (n div b), of_nat (n mod b)))"

text \<open>The macro \<^verbatim>\<open>do_div\<close> on the halves of a 64-bit number: the halves of the quotient and the remainder.\<close>

definition do_div :: "DWord \<Rightarrow> DWord \<Rightarrow> DWord \<Rightarrow> ((DWord \<times> DWord) \<times> DWord) option" where
  "do_div high low base =
     (let (upper, high) = (if high \<noteq> 0 then (high mod base, high div base) else (high, high))
      in map_option (\<lambda>(low, md). ((high, low), md)) (divl upper low base))"

abbreviation (input) CYCLESPERTICK :: DWord where "CYCLESPERTICK \<equiv> 109000"

text \<open>\<^verbatim>\<open>get_ticks\<close> with what \<^verbatim>\<open>rdtsc\<close> delivers; the result is the low word of the quotient.\<close>

definition get_ticks :: "DWord \<Rightarrow> DWord \<Rightarrow> DWord option" where
  "get_ticks edx eax = map_option (\<lambda>((high, low), md). low) (do_div edx eax CYCLESPERTICK)"

lemma divl_fits:
  assumes "unat hi < unat base"
  shows "divl hi lo base = Some (of_nat ((2 ^ 32 * unat hi + unat lo) div unat base), of_nat ((2 ^ 32 * unat hi + unat lo) mod unat base))"
proof -
  have "2 ^ 32 * unat hi + unat lo < 2 ^ 32 * Suc (unat hi)" using unat_DWord_less[of lo] by simp
  also have "\<dots> \<le> 2 ^ 32 * unat base" using assms by (intro mult_le_mono2) simp
  finally have "(2 ^ 32 * unat hi + unat lo) div unat base < 2 ^ 32" using assms by (simp add: less_mult_imp_div_less)
  then show ?thesis using assms by (simp add: divl_def Let_def)
qed

text \<open>The two divisions never fault and compute the 64-bit quotient and the remainder.\<close>

lemma do_div_correct:
  assumes "base \<noteq> 0"
  shows "\<exists>h l r. do_div high low base = Some ((h, l), r) \<and>
    2 ^ 32 * unat h + unat l = (2 ^ 32 * unat high + unat low) div unat base \<and> unat r = (2 ^ 32 * unat high + unat low) mod unat base"
proof -
  let ?b = "unat base" and ?q = "unat high div unat base" and ?m = "unat high mod unat base"
  have b: "0 < ?b" using assms by (simp add: unat_gt_0)
  define n where "n = 2 ^ 32 * ?m + unat low"
  have hm: "unat (high mod base) = ?m" "unat (high div base) = ?q" by (simp_all add: unat_mod unat_div)
  have d: "divl (high mod base) low base = Some (of_nat (n div ?b), of_nat (n mod ?b))"
    unfolding n_def using divl_fits[of "high mod base" base low] b by (simp add: hm)
  have lt: "n div ?b < 2 ^ 32" "n mod ?b < 2 ^ 32"
  proof -
    have "n < 2 ^ 32 * Suc ?m" unfolding n_def using unat_DWord_less[of low] by simp
    also have "\<dots> \<le> 2 ^ 32 * ?b" using b by (intro mult_le_mono2) (simp add: Suc_leI)
    finally show "n div ?b < 2 ^ 32" using b by (simp add: less_mult_imp_div_less)
    show "n mod ?b < 2 ^ 32" using mod_less_divisor[OF b, of n] unat_DWord_less[of base] by linarith
  qed
  have "2 ^ 32 * unat high + unat low = 2 ^ 32 * ?q * ?b + n"
    unfolding n_def by (metis (no_types) add.assoc distrib_left div_mult_mod_eq mult.assoc)
  then have "(2 ^ 32 * unat high + unat low) div ?b = 2 ^ 32 * ?q + n div ?b" "(2 ^ 32 * unat high + unat low) mod ?b = n mod ?b"
    using b by simp_all
  moreover have "do_div high low base = Some ((high div base, of_nat (n div ?b)), of_nat (n mod ?b))"
    using d by (cases "high = 0") (simp_all add: do_div_def)
  ultimately show ?thesis using lt by (auto simp: hm unat_of_nat_DWord)
qed

lemma get_ticks_result: "get_ticks edx eax = Some (of_nat ((2 ^ 32 * unat edx + unat eax) div 109000))"
proof -
  obtain h l r where r: "do_div edx eax 109000 = Some ((h, l), r)" "2 ^ 32 * unat h + unat l = (2 ^ 32 * unat edx + unat eax) div 109000"
    using do_div_correct[of 109000 edx eax] by auto
  have "unat (of_nat (2 ^ 32 * unat h + unat l) :: DWord) = unat l"
    using unat_DWord_less[of l] by (simp only: unat_of_nat take_bit_eq_mod) simp
  then have "l = of_nat (2 ^ 32 * unat h + unat l)" by (metis word_unat_eq_iff)
  then show ?thesis using r by (simp only: get_ticks_def option.map prod.case)
qed

end
