(* ===== verification/Zeos_Mm.thy ===== *)
theory Zeos_Mm
  imports Zeos_Utils
begin

text \<open>
  Memory management, \<^verbatim>\<open>mm.c\<close>: the frame byte map, the shared pages, page directories and page
  tables, and the address translation the CPU performs with them.

  \<^verbatim>\<open>pagusr_table\<close> is the flat array of the C program: word \<open>1024 * j + i\<close> is
  \<^verbatim>\<open>pagusr_table[j][i]\<close>, and indexing past a row reaches the next one, as in C; words past the
  array stand for the kernel memory behind it. Its address is chosen by the linker and is the
  component \<open>pagusr_addr\<close>. A pointer into \<^verbatim>\<open>dir_pages\<close> is the row number. The physical memory
  \<open>ram\<close> holds the bytes of the frames; the kernel's own variables are the typed components.
\<close>

record SharedPage =
  sh_frame :: int
  num_refs :: int
  to_clear :: int

record mm_state =
  phys_mem :: "nat \<Rightarrow> Byte"
  shared_pages :: "nat \<Rightarrow> SharedPage"
  dir_pages :: "nat \<Rightarrow> nat \<Rightarrow> page_table_entry"
  pagusr_table :: "nat \<Rightarrow> page_table_entry"
  pagusr_addr :: DWord
  cr3 :: "nat option"
  cr0 :: DWord
  ram :: ram

subsection \<open>Page table access\<close>

text \<open>\<^verbatim>\<open>PT[page]\<close> for a table at address \<open>PT\<close>: the index of the word in the flat array.\<close>

definition pt_index :: "mm_state \<Rightarrow> DWord \<Rightarrow> nat \<Rightarrow> nat" where
  "pt_index m PT page = unat (PT - pagusr_addr m) div 4 + page"

definition pt_get :: "mm_state \<Rightarrow> DWord \<Rightarrow> nat \<Rightarrow> page_table_entry" where
  "pt_get m PT page = pagusr_table m (pt_index m PT page)"

definition pt_set :: "mm_state \<Rightarrow> DWord \<Rightarrow> nat \<Rightarrow> page_table_entry \<Rightarrow> mm_state" where
  "pt_set m PT page e = m\<lparr>pagusr_table := (pagusr_table m)(pt_index m PT page := e)\<rparr>"

definition row_addr :: "mm_state \<Rightarrow> nat \<Rightarrow> DWord" where
  "row_addr m j = pagusr_addr m + of_nat (4096 * j)"

subsection \<open>Initialisation\<close>

definition init_dir_pages :: "mm_state \<Rightarrow> mm_state" where
  "init_dir_pages m = fold (\<lambda>i m.
     m\<lparr>dir_pages := (dir_pages m)(i := (dir_pages m i)(0 :=
        set_pte_present 1 (set_pte_rw 1 (set_pte_user 1
          (set_pte_pbase_addr (drop_bit 12 (row_addr m i)) 0)))))\<rparr>) [0..<NR_TASKS] m"

definition init_table_body :: "nat \<Rightarrow> mm_state \<Rightarrow> mm_state" where
  "init_table_body j m =
     (let m = fold (\<lambda>i m. pt_set m (row_addr m j) i 0) [0..<TOTAL_PAGES] m
      in fold (\<lambda>i m. pt_set m (row_addr m j) i
           (set_pte_present 1 (set_pte_rw 1
              (set_pte_pbase_addr (of_nat i) (pt_get m (row_addr m j) i)))))
           [1..<NUM_PAG_KERNEL] m)"

definition init_table_pages :: "mm_state \<Rightarrow> mm_state" where
  "init_table_pages m = fold init_table_body [0..<NR_TASKS] m"

definition init_frames :: "mm_state \<Rightarrow> mm_state" where
  "init_frames m =
     (let m = fold (\<lambda>i m. m\<lparr>phys_mem := (phys_mem m)(i := 0)\<rparr>) [0..<TOTAL_PAGES] m
      in fold (\<lambda>i m. m\<lparr>phys_mem := (phys_mem m)(i := phys_mem m i + 1)\<rparr>) [0..<NUM_PAG_KERNEL] m)"

text \<open>The scan looks at every second frame (\<^verbatim>\<open>i += 2\<close>, ``holes'' by intention).\<close>

function alloc_from :: "nat \<Rightarrow> mm_state \<Rightarrow> int \<times> mm_state" where
  "alloc_from i m =
     (if i < TOTAL_PAGES then
        if phys_mem m i = 0
        then (int i, m\<lparr>phys_mem := (phys_mem m)(i := phys_mem m i + 1)\<rparr>)
        else alloc_from (i + 2) m
      else (-1, m))"
  by pat_completeness auto
termination
  by (relation "measure (\<lambda>(i, m). TOTAL_PAGES - i)") auto

declare alloc_from.simps [simp del]

definition alloc_frame :: "mm_state \<Rightarrow> int \<times> mm_state" where
  "alloc_frame m = alloc_from NUM_PAG_KERNEL m"

definition free_frame :: "DWord \<Rightarrow> mm_state \<Rightarrow> mm_state" where
  "free_frame f m =
     (if f > of_nat NUM_PAG_KERNEL \<and> f < of_nat TOTAL_PAGES
      then m\<lparr>phys_mem := (phys_mem m)(unat f := phys_mem m (unat f) - 1)\<rparr> else m)"

definition init_shared_pages :: "mm_state \<Rightarrow> mm_state" where
  "init_shared_pages m = fold (\<lambda>idx m.
     let (f, m) = alloc_frame m
     in m\<lparr>shared_pages := (shared_pages m)(idx := \<lparr>sh_frame = f, num_refs = 0, to_clear = 0\<rparr>)\<rparr>)
     [0..<NUM_SHARED_PAGES] m"

definition set_cr3 :: "nat option \<Rightarrow> mm_state \<Rightarrow> mm_state" where
  "set_cr3 dir m = m\<lparr>cr3 := dir\<rparr>"

definition set_pe_flag :: "mm_state \<Rightarrow> mm_state" where
  "set_pe_flag m = m\<lparr>cr0 := cr0 m OR 0x80000000\<rparr>"

subsection \<open>User pages\<close>

definition set_user_code_page :: "DWord \<Rightarrow> nat \<Rightarrow> mm_state \<Rightarrow> mm_state" where
  "set_user_code_page PT pag m =
     (let (f, m) = alloc_frame m
      in pt_set m PT (PAG_LOG_INIT_CODE + pag)
           (set_pte_present 1 (set_pte_user 1 (set_pte_pbase_addr (word_of_int f) 0))))"

definition set_user_data_page :: "DWord \<Rightarrow> nat \<Rightarrow> mm_state \<Rightarrow> mm_state" where
  "set_user_data_page PT pag m =
     (let (f, m) = alloc_frame m
      in pt_set m PT (PAG_LOG_INIT_DATA + pag)
           (set_pte_present 1 (set_pte_rw 1 (set_pte_user 1 (set_pte_pbase_addr (word_of_int f) 0)))))"

definition set_user_pages :: "DWord \<Rightarrow> mm_state \<Rightarrow> mm_state" where
  "set_user_pages process_PT m =
     fold (set_user_data_page process_PT) [0..<NUM_PAG_DATA]
       (fold (set_user_code_page process_PT) [0..<NUM_PAG_CODE] m)"

definition free_user_pages :: "DWord \<Rightarrow> mm_state \<Rightarrow> mm_state" where
  "free_user_pages process_PT m = fold (\<lambda>pag m.
     pt_set (free_frame (pte_pbase_addr (pt_get m process_PT (PAG_LOG_INIT_DATA + pag))) m)
       process_PT (PAG_LOG_INIT_DATA + pag) 0) [0..<NUM_PAG_DATA] m"

subsection \<open>Single entries\<close>

text \<open>The result 0 of \<^verbatim>\<open>is_frame_shared\<close> stands both for ``index 0'' and for ``not shared''.\<close>

definition is_frame_shared :: "mm_state \<Rightarrow> DWord \<Rightarrow> nat" where
  "is_frame_shared m f =
     (case List.find (\<lambda>idx. word_of_int (sh_frame (shared_pages m idx)) = f) [0..<NUM_SHARED_PAGES]
      of None \<Rightarrow> 0 | Some idx \<Rightarrow> idx)"

definition get_user_free_page :: "mm_state \<Rightarrow> DWord \<Rightarrow> int" where
  "get_user_free_page m process_PT =
     (case List.find (\<lambda>pag. pt_get m process_PT pag = 0) [USER_LAST_PAGE..<TOTAL_PAGES]
      of None \<Rightarrow> -1 | Some pag \<Rightarrow> int pag)"

definition is_logic_page_free :: "mm_state \<Rightarrow> DWord \<Rightarrow> nat \<Rightarrow> bool" where
  "is_logic_page_free m PT page \<longleftrightarrow> pt_get m PT page = 0"

definition set_ss_pag :: "DWord \<Rightarrow> nat \<Rightarrow> DWord \<Rightarrow> mm_state \<Rightarrow> mm_state" where
  "set_ss_pag PT page f m = pt_set m PT page
     (set_pte_present 1 (set_pte_rw 1 (set_pte_user 1 (set_pte_pbase_addr f 0))))"

definition del_ss_pag :: "DWord \<Rightarrow> nat \<Rightarrow> mm_state \<Rightarrow> mm_state" where
  "del_ss_pag PT logical_page m = pt_set m PT logical_page 0"

definition get_frame :: "mm_state \<Rightarrow> DWord \<Rightarrow> nat \<Rightarrow> DWord" where
  "get_frame m PT logical_page = pte_pbase_addr (pt_get m PT logical_page)"

definition is_cow_page :: "mm_state \<Rightarrow> DWord \<Rightarrow> nat \<Rightarrow> bool" where
  "is_cow_page m pte page \<longleftrightarrow> pt_get m pte page \<noteq> 0 \<and> pte_rw (pt_get m pte page) = 0"

subsection \<open>Address translation\<close>

text \<open>
  The two-level walk of the i386: directory entry \<open>va >> 22\<close>, table entry \<open>(va >> 12) & 0x3FF\<close>;
  an entry without the present bit faults. The kernel runs with \<^verbatim>\<open>CR0.WP\<close> clear, so its
  accesses ignore the \<^verbatim>\<open>rw\<close> and \<^verbatim>\<open>user\<close> bits.
\<close>

definition translate :: "mm_state \<Rightarrow> translation" where
  "translate m va =
     (case cr3 m of None \<Rightarrow> None
      | Some d \<Rightarrow>
          let pde = dir_pages m d (unat (drop_bit 22 va)) in
          if pte_present pde = 0 then None
          else
            let pte = pt_get m (push_bit 12 (pte_pbase_addr pde)) (unat (drop_bit 12 va AND 0x3FF)) in
            if pte_present pte = 0 then None
            else Some (push_bit 12 (pte_pbase_addr pte) OR (va AND 0xFFF)))"

subsection \<open>Specification side\<close>

definition pt_entry :: "mm_state \<Rightarrow> nat \<Rightarrow> nat \<Rightarrow> page_table_entry" where
  "pt_entry m t p = pagusr_table m (TOTAL_PAGES * t + p)"

definition dirs_ok :: "mm_state \<Rightarrow> bool" where
  "dirs_ok m \<longleftrightarrow> pagusr_addr m AND 0xFFF = 0 \<and> unat (pagusr_addr m) + 4096 * NR_TASKS \<le> 0x100000 \<and>
     (\<forall>t<NR_TASKS. dir_pages m t = (\<lambda>i. if i = 0 then mk_pte (drop_bit 12 (row_addr m t)) 7 else 0))"

definition layout_ok :: "mm_state \<Rightarrow> bool" where
  "layout_ok m \<longleftrightarrow> pagusr_addr m AND 0xFFF = 0 \<and> unat (pagusr_addr m) + 4096 * NR_TASKS \<le> 0x100000 \<and>
     (\<forall>t<NR_TASKS. \<forall>i>0. dir_pages m t i = 0)"

definition frame_addr :: "nat \<Rightarrow> nat \<Rightarrow> DWord" where
  "frame_addr f i = of_nat (4096 * f + i)"

subsection \<open>Rows of the table array\<close>

abbreviation rows_ok :: "mm_state \<Rightarrow> bool" where
  "rows_ok m \<equiv> unat (pagusr_addr m) + 4096 * NR_TASKS \<le> 0x100000"

lemma pt_index_row:
  assumes "t < NR_TASKS"
  shows "pt_index m (row_addr m t) p = TOTAL_PAGES * t + p"
proof -
  have "unat (of_nat (4096 * t) :: DWord) = 4096 * t"
    by (rule unat_of_nat_DWord) (use assms in simp)
  then show ?thesis by (simp add: pt_index_def row_addr_def del: of_nat_mult)
qed

lemma pt_get_row: "t < NR_TASKS \<Longrightarrow> pt_get m (row_addr m t) p = pt_entry m t p"
  by (simp add: pt_get_def pt_index_row pt_entry_def)

lemma row_addr_simps [simp]:
  "row_addr (m\<lparr>pagusr_table := x\<rparr>) t = row_addr m t" "row_addr (m\<lparr>phys_mem := p\<rparr>) t = row_addr m t"
  "row_addr (m\<lparr>shared_pages := s\<rparr>) t = row_addr m t" "row_addr (m\<lparr>ram := r\<rparr>) t = row_addr m t"
  "row_addr (m\<lparr>cr3 := c\<rparr>) t = row_addr m t" "row_addr (m\<lparr>dir_pages := d\<rparr>) t = row_addr m t"
  by (simp_all add: row_addr_def)

lemma pt_set_fields [simp]:
  "phys_mem (pt_set m PT p e) = phys_mem m" "shared_pages (pt_set m PT p e) = shared_pages m"
  "dir_pages (pt_set m PT p e) = dir_pages m" "pagusr_addr (pt_set m PT p e) = pagusr_addr m"
  "cr3 (pt_set m PT p e) = cr3 m" "cr0 (pt_set m PT p e) = cr0 m" "ram (pt_set m PT p e) = ram m"
  "row_addr (pt_set m PT p e) t = row_addr m t"
  by (simp_all add: pt_set_def row_addr_def)

lemma pt_entry_simps [simp]:
  "pt_entry (m\<lparr>phys_mem := p\<rparr>) t q = pt_entry m t q"
  "pt_entry (m\<lparr>shared_pages := s\<rparr>) t q = pt_entry m t q"
  "pt_entry (m\<lparr>ram := r\<rparr>) t q = pt_entry m t q"
  "pt_entry (m\<lparr>cr3 := c\<rparr>) t q = pt_entry m t q"
  "pt_entry (m\<lparr>dir_pages := d\<rparr>) t q = pt_entry m t q"
  by (simp_all add: pt_entry_def)

text \<open>Writing one entry of a row, inside the row, changes that entry only.\<close>

lemma pt_entry_pt_set:
  assumes "t < NR_TASKS" "p < TOTAL_PAGES" "p' < TOTAL_PAGES"
  shows "pt_entry (pt_set m (row_addr m t) p e) t' p' =
    (if t' = t \<and> p' = p then e else pt_entry m t' p')"
proof -
  have "(1024 * t' + p' = 1024 * t + p) = (t' = t \<and> p' = p)"
    by (rule row_offset_eq[OF assms(2,3)])
  then show ?thesis by (auto simp: pt_entry_def pt_set_def pt_index_row[OF assms(1)])
qed

lemma get_PT_row:
  assumes "dirs_ok m" "t < NR_TASKS"
  shows "push_bit 12 (pte_pbase_addr (dir_pages m t 0)) = row_addr m t"
proof -
  have al: "row_addr m t AND 0xFFF = 0"
  proof -
    have u: "unat (of_nat (4096 * t) :: DWord) = 4096 * t"
      by (rule unat_of_nat_DWord) (use assms in simp)
    have "unat (row_addr m t) = unat (pagusr_addr m) + 4096 * t"
      unfolding row_addr_def using assms u
      by (subst unat_word_ariths) (simp add: dirs_ok_def del: of_nat_mult)
    then show ?thesis using assms(1) by (simp add: aligned_unat dirs_ok_def)
  qed
  have "take_bit 20 (drop_bit 12 (row_addr m t)) = drop_bit 12 (row_addr m t)"
    by (rule bit_word_eqI) (auto simp: bit_simps dest: bit_imp_le_length)
  then have "push_bit 12 (pte_pbase_addr (dir_pages m t 0)) = push_bit 12 (drop_bit 12 (row_addr m t))"
    using assms by (simp add: dirs_ok_def pbase_mk_pte)
  then show ?thesis using push_drop_aligned[OF al] by simp
qed

subsection \<open>Translation\<close>

lemma translate_walk:
  assumes d: "dirs_ok m" and t: "t < NR_TASKS" and c: "cr3 m = Some t"
    and p: "p < TOTAL_PAGES" and i: "i < 4096"
  shows "translate m (of_nat (4096 * p + i)) =
    (if pte_present (pt_entry m t p) = 0 then None
     else Some (push_bit 12 (pte_pbase_addr (pt_entry m t p)) OR of_nat i))"
proof -
  let ?va = "of_nat (4096 * p + i) :: DWord"
  have p20: "p < 2 ^ 20" using p by simp
  have dv: "unat (drop_bit 22 ?va) = 0"
  proof -
    have "unat ?va = 4096 * p + i" by (rule unat_of_nat_DWord) (use p i in simp)
    then show ?thesis unfolding unat_drop_bit_eq using p i by (simp add: drop_bit_eq_div)
  qed
  have pg: "unat (drop_bit 12 ?va AND 0x3FF) = p"
  proof -
    have "(of_nat p :: DWord) AND 0x3FF = take_bit 10 (of_nat p)"
      by (simp add: take_bit_eq_mask mask_eq_exp_minus_1)
    then show ?thesis
      unfolding page_of_addr[OF p20 i] using p
      by (simp add: unsigned_take_bit_eq unat_of_nat_DWord take_bit_nat_eq_self)
  qed
  have "pte_present (dir_pages m t 0) \<noteq> 0" using d t by (simp add: dirs_ok_def)
  then show ?thesis
    unfolding translate_def c option.case Let_def dv get_PT_row[OF d t] pt_get_row[OF t] pg
      offset_of_addr[OF p20 i] by simp
qed

lemma translate_page:
  assumes "dirs_ok m" "t < NR_TASKS" "cr3 m = Some t" "p < TOTAL_PAGES" "i < 4096"
    and e: "pt_entry m t p = mk_pte (of_nat f) fl" "f < 2 ^ 20" "fl AND 1 = 1"
  shows "translate m (of_nat (4096 * p + i)) = Some (frame_addr f i)"
  unfolding translate_walk[OF assms(1-5)] e(1) frame_addr_def
  using e addr_of_page[OF e(2) assms(5)] by (simp add: pbase_mk_pte_of_nat)

lemma frame_addr_inj:
  assumes "f < 2 ^ 20" "g < 2 ^ 20" "i < 4096" "j < 4096"
  shows "frame_addr f i = frame_addr g j \<longleftrightarrow> f = g \<and> i = j"
proof -
  have "frame_addr f i = frame_addr g j \<longleftrightarrow> 4096 * f + i = 4096 * g + j"
    unfolding frame_addr_def by (rule of_nat_DWord_inj) (use assms in auto)
  then show ?thesis using row_offset_eq[OF assms(4,3)] by simp
qed

subsection \<open>Frames\<close>

definition mark_frame :: "nat \<Rightarrow> mm_state \<Rightarrow> mm_state" where
  "mark_frame f m = m\<lparr>phys_mem := (phys_mem m)(f := 1)\<rparr>"

lemma mark_frame_fields [simp]:
  "phys_mem (mark_frame f m) = (phys_mem m)(f := 1)" "shared_pages (mark_frame f m) = shared_pages m"
  "dir_pages (mark_frame f m) = dir_pages m" "pagusr_table (mark_frame f m) = pagusr_table m"
  "pagusr_addr (mark_frame f m) = pagusr_addr m" "cr3 (mark_frame f m) = cr3 m"
  "ram (mark_frame f m) = ram m" "pt_entry (mark_frame f m) t p = pt_entry m t p"
  "row_addr (mark_frame f m) t = row_addr m t" "cr0 (mark_frame f m) = cr0 m"
  by (simp_all add: mark_frame_def pt_entry_def row_addr_def)

text \<open>\<open>scan_used m i f\<close>: the scan that starts at \<open>i\<close> finds every frame before \<open>f\<close> in use.\<close>

definition scan_used :: "mm_state \<Rightarrow> nat \<Rightarrow> nat \<Rightarrow> bool" where
  "scan_used m i f \<longleftrightarrow> (\<forall>j. i \<le> j \<and> j < f \<and> even (j + i) \<longrightarrow> phys_mem m j \<noteq> 0)"

lemma scan_used_step: "phys_mem m i \<noteq> 0 \<Longrightarrow> scan_used m (i + 2) f \<Longrightarrow> scan_used m i f"
  unfolding scan_used_def
proof (intro allI impI)
  fix j assume u: "phys_mem m i \<noteq> 0"
    "\<forall>j. i + 2 \<le> j \<and> j < f \<and> even (j + (i + 2)) \<longrightarrow> phys_mem m j \<noteq> 0"
    and j: "i \<le> j \<and> j < f \<and> even (j + i)"
  have "j = i \<or> i + 2 \<le> j" using j by (cases "j = i + 1") auto
  then show "phys_mem m j \<noteq> 0" using u j by auto
qed

lemma alloc_from_result:
  "(\<exists>f. alloc_from i m = (int f, mark_frame f m) \<and> i \<le> f \<and>
      f < TOTAL_PAGES \<and> even (f + i) \<and> phys_mem m f = 0 \<and> scan_used m i f) \<or>
   alloc_from i m = (-1, m) \<and> scan_used m i TOTAL_PAGES"
proof (induction i m rule: alloc_from.induct)
  case (1 i m)
  show ?case
  proof (cases "i < TOTAL_PAGES \<and> phys_mem m i \<noteq> 0")
    case True
    then have u: "alloc_from i m = alloc_from (i + 2) m" by (simp add: alloc_from.simps[of i])
    from "1.IH" True consider
      f where "alloc_from (i + 2) m = (int f, mark_frame f m)" "i + 2 \<le> f"
        "f < TOTAL_PAGES" "even (f + (i + 2))" "phys_mem m f = 0" "scan_used m (i + 2) f"
      | "alloc_from (i + 2) m = (-1, m)" "scan_used m (i + 2) TOTAL_PAGES"
      by auto
    then show ?thesis
      unfolding u using scan_used_step True by cases auto
  next
    case False
    then show ?thesis
      by (cases "i < TOTAL_PAGES") (auto simp: alloc_from.simps[of i] scan_used_def mark_frame_def)
  qed
qed

text \<open>\<^verbatim>\<open>alloc_frame\<close>: the lowest free even frame of the user area, or -1 when all are used.\<close>

lemma alloc_frame_cases:
  obtains (found) f where "alloc_frame m = (int f, mark_frame f m)"
      "256 \<le> f" "f < 1024" "even f" "phys_mem m f = 0"
      "\<And>j. 256 \<le> j \<Longrightarrow> j < f \<Longrightarrow> even j \<Longrightarrow> phys_mem m j \<noteq> 0"
  | (none) "alloc_frame m = (-1, m)"
      "\<And>j. 256 \<le> j \<Longrightarrow> j < 1024 \<Longrightarrow> even j \<Longrightarrow> phys_mem m j \<noteq> 0"
  using alloc_from_result[of 256 m] unfolding alloc_frame_def scan_used_def by auto

lemma alloc_frame_lowest:
  assumes "phys_mem m f = 0" "256 \<le> f" "f < 1024" "even f"
    and "\<And>j. 256 \<le> j \<Longrightarrow> j < f \<Longrightarrow> even j \<Longrightarrow> phys_mem m j \<noteq> 0"
  shows "alloc_frame m = (int f, mark_frame f m)"
proof (cases rule: alloc_frame_cases[of m])
  case (found g)
  have "g = f"
    using found assms by (metis linorder_neqE_nat)
  then show ?thesis using found by simp
next
  case none
  then show ?thesis using assms by auto
qed

text \<open>Freeing the frame just allocated restores the byte map (frame 256 is never freed).\<close>

lemma free_after_alloc:
  assumes "alloc_frame m = (int f, m')" "f \<noteq> 256"
  shows "free_frame (of_nat f) m' = m"
proof (cases rule: alloc_frame_cases[of m])
  case (found g)
  then have g: "g = f" "m' = mark_frame f m" using assms(1) by auto
  have "(of_nat f :: DWord) > 256" "(of_nat f :: DWord) < 1024" "unat (of_nat f :: DWord) = f"
    using found g assms(2) by (simp_all add: word_less_nat_alt unat_of_nat_DWord)
  then show ?thesis
    using g found(5) by (simp add: free_frame_def mark_frame_def fun_upd_idem)
qed (use assms in simp)

subsection \<open>What a change of page tables leaves alone\<close>

definition tables_only :: "mm_state \<Rightarrow> mm_state \<Rightarrow> bool" where
  "tables_only m m' \<longleftrightarrow> m' = m\<lparr>pagusr_table := pagusr_table m'\<rparr>"

lemma tables_only_refl [simp]: "tables_only m m"
  by (simp add: tables_only_def)

lemma tables_only_trans: "tables_only m m1 \<Longrightarrow> tables_only m1 m2 \<Longrightarrow> tables_only m m2"
  unfolding tables_only_def by (metis mm_state.surjective mm_state.update_convs(4))

lemma tables_only_pt_set [simp]: "tables_only m (pt_set m PT p e)"
  by (simp add: tables_only_def pt_set_def)

lemma tables_only_fields:
  assumes "tables_only m m'"
  shows "phys_mem m' = phys_mem m" "shared_pages m' = shared_pages m" "dir_pages m' = dir_pages m"
    "pagusr_addr m' = pagusr_addr m" "cr3 m' = cr3 m" "cr0 m' = cr0 m" "ram m' = ram m"
    "row_addr m' t = row_addr m t" "dirs_ok m' = dirs_ok m"
proof -
  obtain x where m': "m' = m\<lparr>pagusr_table := x\<rparr>" using assms unfolding tables_only_def by blast
  show "phys_mem m' = phys_mem m" "shared_pages m' = shared_pages m" "dir_pages m' = dir_pages m"
      "pagusr_addr m' = pagusr_addr m" "cr3 m' = cr3 m" "cr0 m' = cr0 m" "ram m' = ram m"
      "row_addr m' t = row_addr m t" "dirs_ok m' = dirs_ok m"
    unfolding m' by (simp_all add: dirs_ok_def row_addr_def cong: if_cong)
qed

text \<open>A loop over some entries of one row.\<close>

lemma fold_pt_row:
  fixes g :: "nat \<Rightarrow> page_table_entry \<Rightarrow> page_table_entry"
  assumes "j < NR_TASKS" "distinct ps" "set ps \<subseteq> {..<TOTAL_PAGES}" "p < TOTAL_PAGES"
  defines "F \<equiv> (\<lambda>i m. pt_set m (row_addr m j) i (g i (pt_get m (row_addr m j) i)))"
  shows "tables_only m (fold F ps m)"
    and "pt_entry (fold F ps m) t p =
      (if t = j \<and> p \<in> set ps then g p (pt_entry m j p) else pt_entry m t p)"
proof -
  have "tables_only m (fold F ps m) \<and> pt_entry (fold F ps m) t p =
      (if t = j \<and> p \<in> set ps then g p (pt_entry m j p) else pt_entry m t p)"
    using assms(2,3)
  proof (induction ps arbitrary: m)
    case Nil
    then show ?case by simp
  next
    case (Cons a ps)
    have a: "a < TOTAL_PAGES" using Cons.prems by simp
    have IH: "tables_only (F a m) (fold F ps (F a m)) \<and> pt_entry (fold F ps (F a m)) t p =
        (if t = j \<and> p \<in> set ps then g p (pt_entry (F a m) j p) else pt_entry (F a m) t p)"
      using Cons by simp
    have e: "pt_entry (F a m) t' p = (if t' = j \<and> p = a then g a (pt_entry m j a) else pt_entry m t' p)"
      for t'
      unfolding F_def using pt_entry_pt_set[OF assms(1) a assms(4)] pt_get_row[OF assms(1)] by simp
    have "tables_only m (F a m)" unfolding F_def by simp
    then show ?case using IH e Cons.prems tables_only_trans by (auto split: if_splits)
  qed
  then show "tables_only m (fold F ps m)"
    "pt_entry (fold F ps m) t p =
      (if t = j \<and> p \<in> set ps then g p (pt_entry m j p) else pt_entry m t p)" by blast+
qed

subsection \<open>After initialisation\<close>

definition kernel_entry_of :: "nat \<Rightarrow> page_table_entry" where
  "kernel_entry_of p = (if 1 \<le> p \<and> p < NUM_PAG_KERNEL then mk_pte (of_nat p) 3 else 0)"

lemma init_table_row:
  assumes "j < NR_TASKS" "p < TOTAL_PAGES"
  shows "tables_only m (init_table_body j m)"
    and "pt_entry (init_table_body j m) t p = (if t = j then kernel_entry_of p else pt_entry m t p)"
proof -
  let ?m = "fold (\<lambda>i m. pt_set m (row_addr m j) i 0) [0..<TOTAL_PAGES] m"
  have r: "set [0..<1024] \<subseteq> {..<1024::nat}" "set [1..<256] \<subseteq> {..<1024::nat}" by auto
  have z: "tables_only m ?m" "pt_entry ?m t' p = (if t' = j then 0 else pt_entry m t' p)" for t'
    using fold_pt_row[OF assms(1) distinct_upt r(1) assms(2), where g = "\<lambda>i e. 0" and m = m] assms(2) by auto
  note s = fold_pt_row[OF assms(1) distinct_upt r(2) assms(2), where g = "\<lambda>i e. set_pte_present 1 (set_pte_rw 1 (set_pte_pbase_addr (of_nat i) e))" and m = ?m]
  show "tables_only m (init_table_body j m)"
    unfolding init_table_body_def Let_def using s(1) tables_only_trans[OF z(1)] by auto
  show "pt_entry (init_table_body j m) t p = (if t = j then kernel_entry_of p else pt_entry m t p)"
    unfolding init_table_body_def Let_def using s(2) z(2) assms(2)
    by (auto simp: kernel_entry_of_def set_flags_mk_pte)
qed

lemma init_table_pages_result:
  assumes "p < TOTAL_PAGES"
  shows "tables_only m (init_table_pages m)"
    and "t < NR_TASKS \<Longrightarrow> pt_entry (init_table_pages m) t p = kernel_entry_of p"
proof -
  have "tables_only m (fold init_table_body [0..<n] m) \<and>
     (\<forall>t<n. pt_entry (fold init_table_body [0..<n] m) t p = kernel_entry_of p)"
    if "n \<le> NR_TASKS" for n
    using that
  proof (induction n)
    case (Suc n)
    then show ?case
      using init_table_row[of n p] assms tables_only_trans by (auto simp: less_Suc_eq)
  qed simp
  from this[of NR_TASKS] show "tables_only m (init_table_pages m)"
    "t < NR_TASKS \<Longrightarrow> pt_entry (init_table_pages m) t p = kernel_entry_of p"
    unfolding init_table_pages_def by auto
qed

lemma init_frames_result:
  "init_frames m = m\<lparr>phys_mem := phys_mem (init_frames m)\<rparr>"
  "i < TOTAL_PAGES \<Longrightarrow> phys_mem (init_frames m) i = (if i < NUM_PAG_KERNEL then 1 else 0)"
proof -
  have z: "fold (\<lambda>i m. m\<lparr>phys_mem := (phys_mem m)(i := 0)\<rparr>) xs m =
      m\<lparr>phys_mem := \<lambda>i. if i \<in> set xs then 0 else phys_mem m i\<rparr>" for xs and m :: mm_state
    by (induction xs arbitrary: m) (auto simp: fun_eq_iff)
  have u: "distinct xs \<Longrightarrow> fold (\<lambda>i m. m\<lparr>phys_mem := (phys_mem m)(i := phys_mem m i + 1)\<rparr>) xs m =
      m\<lparr>phys_mem := \<lambda>i. if i \<in> set xs then phys_mem m i + 1 else phys_mem m i\<rparr>"
    for xs and m :: mm_state
    by (induction xs arbitrary: m) (auto simp: fun_eq_iff)
  show "init_frames m = m\<lparr>phys_mem := phys_mem (init_frames m)\<rparr>"
    "i < TOTAL_PAGES \<Longrightarrow> phys_mem (init_frames m) i = (if i < NUM_PAG_KERNEL then 1 else 0)"
    unfolding init_frames_def z u[OF distinct_upt] Let_def by auto
qed

lemma init_dir_pages_result:
  assumes "layout_ok m"
  shows "dirs_ok (init_dir_pages m)"
    and "init_dir_pages m = m\<lparr>dir_pages := dir_pages (init_dir_pages m)\<rparr>"
proof -
  have f: "fold (\<lambda>i m. m\<lparr>dir_pages := (dir_pages m)(i := (dir_pages m i)(0 :=
        set_pte_present 1 (set_pte_rw 1 (set_pte_user 1
          (set_pte_pbase_addr (drop_bit 12 (row_addr m i)) 0)))))\<rparr>) xs m =
     m\<lparr>dir_pages := \<lambda>i. if i \<in> set xs
        then (dir_pages m i)(0 := mk_pte (drop_bit 12 (row_addr m i)) 7) else dir_pages m i\<rparr>"
    for xs and m :: mm_state
    by (induction xs arbitrary: m) (auto simp: fun_eq_iff set_flags_mk_pte)
  show "dirs_ok (init_dir_pages m)"
    using assms unfolding init_dir_pages_def f dirs_ok_def layout_ok_def
    by (auto simp: fun_eq_iff)
  show "init_dir_pages m = m\<lparr>dir_pages := dir_pages (init_dir_pages m)\<rparr>"
    unfolding init_dir_pages_def f by simp
qed

text \<open>The shared pages take the frames 256, 258, \<dots>, 274 of the fresh byte map.\<close>

definition shared_frame :: "nat \<Rightarrow> nat" where
  "shared_frame idx = 256 + 2 * idx"

lemma init_shared_pages_result:
  assumes "\<And>f. 256 \<le> f \<Longrightarrow> f < 1024 \<Longrightarrow> phys_mem m f = 0"
  shows "init_shared_pages m = m\<lparr>
    phys_mem := \<lambda>f. if 256 \<le> f \<and> f < 276 \<and> even f then 1 else phys_mem m f,
    shared_pages := \<lambda>i. if i < 10 then \<lparr>sh_frame = int (shared_frame i), num_refs = 0, to_clear = 0\<rparr>
      else shared_pages m i\<rparr>"
proof -
  let ?F = "\<lambda>idx m. let (f, m) = alloc_frame m
     in m\<lparr>shared_pages := (shared_pages m)(idx := \<lparr>sh_frame = f, num_refs = 0, to_clear = 0\<rparr>)\<rparr>"
  let ?R = "\<lambda>n. m\<lparr>
    phys_mem := \<lambda>f. if 256 \<le> f \<and> f < 256 + 2 * n \<and> even f then 1 else phys_mem m f,
    shared_pages := \<lambda>i. if i < n then \<lparr>sh_frame = int (shared_frame i), num_refs = 0, to_clear = 0\<rparr>
      else shared_pages m i\<rparr>"
  have "fold ?F [0..<n] m = ?R n" if "n \<le> 10" for n
    using that
  proof (induction n)
    case 0
    have "?R 0 = m" by (intro mm_state.equality) (auto simp: fun_eq_iff)
    then show ?case by simp
  next
    case (Suc n)
    have "alloc_frame (?R n) = (int (shared_frame n), mark_frame (shared_frame n) (?R n))"
      using Suc.prems by (intro alloc_frame_lowest) (auto simp: assms shared_frame_def)
    then have step: "?F n (?R n) = (mark_frame (shared_frame n) (?R n))\<lparr>shared_pages :=
        (shared_pages (?R n))(n := \<lparr>sh_frame = int (shared_frame n), num_refs = 0, to_clear = 0\<rparr>)\<rparr>"
      by simp
    have "(256 \<le> f \<and> f < 256 + 2 * Suc n \<and> even f) =
        ((256 \<le> f \<and> f < 256 + 2 * n \<and> even f) \<or> f = shared_frame n)" for f
      unfolding shared_frame_def by presburger
    then have pm: "phys_mem (?F n (?R n)) = phys_mem (?R (Suc n))"
      unfolding step by (auto simp: fun_eq_iff)
    have sp: "shared_pages (?F n (?R n)) = shared_pages (?R (Suc n))"
      unfolding step by (auto simp: fun_eq_iff)
    have "?F n (?R n) = ?R (Suc n)"
      by (rule mm_state.equality[OF pm sp]) (unfold step, simp_all)
    moreover have "fold ?F [0..<n] m = ?R n" by (rule Suc.IH) (use Suc.prems in simp)
    then have "fold ?F [0..<Suc n] m = ?F n (?R n)"
      by (simp only: upt_Suc_append[OF le0] fold_append fold.simps comp_def id_apply)
    ultimately show ?case by (rule trans[rotated])
  qed
  from this[of 10] show ?thesis by (simp add: init_shared_pages_def)
qed

subsection \<open>Single pages and the translation\<close>

lemma ss_pag_frame [simp]:
  "tables_only m (set_ss_pag PT p f m)" "tables_only m (del_ss_pag PT p m)"
  by (simp_all add: set_ss_pag_def del_ss_pag_def)

lemma pt_entry_ss_pag:
  assumes "t < NR_TASKS" "p < TOTAL_PAGES" "q < TOTAL_PAGES"
  shows "pt_entry (set_ss_pag (row_addr m t) p f m) t' q =
      (if t' = t \<and> q = p then mk_pte f 7 else pt_entry m t' q)"
    and "pt_entry (del_ss_pag (row_addr m t) p m) t' q =
      (if t' = t \<and> q = p then 0 else pt_entry m t' q)"
  unfolding set_ss_pag_def del_ss_pag_def set_flags_mk_pte
  using pt_entry_pt_set[OF assms] by simp_all

lemma get_frame_set_ss_pag:
  assumes "t < NR_TASKS" "p < TOTAL_PAGES" "f < 2 ^ 20"
  shows "get_frame (set_ss_pag (row_addr m t) p (of_nat f) m) (row_addr m t) p = of_nat f"
proof -
  have r: "row_addr m t = row_addr (set_ss_pag (row_addr m t) p (of_nat f) m) t"
    by (simp add: set_ss_pag_def)
  show ?thesis
    unfolding get_frame_def by (subst (2) r)
      (simp add: pt_get_row[OF assms(1)] pt_entry_ss_pag[OF assms(1,2,2)] pbase_mk_pte_of_nat[OF assms(3)])
qed

lemma translate_entry_cong:
  assumes "dirs_ok m" "tables_only m m'" "t < NR_TASKS" "cr3 m = Some t" "q < TOTAL_PAGES" "i < 4096"
    and "pt_entry m' t q = pt_entry m t q"
  shows "translate m' (of_nat (4096 * q + i)) = translate m (of_nat (4096 * q + i))"
proof -
  have s: "dirs_ok m'" "cr3 m' = Some t" using tables_only_fields[OF assms(2)] assms(1,4) by auto
  show ?thesis
    unfolding translate_walk[OF s(1) assms(3) s(2) assms(5,6)] translate_walk[OF assms(1,3,4,5,6)]
    using assms(7) by simp
qed

lemma set_ss_pag_translate:
  assumes "dirs_ok m" "t < NR_TASKS" "cr3 m = Some t" "p < TOTAL_PAGES" "f < 2 ^ 20"
    "q < TOTAL_PAGES" "i < 4096"
  shows "translate (set_ss_pag (row_addr m t) p (of_nat f) m) (of_nat (4096 * q + i)) =
      (if q = p then Some (frame_addr f i) else translate m (of_nat (4096 * q + i)))"
proof -
  let ?m = "set_ss_pag (row_addr m t) p (of_nat f) m"
  have s: "dirs_ok ?m" "cr3 ?m = Some t"
    using tables_only_fields[of m ?m] assms(1,3) by auto
  show ?thesis
  proof (cases "q = p")
    case True
    then show ?thesis
      using translate_page[OF s(1) assms(2) s(2) assms(6,7), of f 7] pt_entry_ss_pag[OF assms(2,4,6)] assms(5)
      by simp
  next
    case False
    then show ?thesis
      using translate_entry_cong[OF assms(1) ss_pag_frame(1) assms(2,3,6,7)] pt_entry_ss_pag[OF assms(2,4,6)]
      by simp
  qed
qed

lemma del_ss_pag_translate:
  assumes "dirs_ok m" "t < NR_TASKS" "cr3 m = Some t" "p < TOTAL_PAGES" "q < TOTAL_PAGES" "i < 4096"
  shows "translate (del_ss_pag (row_addr m t) p m) (of_nat (4096 * q + i)) =
      (if q = p then None else translate m (of_nat (4096 * q + i)))"
proof -
  let ?m = "del_ss_pag (row_addr m t) p m"
  have s: "dirs_ok ?m" "cr3 ?m = Some t"
    using tables_only_fields[of m ?m] assms(1,3) by auto
  show ?thesis
  proof (cases "q = p")
    case True
    then show ?thesis
      using translate_walk[OF s(1) assms(2) s(2) assms(5,6)] pt_entry_ss_pag(2)[OF assms(2,4,5)]
      by (simp add: pte_present_def)
  next
    case False
    then show ?thesis
      using translate_entry_cong[OF assms(1) ss_pag_frame(2) assms(2,3,5,6)] pt_entry_ss_pag(2)[OF assms(2,4,5)]
      by simp
  qed
qed

subsection \<open>Properties\<close>

text \<open>C34: \<^verbatim>\<open>alloc_frame\<close> returns the lowest free frame of the user area that its scan visits (every
  second frame) and marks exactly that frame; it returns -1 and changes nothing only when every
  visited frame is in use.\<close>

theorem alloc_frame_first_fit:
  "(\<exists>f. alloc_frame m = (int f, m\<lparr>phys_mem := (phys_mem m)(f := 1)\<rparr>) \<and>
      256 \<le> f \<and> f < 1024 \<and> even f \<and> phys_mem m f = 0 \<and>
      (\<forall>j. 256 \<le> j \<and> j < f \<and> even j \<longrightarrow> phys_mem m j \<noteq> 0)) \<or>
   (alloc_frame m = (-1, m) \<and> (\<forall>j. 256 \<le> j \<and> j < 1024 \<and> even j \<longrightarrow> phys_mem m j \<noteq> 0))"
  by (cases rule: alloc_frame_cases[of m]) (auto simp: mark_frame_def)

theorem alloc_frame_first_fit_witness:
  "fst (alloc_frame \<lparr>phys_mem = (\<lambda>i. if i < 258 then 1 else 0), shared_pages = undefined,
     dir_pages = undefined, pagusr_table = undefined, pagusr_addr = 0, cr3 = None, cr0 = 0,
     ram = undefined\<rparr>) = 258"
proof -
  let ?m = "\<lparr>phys_mem = (\<lambda>i. if i < 258 then 1 else 0), shared_pages = undefined,
     dir_pages = undefined, pagusr_table = undefined, pagusr_addr = 0, cr3 = None, cr0 = 0,
     ram = undefined\<rparr> :: mm_state"
  have n: "\<not> (\<forall>j. 256 \<le> j \<and> j < 1024 \<and> even j \<longrightarrow> phys_mem ?m j \<noteq> 0)"
    by (auto intro!: exI[of _ 258])
  then obtain f where f: "alloc_frame ?m = (int f, ?m\<lparr>phys_mem := (phys_mem ?m)(f := 1)\<rparr>)"
      "phys_mem ?m f = 0" "\<forall>j. 256 \<le> j \<and> j < f \<and> even j \<longrightarrow> phys_mem ?m j \<noteq> 0"
    using alloc_frame_first_fit[of ?m] by blast
  have "f = 258"
    using f(2) f(3)[rule_format, of 258] by (cases "f < 258"; cases "258 < f") auto
  then show ?thesis using f(1) by simp
qed

text \<open>C35: \<^verbatim>\<open>free_frame\<close> undoes \<^verbatim>\<open>alloc_frame\<close> for every frame but 256: the lower bound of
  \<^verbatim>\<open>free_frame\<close> is strict, so the first user frame, once allocated, is never given back.\<close>

theorem free_undoes_alloc:
  assumes "alloc_frame m = (int f, m')"
  shows "free_frame (of_nat f) m' = (if f = 256 then m' else m)"
  using free_after_alloc[OF assms] by (simp add: free_frame_def)

theorem free_undoes_alloc_witness:
  "\<exists>m f m'. alloc_frame m = (int f, m') \<and> f = 258 \<and> free_frame (of_nat f) m' = m"
proof -
  let ?m = "\<lparr>phys_mem = (\<lambda>i. if i < 258 then 1 else 0), shared_pages = undefined,
     dir_pages = undefined, pagusr_table = undefined, pagusr_addr = 0, cr3 = None, cr0 = 0,
     ram = undefined\<rparr> :: mm_state"
  have "alloc_frame ?m = (int 258, mark_frame 258 ?m)" by (rule alloc_frame_lowest) auto
  from free_undoes_alloc[OF this] this show ?thesis
    by (intro exI[of _ ?m] exI[of _ 258] exI[of _ "mark_frame 258 ?m"]) simp
qed

text \<open>Installing a frame with \<^verbatim>\<open>set_ss_pag\<close> in the table of the active process maps the page,
  byte by byte, onto that frame and no other page of the address space; \<^verbatim>\<open>get_frame\<close> reads the
  frame back, and \<^verbatim>\<open>del_ss_pag\<close> makes the page fault again.\<close>

lemma set_ss_pag_maps:
  assumes "dirs_ok m" "t < 10" "cr3 m = Some t" "p < 1024" "f < 2 ^ 20" "q < 1024" "i < 4096"
  shows "let m1 = set_ss_pag (row_addr m t) p (of_nat f) m; m2 = del_ss_pag (row_addr m t) p m1 in
    translate m1 (of_nat (4096 * q + i)) =
      (if q = p then Some (frame_addr f i) else translate m (of_nat (4096 * q + i))) \<and>
    get_frame m1 (row_addr m t) p = of_nat f \<and>
    translate m2 (of_nat (4096 * q + i)) =
      (if q = p then None else translate m (of_nat (4096 * q + i)))"
proof -
  let ?m = "set_ss_pag (row_addr m t) p (of_nat f) m"
  have s: "dirs_ok ?m" "cr3 ?m = Some t" "row_addr ?m t = row_addr m t"
    using tables_only_fields[of m ?m] assms(1,3) by auto
  show ?thesis
    using set_ss_pag_translate[OF assms] get_frame_set_ss_pag[OF assms(2,4,5), of m]
      del_ss_pag_translate[OF s(1) assms(2) s(2) assms(4,6,7)] s(3) by (auto simp: Let_def)
qed

end
