(* ===== verification/Zeos_Io.thy ===== *)
theory Zeos_Io
  imports Zeos_Types
begin

text \<open>
  The console of \<^verbatim>\<open>io.c\<close>, \<^verbatim>\<open>devices.c\<close> and \<^verbatim>\<open>include/colors.h\<close>: the cursor, the
  colours, the 80 by 25 words of video memory at \<^verbatim>\<open>0xb8000\<close> and the bytes sent to the emulator's
  debug port \<^verbatim>\<open>0xe9\<close>.
\<close>

abbreviation (input) SCREEN_ROWS :: nat where "SCREEN_ROWS \<equiv> 25"
abbreviation (input) SCREEN_COLUMNS :: nat where "SCREEN_COLUMNS \<equiv> 80"
abbreviation (input) BLACK :: int where "BLACK \<equiv> 0"
abbreviation (input) MAGENTA :: int where "MAGENTA \<equiv> 5"
abbreviation (input) WHITE :: int where "WHITE \<equiv> 15"

record screen_state =
  x_screen :: Byte
  y_screen :: Byte
  fg_color :: Byte
  bg_color :: Byte
  screen :: "nat \<Rightarrow> Word16"
  debug_port :: "Byte list"

text \<open>The values the four globals start with.\<close>

definition screen_init :: "screen_state \<Rightarrow> screen_state" where
  "screen_init io = io\<lparr>x_screen := 0, y_screen := 19, fg_color := 5, bg_color := 0\<rparr>"

text \<open>The word stored for a character: attribute byte above, character below.\<close>

definition cell :: "Byte \<Rightarrow> Byte \<Rightarrow> Byte \<Rightarrow> Word16" where
  "cell fg bg c = ucast c OR push_bit 12 (ucast bg) OR push_bit 8 (ucast fg)"

definition next_row :: "Byte \<Rightarrow> Byte" where
  "next_row y = of_nat ((unat y + 1) mod SCREEN_ROWS)"

definition printc :: "Byte \<Rightarrow> screen_state \<Rightarrow> screen_state" where
  "printc c io =
     (let io = io\<lparr>debug_port := debug_port io @ [c]\<rparr> in
      if c = 10 then io\<lparr>x_screen := 0, y_screen := next_row (y_screen io)\<rparr>
      else
        let ch = cell (fg_color io) (bg_color io) c;
            io = io\<lparr>screen := (screen io)
                     (unat (y_screen io) * SCREEN_COLUMNS + unat (x_screen io) := ch)\<rparr>;
            io = io\<lparr>x_screen := x_screen io + 1\<rparr>
        in if unat (x_screen io) \<ge> SCREEN_COLUMNS
           then io\<lparr>x_screen := 0, y_screen := next_row (y_screen io)\<rparr>
           else io)"

definition printc_xy :: "Byte \<Rightarrow> Byte \<Rightarrow> Byte \<Rightarrow> screen_state \<Rightarrow> screen_state" where
  "printc_xy mx my c io =
     (let cx = x_screen io; cy = y_screen io;
          io = printc c (io\<lparr>x_screen := mx, y_screen := my\<rparr>)
      in io\<lparr>x_screen := cx, y_screen := cy\<rparr>)"

text \<open>A C string is given by its bytes; the loop stops at the first 0.\<close>

fun printk :: "Byte list \<Rightarrow> screen_state \<Rightarrow> screen_state" where
  "printk [] io = io"
| "printk (c # cs) io = (if c = 0 then io else printk cs (printc c io))"

text \<open>\<open>buffer i\<close> is the \<open>i\<close>-th character of the buffer.\<close>

definition sys_write_console :: "(nat \<Rightarrow> Byte) \<Rightarrow> int \<Rightarrow> screen_state \<Rightarrow> int \<times> screen_state" where
  "sys_write_console buffer sz io = (sz, fold (\<lambda>i. printc (buffer i)) [0..<nat sz] io)"

subsection \<open>Specification side\<close>

definition cursor_ok :: "screen_state \<Rightarrow> bool" where
  "cursor_ok io \<longleftrightarrow> unat (x_screen io) < SCREEN_COLUMNS \<and> unat (y_screen io) < SCREEN_ROWS"

definition cursor :: "screen_state \<Rightarrow> nat" where
  "cursor io = unat (y_screen io) * SCREEN_COLUMNS + unat (x_screen io)"

text \<open>The cell a run of characters without a newline fills, on a screen that wraps around.\<close>

definition console_text :: "Byte list \<Rightarrow> screen_state \<Rightarrow> nat \<Rightarrow> Word16" where
  "console_text cs io k =
     (let off = (k + 2000 - cursor io) mod 2000 in
      if k < 2000 \<and> off < length cs
      then cell (fg_color io) (bg_color io) (cs ! off)
      else screen io k)"

subsection \<open>Lemmas\<close>

lemma next_row_unat: "unat (next_row y) = (unat y + 1) mod 25"
  by (simp add: next_row_def unat_of_nat take_bit_nat_eq_self)

lemma unat_succ_80: "unat (x::Byte) < 80 \<Longrightarrow> unat (x + 1) = unat x + 1"
  by (subst unat_word_ariths) simp

lemma printc_cursor_ok: "cursor_ok io \<Longrightarrow> cursor_ok (printc c io)"
  by (auto simp: printc_def Let_def cursor_ok_def next_row_unat unat_succ_80)

lemma cursor_less: "cursor_ok io \<Longrightarrow> cursor io < 2000"
  by (auto simp: cursor_ok_def cursor_def)

lemma printc_char:
  assumes ok: "cursor_ok io" and c: "c \<noteq> 10"
  shows "cursor (printc c io) = (cursor io + 1) mod 2000"
    and "screen (printc c io) = (screen io)(cursor io := cell (fg_color io) (bg_color io) c)"
    and "fg_color (printc c io) = fg_color io" "bg_color (printc c io) = bg_color io"
    and "debug_port (printc c io) = debug_port io @ [c]"
proof -
  let ?x = "unat (x_screen io)" and ?y = "unat (y_screen io)"
  have b: "?x < 80" "?y < 25" using ok by (auto simp: cursor_ok_def)
  show "cursor (printc c io) = (cursor io + 1) mod 2000"
  proof (cases "?x = 79")
    case True
    then have "cursor (printc c io) = ((?y + 1) mod 25) * 80"
      using c b by (simp add: printc_def Let_def cursor_def next_row_unat unat_succ_80)
    also have "\<dots> = (?y * 80 + ?x + 1) mod 2000"
      using True b by (cases "?y = 24") auto
    finally show ?thesis by (simp add: cursor_def)
  next
    case False
    then have "cursor (printc c io) = ?y * 80 + ?x + 1"
      using c b by (simp add: printc_def Let_def cursor_def unat_succ_80)
    then show ?thesis using b False by (simp add: cursor_def)
  qed
qed (use c in \<open>auto simp: printc_def Let_def cursor_def\<close>)

lemma fold_printc_cursor_ok: "cursor_ok io \<Longrightarrow> cursor_ok (fold printc cs io)"
  by (induction cs arbitrary: io) (auto simp: printc_cursor_ok)

lemma debug_port_printc [simp]: "debug_port (printc c io) = debug_port io @ [c]"
  by (simp add: printc_def Let_def)

lemma debug_port_fold_printc [simp]: "debug_port (fold printc cs io) = debug_port io @ cs"
  by (induction cs arbitrary: io) auto

lemma wrap_offset:
  assumes "p < 2000" "k < (2000::nat)"
  shows "(k + 2000 - p) mod 2000 = (if p \<le> k then k - p else k + 2000 - p)"
proof (cases "p \<le> k")
  case True
  then have e: "k + 2000 - p = (k - p) + 2000" by simp
  have "(k + 2000 - p) mod 2000 = (k - p) mod 2000" unfolding e by (rule mod_add_self2)
  then show ?thesis using True assms by simp
qed (use assms in simp)

lemma console_text_step:
  assumes ok: "cursor_ok io" and c: "c \<noteq> 10" and l: "length cs < 2000"
  shows "console_text cs (printc c io) k = console_text (c # cs) io k"
proof (cases "k < 2000")
  case False
  then show ?thesis
    using cursor_less[OF ok] printc_char(2)[OF ok c] by (auto simp: console_text_def Let_def)
next
  case True
  note p = cursor_less[OF ok]
  have off: "(k + 2000 - cursor (printc c io)) mod 2000 =
      (if k = cursor io then 1999 else (k + 2000 - cursor io) mod 2000 - 1)"
    unfolding printc_char(1)[OF ok c]
    using wrap_offset[OF p True] wrap_offset[of "(cursor io + 1) mod 2000" k] True p
    by (cases "cursor io = 1999") auto
  have pos: "k \<noteq> cursor io \<Longrightarrow> (k + 2000 - cursor io) mod 2000 > 0"
    using wrap_offset[OF p True] p by auto
  show ?thesis
  proof (cases "k = cursor io")
    case True
    then show ?thesis
      using off p l printc_char(2)[OF ok c] by (auto simp: console_text_def Let_def)
  next
    case False
    then show ?thesis
      using off pos[OF False] True printc_char[OF ok c]
      by (auto simp: console_text_def Let_def nth_Cons')
  qed
qed

lemma fold_printc_text:
  "cursor_ok io \<Longrightarrow> 10 \<notin> set cs \<Longrightarrow> length cs \<le> 2000 \<Longrightarrow>
     screen (fold printc cs io) = console_text cs io \<and>
     cursor (fold printc cs io) = (cursor io + length cs) mod 2000"
proof (induction cs arbitrary: io)
  case Nil
  then show ?case
    using cursor_less[OF Nil(1)] by (simp add: console_text_def fun_eq_iff)
next
  case (Cons c cs)
  have c: "c \<noteq> 10" using Cons.prems by auto
  have "screen (fold printc cs (printc c io)) = console_text cs (printc c io) \<and>
      cursor (fold printc cs (printc c io)) = (cursor (printc c io) + length cs) mod 2000"
    using Cons.IH[OF printc_cursor_ok[OF Cons.prems(1)], of c] Cons.prems by simp
  then show ?case
    using console_text_step[OF Cons.prems(1) c] printc_char(1)[OF Cons.prems(1) c] Cons.prems(3)
    by (simp add: fun_eq_iff mod_simps)
qed

lemma printk_cursor_ok: "cursor_ok io \<Longrightarrow> cursor_ok (printk cs io)"
  by (induction cs arbitrary: io) (auto simp: printc_cursor_ok)

lemma printk_fold: "0 \<notin> set cs \<Longrightarrow> printk cs io = fold printc cs io"
  by (induction cs arbitrary: io) auto

lemma sys_write_console_fold:
  "sys_write_console buffer (int n) io = (int n, fold printc (map buffer [0..<n]) io)"
  by (simp add: sys_write_console_def fold_map comp_def)

subsection \<open>Properties\<close>

text \<open>C32: Writing to the console never leaves the screen: from a cursor inside the 80 by 25 screen,
  any sequence of characters leaves the cursor inside and changes only the 2000 cells of the screen.\<close>

theorem console_stays_on_screen:
  assumes "cursor_ok io"
  shows "cursor_ok (fold printc cs io) \<and> (\<forall>k\<ge>2000. screen (fold printc cs io) k = screen io k)"
proof
  show "cursor_ok (fold printc cs io)" using assms by (rule fold_printc_cursor_ok)
  have one: "cursor_ok io \<Longrightarrow> k \<ge> 2000 \<Longrightarrow> screen (printc c io) k = screen io k" for c io k
    using cursor_less[of io] printc_char(2)[of io c] by (cases "c = 10") (auto simp: printc_def Let_def)
  show "\<forall>k\<ge>2000. screen (fold printc cs io) k = screen io k"
    using assms by (induction cs arbitrary: io) (auto simp: one printc_cursor_ok)
qed

theorem console_stays_on_screen_witness:
  "let io = fold printc [65, 66] (screen_init \<lparr>x_screen = 0, y_screen = 0, fg_color = 0, bg_color = 0,
       screen = (\<lambda>_. 0), debug_port = []\<rparr>) in screen io 2000 = 0 \<and> cursor_ok io"
  using console_stays_on_screen[of "screen_init \<lparr>x_screen = 0, y_screen = 0, fg_color = 0,
      bg_color = 0, screen = (\<lambda>_. 0), debug_port = []\<rparr>" "[65, 66]"]
  by (simp add: Let_def cursor_ok_def screen_init_def)

text \<open>C33: A text without newlines of up to 2000 characters written by \<^verbatim>\<open>sys_write_console\<close> appears cell
  after cell from the cursor on, in the current colours, wrapping from the last cell to the first;
  it is copied to the debug port, and the call returns its length.\<close>

theorem console_write_text:
  assumes "cursor_ok io" "n \<le> 2000" "\<forall>i<n. buffer i \<noteq> 10"
  shows "\<exists>io'. sys_write_console buffer (int n) io = (int n, io') \<and>
    screen io' = console_text (map buffer [0..<n]) io \<and> cursor io' = (cursor io + n) mod 2000 \<and>
    debug_port io' = debug_port io @ map buffer [0..<n]"
proof -
  have "10 \<notin> set (map buffer [0..<n])" using assms(3) by auto
  from fold_printc_text[OF assms(1) this] show ?thesis
    unfolding sys_write_console_fold using assms(2) by auto
qed

theorem console_write_text_witness:
  "cursor (snd (sys_write_console (\<lambda>i. 65) 3 (screen_init \<lparr>x_screen = 0, y_screen = 0, fg_color = 0,
      bg_color = 0, screen = (\<lambda>_. 0), debug_port = []\<rparr>))) = 1523"
proof -
  let ?io = "screen_init \<lparr>x_screen = 0, y_screen = 0, fg_color = 0, bg_color = 0,
      screen = (\<lambda>_. 0), debug_port = []\<rparr>"
  have c: "cursor_ok ?io" "cursor ?io = 1520" by (simp_all add: cursor_ok_def cursor_def screen_init_def)
  show ?thesis using console_write_text[OF c(1), of 3 "\<lambda>i. 65"] c(2) by fastforce
qed

end
