(* ===== verification/Zeos_Circular.thy ===== *)
theory Zeos_Circular
  imports Zeos_Prelude
begin

text \<open>
  The keyboard buffer of \<^verbatim>\<open>circular.c\<close> and \<^verbatim>\<open>include/circular.h\<close>: a ring of
  \<open>MAX_BUFF_SIZE\<close> characters with a read and a write index. The interface a client relies on is
  the locale \<open>bounded_queue\<close>; its lemmas are proved once and the C routines are its instance.
\<close>

abbreviation (input) MAX_BUFF_SIZE :: int where "MAX_BUFF_SIZE \<equiv> 32"

record circular_buffer =
  keys :: "Byte list"
  write_idx :: int
  read_idx :: int
  cb_size :: int

definition init :: "circular_buffer \<Rightarrow> circular_buffer" where
  "init cb = cb\<lparr>write_idx := 0, read_idx := 0, cb_size := 0\<rparr>"

definition is_full :: "circular_buffer \<Rightarrow> bool" where
  "is_full cb \<longleftrightarrow> (write_idx cb + 1) smod MAX_BUFF_SIZE = read_idx cb"

definition is_empty :: "circular_buffer \<Rightarrow> bool" where
  "is_empty cb \<longleftrightarrow> read_idx cb = write_idx cb"

definition size_cb :: "circular_buffer \<Rightarrow> int" where
  "size_cb cb = cb_size cb"

definition put :: "circular_buffer \<Rightarrow> Byte \<Rightarrow> int \<times> circular_buffer" where
  "put cb item =
     (if is_full cb then (0, cb)
      else (1, cb\<lparr>keys := (keys cb)[nat (write_idx cb) := item],
                  write_idx := (write_idx cb + 1) smod MAX_BUFF_SIZE\<rparr>))"

text \<open>\<^verbatim>\<open>get\<close> writes through \<^verbatim>\<open>ret_value\<close>: the pointed-to character is passed in and out.\<close>

definition get :: "circular_buffer \<Rightarrow> Byte \<Rightarrow> int \<times> Byte \<times> circular_buffer" where
  "get cb rv =
     (if is_empty cb then (0, rv, cb)
      else (1, keys cb ! nat (read_idx cb),
            cb\<lparr>read_idx := (read_idx cb + 1) smod MAX_BUFF_SIZE\<rparr>))"

subsection \<open>Specification side: well-formedness, contents, runs\<close>

definition cb_wf :: "circular_buffer \<Rightarrow> bool" where
  "cb_wf cb \<longleftrightarrow> length (keys cb) = 32 \<and> 0 \<le> write_idx cb \<and> write_idx cb < MAX_BUFF_SIZE \<and>
     0 \<le> read_idx cb \<and> read_idx cb < MAX_BUFF_SIZE"

definition cb_count :: "circular_buffer \<Rightarrow> nat" where
  "cb_count cb = nat ((write_idx cb - read_idx cb) mod MAX_BUFF_SIZE)"

definition cb_contents :: "circular_buffer \<Rightarrow> Byte list" where
  "cb_contents cb = map (\<lambda>i. keys cb ! ((nat (read_idx cb) + i) mod 32)) [0..<cb_count cb]"

datatype 'a qop = Enq 'a | Deq

fun spec_step :: "nat \<Rightarrow> 'a qop \<Rightarrow> 'a list \<times> 'a list \<Rightarrow> 'a list \<times> 'a list" where
  "spec_step cap (Enq x) (q, out) = (if length q < cap then (q @ [x], out) else (q, out))"
| "spec_step cap Deq (q, out) = (case q of [] \<Rightarrow> (q, out) | x # q' \<Rightarrow> (q', out @ [x]))"

definition cb_step :: "Byte qop \<Rightarrow> circular_buffer \<times> Byte list \<Rightarrow> circular_buffer \<times> Byte list" where
  "cb_step op st = (case st of (cb, out) \<Rightarrow>
     (case op of
        Enq x \<Rightarrow> (snd (put cb x), out)
      | Deq \<Rightarrow> (case get cb 0 of (r, c, cb') \<Rightarrow> (cb', if r = 0 then out else out @ [c]))))"

subsection \<open>The interface\<close>

locale bounded_queue =
  fixes invar :: "'q \<Rightarrow> bool"
    and contents :: "'q \<Rightarrow> 'a list"
    and cap :: nat
    and enq :: "'q \<Rightarrow> 'a \<Rightarrow> int \<times> 'q"
    and deq :: "'q \<Rightarrow> 'a \<Rightarrow> int \<times> 'a \<times> 'q"
  assumes enq_ok: "invar q \<Longrightarrow> length (contents q) < cap \<Longrightarrow>
      \<exists>q'. enq q x = (1, q') \<and> invar q' \<and> contents q' = contents q @ [x]"
    and enq_full: "invar q \<Longrightarrow> length (contents q) = cap \<Longrightarrow> enq q x = (0, q)"
    and deq_ok: "invar q \<Longrightarrow> contents q = x # xs \<Longrightarrow>
      \<exists>q'. deq q old = (1, x, q') \<and> invar q' \<and> contents q' = xs"
    and deq_empty: "invar q \<Longrightarrow> contents q = [] \<Longrightarrow> deq q old = (0, old, q)"
    and bounded: "invar q \<Longrightarrow> length (contents q) \<le> cap"
begin

text \<open>Draining: take characters until the queue is empty or \<open>n\<close> are taken.\<close>

fun drain :: "nat \<Rightarrow> 'q \<Rightarrow> 'a \<Rightarrow> 'a list \<times> 'q" where
  "drain 0 q old = ([], q)"
| "drain (Suc n) q old =
     (case deq q old of (r, c, q') \<Rightarrow>
        if r = 0 then ([], q) else (case drain n q' c of (cs, q'') \<Rightarrow> (c # cs, q'')))"

lemma enq_invar: "invar q \<Longrightarrow> invar (snd (enq q x))"
  using enq_ok[of q x] enq_full[of q x] bounded[of q] by (cases "length (contents q) < cap") auto

lemma deq_invar: "invar q \<Longrightarrow> invar (snd (snd (deq q old)))"
  using deq_ok[of q _ _ old] deq_empty[of q old] by (cases "contents q") fastforce+

lemma drain_contents:
  "invar q \<Longrightarrow> fst (drain n q old) = take n (contents q) \<and>
     contents (snd (drain n q old)) = drop n (contents q) \<and> invar (snd (drain n q old))"
proof (induction n arbitrary: q old)
  case 0
  then show ?case by simp
next
  case (Suc n)
  show ?case
  proof (cases "contents q")
    case Nil
    then show ?thesis using deq_empty[OF Suc.prems Nil, of old] Suc.prems by simp
  next
    case (Cons x xs)
    then obtain q' where q': "deq q old = (1, x, q')" "invar q'" "contents q' = xs"
      using deq_ok[OF Suc.prems] by blast
    show ?thesis
      using Suc.IH[OF q'(2), of x] q' Cons by (cases "drain n q' x") simp
  qed
qed

end

subsection \<open>The C routines implement the interface\<close>

lemma cb_count_less: "cb_wf cb \<Longrightarrow> cb_count cb < 32"
  by (auto simp: cb_count_def nat_less_iff)

lemma cb_count_put:
  assumes "0 \<le> r" "r < 32" "0 \<le> w" "w < (32::int)"
  shows "(w + 1) mod 32 = r \<longleftrightarrow> (w - r) mod 32 = 31"
    and "(w + 1) mod 32 \<noteq> r \<Longrightarrow> ((w + 1) mod 32 - r) mod 32 = (w - r) mod 32 + 1"
    and "r \<noteq> w \<Longrightarrow> (w - (r + 1) mod 32) mod 32 = (w - r) mod 32 - 1"
    and "(w - r) mod 32 = 0 \<longleftrightarrow> r = w"
  using assms by (auto simp: mod32_diff mod32_succ split: if_splits)

lemma cb_slot_distinct:
  assumes "0 \<le> r" "r < 32" "0 \<le> w" "w < (32::int)" "i < nat ((w - r) mod 32)"
  shows "(nat r + i) mod 32 \<noteq> nat w"
proof -
  have "i < 32" "nat r < 32" using assms by (auto simp: mod32_diff split: if_splits)
  then show ?thesis
    using assms by (auto simp: mod32_diff mod32_add_nat split: if_splits)
qed

lemma cb_slot_last:
  assumes "0 \<le> r" "r < 32" "0 \<le> w" "w < (32::int)"
  shows "(nat r + nat ((w - r) mod 32)) mod 32 = nat w"
proof -
  have "nat ((w - r) mod 32) < 32" "nat r < 32" using assms by auto
  then show ?thesis
    using assms by (auto simp: mod32_diff mod32_add_nat split: if_splits)
qed

lemma cb_slot_next:
  assumes "0 \<le> r" "r < (32::int)"
  shows "(nat ((r + 1) mod 32) + i) mod 32 = (nat r + Suc i) mod 32"
proof (cases "r = 31")
  case False
  then have "nat ((r + 1) mod 32) = Suc (nat r)" using assms by (simp add: mod32_succ)
  then show ?thesis by simp
qed simp

lemma is_full_iff: "cb_wf cb \<Longrightarrow> is_full cb \<longleftrightarrow> length (cb_contents cb) = 31"
proof -
  assume wf: "cb_wf cb"
  then have "is_full cb \<longleftrightarrow> (write_idx cb - read_idx cb) mod 32 = 31"
    by (simp add: is_full_def smod_nonneg cb_wf_def cb_count_put(1))
  also have "\<dots> \<longleftrightarrow> length (cb_contents cb) = 31"
    by (simp add: cb_contents_def cb_count_def nat_eq_iff)
  finally show ?thesis .
qed

lemma is_empty_iff: "cb_wf cb \<Longrightarrow> is_empty cb \<longleftrightarrow> cb_contents cb = []"
  unfolding is_empty_def cb_contents_def cb_count_def cb_wf_def
  using cb_count_put(4)[of "read_idx cb" "write_idx cb"]
    pos_mod_sign[of 32 "write_idx cb - read_idx cb"] by auto

lemma put_room:
  assumes wf: "cb_wf cb" and room: "length (cb_contents cb) < 31"
  shows "\<exists>cb'. put cb x = (1, cb') \<and> cb_wf cb' \<and> cb_contents cb' = cb_contents cb @ [x]"
proof -
  let ?w = "write_idx cb" and ?r = "read_idx cb"
  let ?cb = "cb\<lparr>keys := (keys cb)[nat ?w := x], write_idx := (?w + 1) mod 32\<rparr>"
  have nf: "\<not> is_full cb" using is_full_iff[OF wf] room by simp
  have b: "0 \<le> ?r" "?r < 32" "0 \<le> ?w" "?w < 32" "length (keys cb) = 32"
    using wf by (auto simp: cb_wf_def)
  have p: "put cb x = (1, ?cb)" using nf b by (simp add: put_def smod_nonneg)
  have "(?w + 1) mod 32 \<noteq> ?r" using nf b by (simp add: is_full_def smod_nonneg)
  then have cnt: "cb_count ?cb = Suc (cb_count cb)"
    using cb_count_put(2)[OF b(1-4)] by (simp add: cb_count_def nat_add_distrib)
  have "cb_contents ?cb = cb_contents cb @ [x]"
  proof (rule nth_equalityI)
    show "length (cb_contents ?cb) = length (cb_contents cb @ [x])"
      using cnt by (simp add: cb_contents_def)
    fix i assume "i < length (cb_contents ?cb)"
    then have i: "i \<le> cb_count cb" using cnt by (simp add: cb_contents_def)
    show "cb_contents ?cb ! i = (cb_contents cb @ [x]) ! i"
    proof (cases "i = cb_count cb")
      case True
      have "(nat ?r + i) mod 32 = nat ?w"
        using cb_slot_last[OF b(1-4)] True by (simp add: cb_count_def)
      then show ?thesis
        using True b cnt unfolding cb_contents_def by (simp add: nth_append)
    next
      case False
      then have "(nat ?r + i) mod 32 \<noteq> nat ?w"
        using cb_slot_distinct[OF b(1-4), of i] i by (simp add: cb_count_def)
      then show ?thesis
        using False i b cnt unfolding cb_contents_def by (simp add: nth_append del: upt_Suc)
    qed
  qed
  moreover have "cb_wf ?cb" using wf by (simp add: cb_wf_def)
  ultimately show ?thesis using p by blast
qed

lemma get_nonempty:
  assumes wf: "cb_wf cb" and ne: "cb_contents cb = x # xs"
  shows "\<exists>cb'. get cb old = (1, x, cb') \<and> cb_wf cb' \<and> cb_contents cb' = xs"
proof -
  let ?w = "write_idx cb" and ?r = "read_idx cb"
  let ?cb = "cb\<lparr>read_idx := (?r + 1) mod 32\<rparr>"
  have b: "0 \<le> ?r" "?r < 32" "0 \<le> ?w" "?w < 32" using wf by (auto simp: cb_wf_def)
  have nw: "?r \<noteq> ?w" using is_empty_iff[OF wf] ne by (simp add: is_empty_def)
  have pos: "cb_count cb = Suc (length xs)"
    using arg_cong[OF ne, of length] by (simp add: cb_contents_def)
  have cnt: "cb_count ?cb = length xs"
    using cb_count_put(3)[OF b nw] pos by (simp add: cb_count_def)
  have hd: "x = keys cb ! nat ?r"
  proof -
    have "x = cb_contents cb ! 0" using ne by simp
    also have "\<dots> = keys cb ! (nat ?r mod 32)" using pos by (simp add: cb_contents_def del: upt_Suc)
    finally show ?thesis using b by (simp add: nat_less_iff)
  qed
  have "cb_contents ?cb = xs"
  proof (rule nth_equalityI)
    show "length (cb_contents ?cb) = length xs" using cnt by (simp add: cb_contents_def)
    fix i assume "i < length (cb_contents ?cb)"
    then have i: "i < length xs" using cnt by (simp add: cb_contents_def)
    have "cb_contents ?cb ! i = keys cb ! ((nat ?r + Suc i) mod 32)"
      using i cnt cb_slot_next[OF b(1,2), of i] by (simp add: cb_contents_def)
    also have "\<dots> = cb_contents cb ! Suc i" using i pos by (simp add: cb_contents_def del: upt_Suc)
    finally show "cb_contents ?cb ! i = xs ! i" using ne by simp
  qed
  moreover have "get cb old = (1, x, ?cb)"
    using nw hd b by (simp add: get_def is_empty_def smod_nonneg)
  moreover have "cb_wf ?cb" using wf by (simp add: cb_wf_def)
  ultimately show ?thesis by blast
qed

lemma put_full: "cb_wf cb \<Longrightarrow> length (cb_contents cb) = 31 \<Longrightarrow> put cb x = (0, cb)"
  using is_full_iff by (simp add: put_def)

lemma get_empty: "cb_wf cb \<Longrightarrow> cb_contents cb = [] \<Longrightarrow> get cb old = (0, old, cb)"
  using is_empty_iff by (simp add: get_def)

lemma cb_contents_bound: "cb_wf cb \<Longrightarrow> length (cb_contents cb) \<le> 31"
  using cb_count_less by (fastforce simp: cb_contents_def)

interpretation kbd_queue: bounded_queue cb_wf cb_contents 31 put get
  by unfold_locales
    (blast intro: put_room put_full get_nonempty get_empty cb_contents_bound)+

lemma cb_step_refines:
  "cb_wf cb \<Longrightarrow> cb_wf (fst (cb_step op (cb, out))) \<and>
     (cb_contents (fst (cb_step op (cb, out))), snd (cb_step op (cb, out))) =
       spec_step 31 op (cb_contents cb, out)"
proof (cases op)
  case (Enq x)
  assume wf: "cb_wf cb"
  then show ?thesis
    using put_room[OF wf, of x] put_full[OF wf, of x] cb_contents_bound[OF wf] Enq
    by (cases "length (cb_contents cb) < 31") (auto simp: cb_step_def)
next
  case Deq
  assume wf: "cb_wf cb"
  then show ?thesis
    using get_nonempty[OF wf, of _ _ 0] get_empty[OF wf, of 0] Deq
    by (cases "cb_contents cb") (fastforce simp: cb_step_def)+
qed

lemma cb_run_refines:
  "cb_wf cb \<Longrightarrow> cb_wf (fst (fold cb_step ops (cb, out))) \<and>
     (cb_contents (fst (fold cb_step ops (cb, out))), snd (fold cb_step ops (cb, out))) =
       fold (spec_step 31) ops (cb_contents cb, out)"
proof (induction ops arbitrary: cb out)
  case Nil
  then show ?case by simp
next
  case (Cons op ops)
  obtain cb' out' where s: "cb_step op (cb, out) = (cb', out')" by fastforce
  have "cb_wf cb'" "spec_step 31 op (cb_contents cb, out) = (cb_contents cb', out')"
    using cb_step_refines[OF Cons.prems, of op out] s by auto
  then show ?case using Cons.IH[of cb' out'] s by simp
qed

subsection \<open>Properties\<close>

text \<open>C27: From \<^verbatim>\<open>init\<close> on, every interleaving of \<^verbatim>\<open>put\<close> (the keyboard interrupt) and \<^verbatim>\<open>get\<close>
  (the read system call) behaves as a first-in first-out queue that holds at most 31 characters
  and drops what arrives while it is full: the characters delivered and the characters still
  stored are those of the abstract queue, and the indices stay inside the array.\<close>

theorem keyboard_buffer_fifo:
  assumes "length (keys cb) = 32"
  shows "cb_wf (fst (fold cb_step ops (init cb, []))) \<and>
    (cb_contents (fst (fold cb_step ops (init cb, []))), snd (fold cb_step ops (init cb, []))) =
      fold (spec_step 31) ops ([], [])"
proof -
  have "cb_wf (init cb)" "cb_contents (init cb) = []"
    using assms by (simp_all add: cb_wf_def init_def cb_contents_def cb_count_def)
  then show ?thesis using cb_run_refines[of "init cb" ops "[]"] by simp
qed

theorem keyboard_buffer_fifo_witness:
  "snd (fold cb_step [Enq 97, Enq 98, Deq, Enq 99, Deq]
     (init \<lparr>keys = replicate 32 0, write_idx = 7, read_idx = 9, cb_size = 3\<rparr>, [])) = [97, 98]"
  using keyboard_buffer_fifo[of "\<lparr>keys = replicate 32 0, write_idx = 7, read_idx = 9, cb_size = 3\<rparr>"
      "[Enq 97, Enq 98, Deq, Enq 99, Deq]"] by simp

text \<open>The buffer's \<^verbatim>\<open>size\<close> says nothing about its contents: whatever sequence of \<^verbatim>\<open>put\<close> and
  \<^verbatim>\<open>get\<close> follows \<^verbatim>\<open>init\<close>, \<^verbatim>\<open>size\<close> returns 0.\<close>

lemma circular_size_always_zero: "size_cb (fst (fold cb_step ops (init cb, out))) = 0"
proof -
  have s: "cb_size (fst (cb_step op st)) = cb_size (fst st)" for op st
    by (auto simp: cb_step_def put_def get_def split: qop.split prod.split)
  have "cb_size (fst (fold cb_step ops st)) = cb_size (fst st)" for st
    by (induction ops arbitrary: st) (simp_all add: s)
  then show ?thesis by (simp add: size_cb_def init_def)
qed

end
