(* ===== verification/Zeos_Sched.thy ===== *)
theory Zeos_Sched
  imports Zeos_List Zeos_Mm Zeos_Io Zeos_Circular
begin

text \<open>
  Processes and the round-robin scheduler: \<^verbatim>\<open>sched.c\<close>, \<^verbatim>\<open>include/sched.h\<close>, \<^verbatim>\<open>init_mm\<close> of
  \<^verbatim>\<open>mm.c\<close> and the context switch of \<^verbatim>\<open>kernel_misc.S\<close>.

  \<open>kstate\<close> is the whole kernel state. A \<open>struct task_struct *\<close> is the index of its PCB in
  \<^verbatim>\<open>task[]\<close>, NULL is \<^term>\<open>None\<close>. The list heads embedded in the PCBs and the three queue heads
  are the objects \<open>anchor\<close> of one list heap. The words of a kernel stack are \<open>kword\<close>s: a plain
  word, a pointer into a kernel stack, or one of the code addresses that matter for a context
  switch. \<open>esp\<close> is the pair of the PCB whose page \<^verbatim>\<open>%esp\<close> points into and the slot in it, so
  that \<^verbatim>\<open>current()\<close> (mask \<^verbatim>\<open>%esp\<close>) is its first component. How deep the compiled C routines
  nest is the compiler's choice: the slot at the moment of a kernel entry is arbitrary.

  A result \<^term>\<open>None\<close> is a page fault in kernel mode.
\<close>

subsection \<open>Process state\<close>

datatype state_t = ST_RUN | ST_READY | ST_BLOCKED | ST_ZOMBIE

datatype kword = KWord DWord | KPtr nat nat
  | K_cpu_idle | K_ret_from_fork | K_task_switch | K_sysenter | K_clk

datatype anchor = FreeQ | ReadyQ | BlockedQ
  | Node nat | DeadSons nat | Sons nat | Bros nat

record task_struct =
  PID :: int
  dir_pages_baseAddr :: "nat option"
  state :: state_t
  parent :: "nat option"
  kernel_esp0 :: kword
  nr_ticks :: DWord
  quantum :: DWord
  pending_unblocks :: int

text \<open>In memory \<^verbatim>\<open>union task_union\<close> lays the 16 words of the PCB over the lowest slots of the stack array. Here \<open>task\<close> and \<open>stack\<close> are
  apart: the model is that of a kernel whose stacks never grow down to slot 15. A deeper stack would overwrite the PCB
  on the machine and does not here.\<close>

record kstate =
  task :: "nat \<Rightarrow> task_struct"
  stack :: "nat \<Rightarrow> nat \<Rightarrow> kword"
  heap :: "anchor list_heap"
  mm :: mm_state
  io :: screen_state
  cbuff :: circular_buffer
  idle_task :: "nat option"
  task1_task :: "nat option"
  next_pid :: int
  ticks_since_last_switch :: DWord
  zeos_ticks :: int
  esp :: "nat \<times> nat"
  ebp :: kword
  ebx :: kword
  esi :: kword
  edi :: kword
  eax :: kword
  eip :: kword
  tss_esp0 :: "nat \<times> nat"
  msr_esp :: "nat \<times> nat"

abbreviation (input) INIT_QUANTUM :: DWord where "INIT_QUANTUM \<equiv> 1"

definition upd_task :: "nat \<Rightarrow> (task_struct \<Rightarrow> task_struct) \<Rightarrow> kstate \<Rightarrow> kstate" where
  "upd_task t f k = k\<lparr>task := (task k)(t := f (task k t))\<rparr>"

definition set_stack :: "nat \<Rightarrow> nat \<Rightarrow> kword \<Rightarrow> kstate \<Rightarrow> kstate" where
  "set_stack t s w k = k\<lparr>stack := (stack k)(t := (stack k t)(s := w))\<rparr>"

definition on_heap :: "(anchor list_heap \<Rightarrow> anchor list_heap option) \<Rightarrow> kstate \<Rightarrow> kstate option" where
  "on_heap f k = map_option (\<lambda>h. k\<lparr>heap := h\<rparr>) (f (heap k))"

subsection \<open>From a list entry to its PCB\<close>

text \<open>
  \<^verbatim>\<open>list_head_to_task_struct\<close> masks the address of a list entry with \<^verbatim>\<open>0xFFFFF000\<close>. On the
  entries embedded in a PCB this is the PCB (shown below from the layout of the struct); on the
  three queue heads the result is no PCB.
\<close>

definition list_head_to_task_struct :: "anchor \<Rightarrow> nat option" where
  "list_head_to_task_struct l = (case l of
     Node i \<Rightarrow> Some i | DeadSons i \<Rightarrow> Some i | Sons i \<Rightarrow> Some i | Bros i \<Rightarrow> Some i | _ \<Rightarrow> None)"

text \<open>The byte offsets of the embedded entries in \<open>struct task_struct\<close>.\<close>

definition anchor_offset :: "anchor \<Rightarrow> nat" where
  "anchor_offset l = (case l of Node i \<Rightarrow> 8 | DeadSons i \<Rightarrow> 20 | Sons i \<Rightarrow> 28 | Bros i \<Rightarrow> 36 | _ \<Rightarrow> 0)"

definition anchor_addr :: "DWord \<Rightarrow> anchor \<Rightarrow> DWord" where
  "anchor_addr task_base l = (case list_head_to_task_struct l of
     Some i \<Rightarrow> task_base + of_nat (4096 * i + anchor_offset l) | None \<Rightarrow> 0)"

subsection \<open>Page directory of a process\<close>

definition get_DIR :: "kstate \<Rightarrow> nat \<Rightarrow> nat option" where
  "get_DIR k t = dir_pages_baseAddr (task k t)"

text \<open>\<^verbatim>\<open>get_PT\<close> reads the first directory entry: a NULL directory faults (page 0 is not mapped).\<close>

definition get_PT :: "kstate \<Rightarrow> nat \<Rightarrow> DWord option" where
  "get_PT k t = map_option (\<lambda>d. push_bit 12 (pte_pbase_addr (dir_pages (mm k) d 0)))
     (dir_pages_baseAddr (task k t))"

definition allocate_DIR :: "nat \<Rightarrow> kstate \<Rightarrow> kstate" where
  "allocate_DIR t k = upd_task t (\<lambda>p. p\<lparr>dir_pages_baseAddr := Some t\<rparr>) k"

subsection \<open>Initialisation\<close>

definition init_mm :: "kstate \<Rightarrow> kstate" where
  "init_mm k =
     (let k = k\<lparr>mm := init_shared_pages (init_dir_pages (init_frames (init_table_pages (mm k))))\<rparr>;
          k = allocate_DIR 0 k
      in k\<lparr>mm := set_pe_flag (set_cr3 (get_DIR k 0) (mm k))\<rparr>)"

definition init_sched :: "kstate \<Rightarrow> kstate option" where
  "init_sched k = do {
     let k = k\<lparr>heap := INIT_LIST_HEAD FreeQ (heap k)\<rparr>;
     k \<leftarrow> fold (\<lambda>i r. Option.bind r (\<lambda>k.
            on_heap (list_add (Node i) FreeQ) (upd_task i (\<lambda>p. p\<lparr>PID := -1\<rparr>) k)))
          [0..<NR_TASKS] (Some k);
     let k = k\<lparr>heap := INIT_LIST_HEAD ReadyQ (heap k)\<rparr>;
     Some (k\<lparr>heap := INIT_LIST_HEAD BlockedQ (heap k)\<rparr>)
   }"

definition init_idle :: "kstate \<Rightarrow> kstate option" where
  "init_idle k = do {
     elem \<leftarrow> list_first (heap k) FreeQ;
     k \<leftarrow> on_heap (list_del elem) k;
     t \<leftarrow> list_head_to_task_struct elem;
     let k = upd_task t (\<lambda>p. p\<lparr>PID := 0, nr_ticks := 0\<rparr>) k;
     let k = allocate_DIR t k;
     let k = k\<lparr>heap := INIT_LIST_HEAD (Sons t) (heap k)\<rparr>;
     let k = set_stack t (KERNEL_STACK_SIZE - 2) (KWord 0) k;
     let k = set_stack t (KERNEL_STACK_SIZE - 1) K_cpu_idle k;
     let k = upd_task t (\<lambda>p. p\<lparr>kernel_esp0 := KPtr t (KERNEL_STACK_SIZE - 2)\<rparr>) k;
     Some (k\<lparr>idle_task := Some t\<rparr>)
   }"

definition init_task1 :: "kstate \<Rightarrow> kstate option" where
  "init_task1 k = do {
     elem \<leftarrow> list_first (heap k) FreeQ;
     k \<leftarrow> on_heap (list_del elem) k;
     t \<leftarrow> list_head_to_task_struct elem;
     let k = upd_task t (\<lambda>p. p\<lparr>PID := 1, nr_ticks := 0, state := ST_RUN, pending_unblocks := 0\<rparr>) k;
     let k = k\<lparr>heap := INIT_LIST_HEAD (Sons t) (heap k)\<rparr>;
     let k = allocate_DIR t k;
     PT \<leftarrow> get_PT k t;
     let k = k\<lparr>mm := set_user_pages PT (mm k)\<rparr>;
     let k = k\<lparr>tss_esp0 := (t, KERNEL_STACK_SIZE), msr_esp := (t, KERNEL_STACK_SIZE)\<rparr>;
     let k = k\<lparr>mm := set_cr3 (get_DIR k t) (mm k)\<rparr>;
     let k = k\<lparr>task1_task := Some t, ticks_since_last_switch := 0\<rparr>;
     Some (upd_task t (\<lambda>p. p\<lparr>quantum := INIT_QUANTUM\<rparr>) k)
   }"

subsection \<open>The context switch\<close>

definition current :: "kstate \<Rightarrow> nat" where
  "current k = fst (esp k)"

text \<open>The text \<^verbatim>\<open>"\nEntering IDLE\n"\<close> that \<^verbatim>\<open>cpu_idle\<close> prints before it loops for ever.\<close>

definition idle_message :: "Byte list" where
  "idle_message = [10, 69, 110, 116, 101, 114, 105, 110, 103, 32, 73, 68, 76, 69, 10]"

definition cpu_idle :: "kstate \<Rightarrow> kstate" where
  "cpu_idle k = k\<lparr>io := printk idle_message (io k)\<rparr>"

text \<open>
  What runs at the address \<^verbatim>\<open>switch_stacks\<close> returns to: the rest of \<^verbatim>\<open>task_switch\<close> (restore the
  callee-saved registers, return to the caller), \<^verbatim>\<open>ret_from_fork\<close> (\<^verbatim>\<open>%eax\<close> becomes 0), or \<^verbatim>\<open>cpu_idle\<close>.
\<close>

definition resume :: "kstate \<Rightarrow> kstate" where
  "resume k = (case esp k of (t, s) \<Rightarrow> (case eip k of
     K_task_switch \<Rightarrow> k\<lparr>ebx := stack k t (s + 1), edi := stack k t (s + 2), esi := stack k t (s + 3),
       ebp := stack k t (s + 4), eip := stack k t (s + 5), esp := (t, s + 6)\<rparr>
   | K_ret_from_fork \<Rightarrow> k\<lparr>eax := KWord 0, eip := stack k t s, esp := (t, s + 1)\<rparr>
   | K_cpu_idle \<Rightarrow> cpu_idle k
   | _ \<Rightarrow> k))"

text \<open>\<^verbatim>\<open>switch_stacks\<close>: save \<^verbatim>\<open>%ebp\<close> in \<^verbatim>\<open>*sp\<close>, load the new \<^verbatim>\<open>%esp\<close>, pop \<^verbatim>\<open>%ebp\<close>, return.\<close>

definition switch_stacks :: "nat \<Rightarrow> kword \<Rightarrow> kstate \<Rightarrow> kstate option" where
  "switch_stacks cur new_sp k =
     (let k = upd_task cur (\<lambda>p. p\<lparr>kernel_esp0 := ebp k\<rparr>) k in
      case new_sp of
        KPtr t s \<Rightarrow> Some (k\<lparr>ebp := stack k t s, eip := stack k t (s + 1), esp := (t, s + 2)\<rparr>)
      | _ \<Rightarrow> None)"

definition inner_task_switch :: "nat \<Rightarrow> kstate \<Rightarrow> kstate option" where
  "inner_task_switch new k =
     (case esp k of (t, s) \<Rightarrow>
        let k = set_stack t (s - 1) (ebp k) k;
            k = k\<lparr>ebp := KPtr t (s - 1), esp := (t, s - 1)\<rparr>;
            new_dir = get_DIR k new;
            k = k\<lparr>tss_esp0 := (new, KERNEL_STACK_SIZE), msr_esp := (new, KERNEL_STACK_SIZE)\<rparr>;
            k = k\<lparr>mm := set_cr3 new_dir (mm k)\<rparr>
        in switch_stacks (current k) (kernel_esp0 (task k new)) k)"

text \<open>
  \<^verbatim>\<open>task_switch\<close> is entered with its return address at \<open>esp\<close>; it pushes \<^verbatim>\<open>%ebp\<close>, \<^verbatim>\<open>%esi\<close>,
  \<^verbatim>\<open>%edi\<close>, \<^verbatim>\<open>%ebx\<close>, its argument and the return address of the call.
\<close>

definition task_switch :: "nat option \<Rightarrow> kstate \<Rightarrow> kstate option" where
  "task_switch new k = (case new of None \<Rightarrow> None | Some n \<Rightarrow>
     (case esp k of (t, e) \<Rightarrow>
        let k' = set_stack t (e - 1) (ebp k) k;
            k' = set_stack t (e - 2) (esi k) k';
            k' = set_stack t (e - 3) (edi k) k';
            k' = set_stack t (e - 4) (ebx k) k';
            k' = set_stack t (e - 5) (KPtr n 0) k';
            k' = set_stack t (e - 6) K_task_switch k'
        in map_option resume (inner_task_switch n (k'\<lparr>ebp := KPtr t (e - 1), esp := (t, e - 6)\<rparr>))))"

subsection \<open>The round-robin policy\<close>

definition get_quantum :: "task_struct \<Rightarrow> int" where
  "get_quantum t = sint (quantum t)"

definition set_quantum :: "nat \<Rightarrow> int \<Rightarrow> kstate \<Rightarrow> kstate" where
  "set_quantum t new_quantum k = upd_task t (\<lambda>p. p\<lparr>quantum := word_of_int new_quantum\<rparr>) k"

definition update_sched_data_rr :: "kstate \<Rightarrow> kstate" where
  "update_sched_data_rr k = upd_task (current k) (\<lambda>p. p\<lparr>nr_ticks := ticks_since_last_switch k\<rparr>) k"

text \<open>The comparison of the \<^verbatim>\<open>int\<close> quantum with the \<^verbatim>\<open>unsigned\<close> tick count is unsigned.\<close>

definition needs_sched_rr :: "kstate \<Rightarrow> bool" where
  "needs_sched_rr k =
     (let p = task k (current k) in
      if PID p = 0 then \<not> list_empty (heap k) ReadyQ
      else if (word_of_int (get_quantum p) :: DWord) < nr_ticks p then \<not> list_empty (heap k) ReadyQ
      else if state p = ST_BLOCKED then True
      else False)"

definition update_process_state_rr :: "nat \<Rightarrow> anchor option \<Rightarrow> state_t \<Rightarrow> kstate \<Rightarrow> kstate option" where
  "update_process_state_rr t dest dest_state k =
     (case dest of
        None \<Rightarrow> do {
          k \<leftarrow> on_heap (list_del (Node t)) k;
          Some (upd_task t (\<lambda>p. p\<lparr>state := ST_RUN\<rparr>) k) }
      | Some d \<Rightarrow>
          if current k = t then do {
            k \<leftarrow> on_heap (list_add_tail (Node t) d) k;
            Some (upd_task t (\<lambda>p. p\<lparr>state := dest_state\<rparr>) k) }
          else do {
            k \<leftarrow> on_heap (list_del (Node t)) k;
            k \<leftarrow> on_heap (list_add_tail (Node t) d) k;
            Some (upd_task t (\<lambda>p. p\<lparr>state := dest_state\<rparr>) k) })"

definition sched_next_rr :: "kstate \<Rightarrow> kstate option" where
  "sched_next_rr k =
     (if list_empty (heap k) ReadyQ then
        task_switch (idle_task k) (k\<lparr>ticks_since_last_switch := 0\<rparr>)
      else do {
        new_list_item \<leftarrow> list_first (heap k) ReadyQ;
        new \<leftarrow> list_head_to_task_struct new_list_item;
        k \<leftarrow> (if PID (task k (current k)) > 0 \<and> state (task k (current k)) \<noteq> ST_BLOCKED
              then update_process_state_rr (current k) (Some ReadyQ) ST_READY k else Some k);
        k \<leftarrow> update_process_state_rr new None ST_RUN k;
        task_switch (Some new) (k\<lparr>ticks_since_last_switch := 0\<rparr>)
      })"

definition schedule :: "kstate \<Rightarrow> kstate option" where
  "schedule k =
     (let k = update_sched_data_rr k in if needs_sched_rr k then sched_next_rr k else Some k)"

subsection \<open>Specification side: queues, family tree, contexts\<close>

text \<open>
  The lists the kernel keeps, given by PCB numbers: the three queues, and for every process with
  an initialised \<^verbatim>\<open>sons\<close> head its children, linked through their \<^verbatim>\<open>bros\<close> entries.
\<close>

definition family :: "nat list \<Rightarrow> nat list \<Rightarrow> nat list \<Rightarrow> (nat \<rightharpoonup> nat list) \<Rightarrow> anchor \<rightharpoonup> anchor list" where
  "family fq rq bq kids a = (case a of
     FreeQ \<Rightarrow> Some (map Node fq) | ReadyQ \<Rightarrow> Some (map Node rq) | BlockedQ \<Rightarrow> Some (map Node bq)
   | Sons i \<Rightarrow> map_option (map Bros) (kids i) | _ \<Rightarrow> None)"

text \<open>A process that is not running can be switched to: its saved stack pointer points to its own
  stack, above a return address that one of the three resume points has put there.\<close>

definition parked :: "kstate \<Rightarrow> nat \<Rightarrow> bool" where
  "parked k t \<longleftrightarrow> dir_pages_baseAddr (task k t) = Some t \<and>
     (\<exists>s. kernel_esp0 (task k t) = KPtr t s \<and> s < KERNEL_STACK_SIZE - 1 \<and>
        stack k t (s + 1) \<in> {K_task_switch, K_ret_from_fork, K_cpu_idle})"

definition ready_ok :: "kstate \<Rightarrow> nat \<Rightarrow> bool" where
  "ready_ok k t \<longleftrightarrow> PID (task k t) > 0 \<and> state (task k t) = ST_READY \<and> parked k t"

definition blocked_ok :: "kstate \<Rightarrow> nat \<Rightarrow> bool" where
  "blocked_ok k t \<longleftrightarrow> PID (task k t) > 0 \<and> state (task k t) = ST_BLOCKED \<and> parked k t"

definition running_ok :: "kstate \<Rightarrow> nat \<Rightarrow> bool" where
  "running_ok k t \<longleftrightarrow> PID (task k t) > 0 \<and> state (task k t) = ST_RUN \<and>
     dir_pages_baseAddr (task k t) = Some t"

definition queues_ok ::
  "kstate \<Rightarrow> nat list \<Rightarrow> nat list \<Rightarrow> nat list \<Rightarrow> (nat \<rightharpoonup> nat list) \<Rightarrow> nat \<Rightarrow> bool" where
  "queues_ok k fq rq bq kids i \<longleftrightarrow> lists_rep (heap k) (family fq rq bq kids) \<and>
     distinct (i # fq @ rq @ bq) \<and> set (i # fq @ rq @ bq) \<subseteq> {..<NR_TASKS} \<and>
     idle_task k = Some i \<and> PID (task k i) = 0 \<and>
     (\<forall>t\<in>set rq. ready_ok k t) \<and> (\<forall>t\<in>set bq. blocked_ok k t)"

definition cpu_ok :: "kstate \<Rightarrow> bool" where
  "cpu_ok k \<longleftrightarrow> current k < NR_TASKS \<and> tss_esp0 k = (current k, KERNEL_STACK_SIZE) \<and>
     msr_esp k = (current k, KERNEL_STACK_SIZE) \<and> cr3 (mm k) = Some (current k)"

definition sched_inv ::
  "kstate \<Rightarrow> nat list \<Rightarrow> nat list \<Rightarrow> nat list \<Rightarrow> (nat \<rightharpoonup> nat list) \<Rightarrow> nat \<Rightarrow> bool" where
  "sched_inv k fq rq bq kids i \<longleftrightarrow> queues_ok k fq rq bq kids i \<and> cpu_ok k \<and>
     current k \<notin> set (fq @ rq @ bq) \<and>
     (if current k = i then dir_pages_baseAddr (task k i) = Some i
      else parked k i \<and> running_ok k (current k))"

text \<open>What a context switch from the current process to \<open>n\<close> does: the CPU moves to \<open>n\<close>, the old
  process is parked, nothing else of the kernel's data changes.\<close>

definition switched :: "kstate \<Rightarrow> nat \<Rightarrow> kstate \<Rightarrow> bool" where
  "switched k n k' \<longleftrightarrow> current k' = n \<and> tss_esp0 k' = (n, KERNEL_STACK_SIZE) \<and>
     msr_esp k' = (n, KERNEL_STACK_SIZE) \<and> mm k' = (mm k)\<lparr>cr3 := dir_pages_baseAddr (task k n)\<rparr> \<and>
     heap k' = heap k \<and> cbuff k' = cbuff k \<and> idle_task k' = idle_task k \<and>
     task1_task k' = task1_task k \<and> next_pid k' = next_pid k \<and> zeos_ticks k' = zeos_ticks k \<and>
     ticks_since_last_switch k' = ticks_since_last_switch k \<and>
     task k' = (task k)(current k := (task k (current k))
       \<lparr>kernel_esp0 := KPtr (current k) (snd (esp k) - 7)\<rparr>) \<and>
     (\<forall>u. u \<noteq> current k \<longrightarrow> stack k' u = stack k u) \<and>
     (\<forall>s. s \<ge> snd (esp k) \<or> s < snd (esp k) - 7 \<longrightarrow> stack k' (current k) s = stack k (current k) s) \<and>
     stack k' (current k) (snd (esp k) - 6) = K_task_switch \<and>
     (cursor_ok (io k) \<longrightarrow> cursor_ok (io k'))"

subsection \<open>Field lemmas\<close>

lemma upd_task_simps [simp]:
  "task (upd_task t f k) = (task k)(t := f (task k t))" "heap (upd_task t f k) = heap k"
  "stack (upd_task t f k) = stack k" "mm (upd_task t f k) = mm k" "io (upd_task t f k) = io k"
  "cbuff (upd_task t f k) = cbuff k" "idle_task (upd_task t f k) = idle_task k"
  "task1_task (upd_task t f k) = task1_task k" "next_pid (upd_task t f k) = next_pid k"
  "ticks_since_last_switch (upd_task t f k) = ticks_since_last_switch k"
  "zeos_ticks (upd_task t f k) = zeos_ticks k" "esp (upd_task t f k) = esp k"
  "ebp (upd_task t f k) = ebp k" "tss_esp0 (upd_task t f k) = tss_esp0 k"
  "msr_esp (upd_task t f k) = msr_esp k" "current (upd_task t f k) = current k"
  "eip (upd_task t f k) = eip k" "eax (upd_task t f k) = eax k"
  "ebx (upd_task t f k) = ebx k" "esi (upd_task t f k) = esi k" "edi (upd_task t f k) = edi k"
  by (simp_all add: upd_task_def current_def)

lemma set_stack_simps [simp]:
  "stack (set_stack t s w k) = (stack k)(t := (stack k t)(s := w))" "task (set_stack t s w k) = task k"
  "heap (set_stack t s w k) = heap k" "mm (set_stack t s w k) = mm k" "io (set_stack t s w k) = io k"
  "cbuff (set_stack t s w k) = cbuff k" "idle_task (set_stack t s w k) = idle_task k"
  "task1_task (set_stack t s w k) = task1_task k" "next_pid (set_stack t s w k) = next_pid k"
  "ticks_since_last_switch (set_stack t s w k) = ticks_since_last_switch k"
  "zeos_ticks (set_stack t s w k) = zeos_ticks k" "esp (set_stack t s w k) = esp k"
  "ebp (set_stack t s w k) = ebp k" "tss_esp0 (set_stack t s w k) = tss_esp0 k"
  "msr_esp (set_stack t s w k) = msr_esp k" "current (set_stack t s w k) = current k"
  "eip (set_stack t s w k) = eip k" "eax (set_stack t s w k) = eax k"
  "ebx (set_stack t s w k) = ebx k" "esi (set_stack t s w k) = esi k" "edi (set_stack t s w k) = edi k"
  by (simp_all add: set_stack_def current_def)

lemma on_heap_Some [simp]: "f (heap k) = Some h \<Longrightarrow> on_heap f k = Some (k\<lparr>heap := h\<rparr>)"
  by (simp add: on_heap_def)

lemma current_heap [simp]: "current (k\<lparr>heap := h\<rparr>) = current k"
  "current (k\<lparr>mm := m\<rparr>) = current k" "current (k\<lparr>io := x\<rparr>) = current k"
  "current (k\<lparr>ticks_since_last_switch := w\<rparr>) = current k" "current (k\<lparr>zeos_ticks := z\<rparr>) = current k"
  "current (k\<lparr>esp := e\<rparr>) = fst e" "current (k\<lparr>next_pid := n\<rparr>) = current k"
  "current (k\<lparr>stack := st\<rparr>) = current k" "current (k\<lparr>task := ts\<rparr>) = current k"
  by (simp_all add: current_def)

text \<open>\<open>parked\<close> reads two components of the state.\<close>

lemma parked_cong:
  assumes "kernel_esp0 (task k' t) = kernel_esp0 (task k t)"
    "dir_pages_baseAddr (task k' t) = dir_pages_baseAddr (task k t)" "stack k' t = stack k t"
  shows "parked k' t = parked k t"
  using assms by (simp add: parked_def)

lemmas proc_ok_defs = ready_ok_def blocked_ok_def running_ok_def

subsection \<open>The context switch\<close>

lemma resume_fields [simp]:
  "task (resume k) = task k" "stack (resume k) = stack k" "heap (resume k) = heap k"
  "mm (resume k) = mm k" "cbuff (resume k) = cbuff k" "idle_task (resume k) = idle_task k"
  "task1_task (resume k) = task1_task k" "next_pid (resume k) = next_pid k"
  "ticks_since_last_switch (resume k) = ticks_since_last_switch k"
  "zeos_ticks (resume k) = zeos_ticks k" "tss_esp0 (resume k) = tss_esp0 k"
  "msr_esp (resume k) = msr_esp k" "current (resume k) = current k"
  by (cases "esp k"; cases "eip k"; simp add: resume_def cpu_idle_def current_def)+

lemma resume_io: "cursor_ok (io k) \<Longrightarrow> cursor_ok (io (resume k))"
  by (cases "esp k"; cases "eip k"; simp add: resume_def cpu_idle_def printk_cursor_ok)

definition switch_frame :: "nat \<Rightarrow> kstate \<Rightarrow> kstate" where
  "switch_frame n k = (case esp k of (t, e) \<Rightarrow>
     k\<lparr>stack := (stack k)(t := (stack k t)(e - 1 := ebp k, e - 2 := esi k, e - 3 := edi k,
       e - 4 := ebx k, e - 5 := KPtr n 0, e - 6 := K_task_switch)),
       ebp := KPtr t (e - 1), esp := (t, e - 6)\<rparr>)"

lemma task_switch_frame:
  "task_switch (Some n) k = map_option resume (inner_task_switch n (switch_frame n k))"
  by (cases "esp k") (simp add: task_switch_def switch_frame_def Let_def set_stack_def)

lemma inner_task_switch_result:
  assumes "esp k = (t, s)" "kernel_esp0 (task k n) = KPtr u v"
  shows "\<exists>st b ip. inner_task_switch n k = Some (k\<lparr>stack := st, ebp := b, eip := ip, esp := (u, v + 2),
      tss_esp0 := (n, KERNEL_STACK_SIZE), msr_esp := (n, KERNEL_STACK_SIZE),
      mm := (mm k)\<lparr>cr3 := dir_pages_baseAddr (task k n)\<rparr>,
      task := (task k)(t := (task k t)\<lparr>kernel_esp0 := KPtr t (s - 1)\<rparr>)\<rparr>) \<and>
    st = (stack k)(t := (stack k t)(s - 1 := ebp k)) \<and> b = st u v \<and> ip = st u (v + 1)"
  using assms
  by (simp add: inner_task_switch_def switch_stacks_def Let_def set_stack_def upd_task_def
      set_cr3_def get_DIR_def current_def)

lemma task_switch_switched:
  assumes e: "7 \<le> snd (esp k)" and n: "n \<noteq> current k" "kernel_esp0 (task k n) = KPtr n s"
  shows "\<exists>k'. task_switch (Some n) k = Some k' \<and> switched k n k'"
proof -
  obtain t d where te: "esp k = (t, d + 7)" using e by (metis le_iff_add add.commute prod.collapse)
  let ?k = "switch_frame n k"
  have f: "esp ?k = (t, d + 1)" "kernel_esp0 (task ?k n) = KPtr n s"
    using te n by (simp_all add: switch_frame_def)
  obtain st b ip where r: "inner_task_switch n ?k = Some (?k\<lparr>stack := st, ebp := b, eip := ip,
      esp := (n, s + 2), tss_esp0 := (n, KERNEL_STACK_SIZE), msr_esp := (n, KERNEL_STACK_SIZE),
      mm := (mm ?k)\<lparr>cr3 := dir_pages_baseAddr (task ?k n)\<rparr>,
      task := (task ?k)(t := (task ?k t)\<lparr>kernel_esp0 := KPtr t (d + 1 - 1)\<rparr>)\<rparr>)"
    and st: "st = (stack ?k)(t := (stack ?k t)(d + 1 - 1 := ebp ?k))"
    using inner_task_switch_result[OF f] by blast
  have st': "st = (stack k)(t := (stack k t)(d + 6 := ebp k, d + 5 := esi k, d + 4 := edi k,
      d + 3 := ebx k, d + 2 := KPtr n 0, d + 1 := K_task_switch, d := KPtr t (d + 6)))"
    unfolding st by (simp add: switch_frame_def te add.commute)
  have "switched k n (resume (?k\<lparr>stack := st, ebp := b, eip := ip,
      esp := (n, s + 2), tss_esp0 := (n, KERNEL_STACK_SIZE), msr_esp := (n, KERNEL_STACK_SIZE),
      mm := (mm ?k)\<lparr>cr3 := dir_pages_baseAddr (task ?k n)\<rparr>,
      task := (task ?k)(t := (task ?k t)\<lparr>kernel_esp0 := KPtr t (d + 1 - 1)\<rparr>)\<rparr>))"
    unfolding switched_def resume_fields
    using resume_io[of "?k\<lparr>stack := st, ebp := b, eip := ip,
      esp := (n, s + 2), tss_esp0 := (n, KERNEL_STACK_SIZE), msr_esp := (n, KERNEL_STACK_SIZE),
      mm := (mm ?k)\<lparr>cr3 := dir_pages_baseAddr (task ?k n)\<rparr>,
      task := (task ?k)(t := (task ?k t)\<lparr>kernel_esp0 := KPtr t (d + 1 - 1)\<rparr>)\<rparr>"]
    by (simp add: switch_frame_def te current_def st')
  then show ?thesis unfolding task_switch_frame r by simp
qed

subsection \<open>The queues as lists of PCBs\<close>

lemma family_heads [simp]:
  "family fq rq bq kids FreeQ = Some (map Node fq)" "family fq rq bq kids ReadyQ = Some (map Node rq)"
  "family fq rq bq kids BlockedQ = Some (map Node bq)" "family fq rq bq kids (Node t) = None"
  "family fq rq bq kids (Bros t) = None" "family fq rq bq kids (DeadSons t) = None"
  "family fq rq bq kids (Sons t) = map_option (map Bros) (kids t)"
  by (simp_all add: family_def)

lemma family_upd:
  "(family fq rq bq kids)(FreeQ \<mapsto> map Node q) = family q rq bq kids"
  "(family fq rq bq kids)(ReadyQ \<mapsto> map Node q) = family fq q bq kids"
  "(family fq rq bq kids)(BlockedQ \<mapsto> map Node q) = family fq rq q kids"
  "(family fq rq bq kids)(Sons t \<mapsto> map Bros q) = family fq rq bq (kids(t \<mapsto> q))"
  by (auto simp: family_def fun_eq_iff split: anchor.split)

lemma family_SomeE:
  assumes "family fq rq bq kids a = Some xs"
  obtains "a = FreeQ" "xs = map Node fq" | "a = ReadyQ" "xs = map Node rq"
  | "a = BlockedQ" "xs = map Node bq" | t ks where "a = Sons t" "kids t = Some ks" "xs = map Bros ks"
  using assms by (cases a) auto

lemma fresh_Node: "fresh (family fq rq bq kids) (Node t) \<longleftrightarrow> t \<notin> set (fq @ rq @ bq)"
proof
  assume f: "fresh (family fq rq bq kids) (Node t)"
  have "Node t \<notin> set (FreeQ # map Node fq)" "Node t \<notin> set (ReadyQ # map Node rq)"
      "Node t \<notin> set (BlockedQ # map Node bq)"
    using f unfolding fresh_def by (metis family_heads(1), metis family_heads(2), metis family_heads(3))
  then show "t \<notin> set (fq @ rq @ bq)" by auto
next
  assume "t \<notin> set (fq @ rq @ bq)"
  then show "fresh (family fq rq bq kids) (Node t)"
    unfolding fresh_def by (auto elim!: family_SomeE)
qed

lemma fresh_Bros: "fresh (family fq rq bq kids) (Bros t) \<longleftrightarrow> (\<forall>p ks. kids p = Some ks \<longrightarrow> t \<notin> set ks)"
proof
  assume f: "fresh (family fq rq bq kids) (Bros t)"
  show "\<forall>p ks. kids p = Some ks \<longrightarrow> t \<notin> set ks"
  proof (intro allI impI)
    fix p ks assume "kids p = Some ks"
    then have "family fq rq bq kids (Sons p) = Some (map Bros ks)" by simp
    then have "Bros t \<notin> set (Sons p # map Bros ks)" using f unfolding fresh_def by blast
    then show "t \<notin> set ks" by auto
  qed
next
  assume "\<forall>p ks. kids p = Some ks \<longrightarrow> t \<notin> set ks"
  then show "fresh (family fq rq bq kids) (Bros t)"
    unfolding fresh_def by (auto elim!: family_SomeE)
qed

lemma fresh_Sons: "kids t = None \<Longrightarrow> fresh (family fq rq bq kids) (Sons t)"
  unfolding fresh_def by (auto elim!: family_SomeE)

lemma fresh_DeadSons: "fresh (family fq rq bq kids) (DeadSons t)"
  unfolding fresh_def by (auto elim!: family_SomeE)

lemma del_map:
  "lists_rep h L \<Longrightarrow> L p = Some (map f (xs @ n # ys)) \<Longrightarrow>
     \<exists>h'. list_del (f n) h = Some h' \<and> lists_rep h' (L(p \<mapsto> map f (xs @ ys)))"
  using klists.del_law[of h L p "map f xs" "f n" "map f ys"] by simp

lemma queue_del:
  "lists_rep h (family (xs @ n # ys) rq bq kids) \<Longrightarrow>
     \<exists>h'. list_del (Node n) h = Some h' \<and> lists_rep h' (family (xs @ ys) rq bq kids)"
  "lists_rep h (family fq (xs @ n # ys) bq kids) \<Longrightarrow>
     \<exists>h'. list_del (Node n) h = Some h' \<and> lists_rep h' (family fq (xs @ ys) bq kids)"
  "lists_rep h (family fq rq (xs @ n # ys) kids) \<Longrightarrow>
     \<exists>h'. list_del (Node n) h = Some h' \<and> lists_rep h' (family fq rq (xs @ ys) kids)"
  using del_map[of h "family (xs @ n # ys) rq bq kids" FreeQ Node xs n ys]
    del_map[of h "family fq (xs @ n # ys) bq kids" ReadyQ Node xs n ys]
    del_map[of h "family fq rq (xs @ n # ys) kids" BlockedQ Node xs n ys]
  unfolding family_upd family_heads by simp_all

lemma queue_add:
  assumes "lists_rep h (family fq rq bq kids)" "t \<notin> set (fq @ rq @ bq)"
  shows "\<exists>h'. list_add_tail (Node t) FreeQ h = Some h' \<and> lists_rep h' (family (fq @ [t]) rq bq kids)"
    and "\<exists>h'. list_add_tail (Node t) ReadyQ h = Some h' \<and> lists_rep h' (family fq (rq @ [t]) bq kids)"
    and "\<exists>h'. list_add_tail (Node t) BlockedQ h = Some h' \<and> lists_rep h' (family fq rq (bq @ [t]) kids)"
proof -
  have fr: "fresh (family fq rq bq kids) (Node t)" using fresh_Node assms(2) by blast
  have m: "map Node xs @ [Node t] = map Node (xs @ [t])" for xs by simp
  show "\<exists>h'. list_add_tail (Node t) FreeQ h = Some h' \<and> lists_rep h' (family (fq @ [t]) rq bq kids)"
    "\<exists>h'. list_add_tail (Node t) ReadyQ h = Some h' \<and> lists_rep h' (family fq (rq @ [t]) bq kids)"
    "\<exists>h'. list_add_tail (Node t) BlockedQ h = Some h' \<and> lists_rep h' (family fq rq (bq @ [t]) kids)"
    using klists.add_tail_law[OF assms(1) family_heads(1) fr]
      klists.add_tail_law[OF assms(1) family_heads(2) fr]
      klists.add_tail_law[OF assms(1) family_heads(3) fr]
    unfolding m family_upd by blast+
qed

lemma ready_empty: "lists_rep h (family fq rq bq kids) \<Longrightarrow> list_empty h ReadyQ \<longleftrightarrow> rq = []"
  and free_empty: "lists_rep h (family fq rq bq kids) \<Longrightarrow> list_empty h FreeQ \<longleftrightarrow> fq = []"
  using klists.empty_law[of h _ ReadyQ "map Node rq"] klists.empty_law[of h _ FreeQ "map Node fq"]
  by simp_all

lemma ready_first: "lists_rep h (family fq (t # rq) bq kids) \<Longrightarrow> list_first h ReadyQ = Some (Node t)"
  and free_first: "lists_rep h (family (t # fq) rq bq kids) \<Longrightarrow> list_first h FreeQ = Some (Node t)"
  using klists.first_law[of h _ ReadyQ "Node t" "map Node rq"]
    klists.first_law[of h _ FreeQ "Node t" "map Node fq"] by simp_all

subsection \<open>Choosing the next process\<close>

text \<open>
  \<open>pick\<close> is the policy on the abstract queues: the head of the ready queue runs; a process that
  can still run goes to the tail; an empty ready queue gives the CPU to idle.
\<close>

definition pick :: "nat \<Rightarrow> bool \<Rightarrow> nat \<Rightarrow> nat list \<Rightarrow> nat \<times> nat list" where
  "pick i requeue c rq = (case rq of [] \<Rightarrow> (i, []) | n # rs \<Rightarrow> (n, if requeue then rs @ [c] else rs))"

lemma lhts_Node [simp]: "list_head_to_task_struct (Node t) = Some t"
  "list_head_to_task_struct (Bros t) = Some t"
  by (simp_all add: list_head_to_task_struct_def)

definition requeues :: "kstate \<Rightarrow> bool" where
  "requeues k \<longleftrightarrow> PID (task k (current k)) > 0 \<and> state (task k (current k)) \<noteq> ST_BLOCKED"

text \<open>The state right before the switch, with a process waiting.\<close>

definition handed_over :: "nat \<Rightarrow> kstate \<Rightarrow> anchor list_heap \<Rightarrow> kstate" where
  "handed_over n k h =
     (upd_task n (\<lambda>p. p\<lparr>state := ST_RUN\<rparr>)
       (if requeues k then upd_task (current k) (\<lambda>p. p\<lparr>state := ST_READY\<rparr>) (k\<lparr>heap := h\<rparr>)
        else k\<lparr>heap := h\<rparr>))\<lparr>ticks_since_last_switch := 0\<rparr>"

lemma sched_next_rr_ready:
  assumes l: "lists_rep (heap k) (family fq (n # rs) bq kids)"
    and c: "requeues k \<Longrightarrow> current k \<notin> set (fq @ (n # rs) @ bq)"
  shows "\<exists>h. sched_next_rr k = task_switch (Some n) (handed_over n k h) \<and>
    lists_rep h (family fq (snd (pick i (requeues k) (current k) (n # rs))) bq kids)"
proof (cases "requeues k")
  case True
  note c = c[OF True]
  obtain h1 where h1: "list_add_tail (Node (current k)) ReadyQ (heap k) = Some h1"
      "lists_rep h1 (family fq ((n # rs) @ [current k]) bq kids)"
    using queue_add(2)[OF l c] by blast
  have "lists_rep h1 (family fq ([] @ n # (rs @ [current k])) bq kids)" using h1(2) by simp
  from queue_del(2)[OF this] obtain h2 where h2: "list_del (Node n) h1 = Some h2"
      "lists_rep h2 (family fq (rs @ [current k]) bq kids)" by auto
  have ne: "n \<noteq> current k" using c by auto
  have "sched_next_rr k = task_switch (Some n) (handed_over n k h2)"
    using ready_empty[OF l] ready_first[OF l] h1(1) h2(1) True ne
    unfolding sched_next_rr_def requeues_def[symmetric]
    by (simp add: update_process_state_rr_def handed_over_def on_heap_def
        upd_task_def fun_upd_twist)
  then show ?thesis using h2(2) True by (auto simp: pick_def)
next
  case False
  have "lists_rep (heap k) (family fq ([] @ n # rs) bq kids)" using l by simp
  from queue_del(2)[OF this] obtain h2 where h2: "list_del (Node n) (heap k) = Some h2"
      "lists_rep h2 (family fq rs bq kids)" by auto
  have "sched_next_rr k = task_switch (Some n) (handed_over n k h2)"
    using ready_empty[OF l] ready_first[OF l] h2(1) False
    unfolding sched_next_rr_def requeues_def[symmetric]
    by (simp add: update_process_state_rr_def handed_over_def on_heap_def
        upd_task_def)
  then show ?thesis using h2(2) False by (auto simp: pick_def)
qed

text \<open>
  What the callers of \<^verbatim>\<open>sched_next_rr\<close> establish: the queues are well-formed, but the current
  process may be waiting for its switch in the free queue (exit) or in the blocked queue (block).
\<close>

definition sched_pre ::
  "kstate \<Rightarrow> nat list \<Rightarrow> nat list \<Rightarrow> nat list \<Rightarrow> (nat \<rightharpoonup> nat list) \<Rightarrow> nat \<Rightarrow> bool" where
  "sched_pre k fq rq bq kids i \<longleftrightarrow> lists_rep (heap k) (family fq rq bq kids) \<and>
     distinct (i # fq @ rq @ bq) \<and> set (i # fq @ rq @ bq) \<subseteq> {..<NR_TASKS} \<and>
     idle_task k = Some i \<and> PID (task k i) = 0 \<and>
     (\<forall>t\<in>set rq. ready_ok k t) \<and> (\<forall>t\<in>set bq. t \<noteq> current k \<longrightarrow> blocked_ok k t) \<and>
     (current k \<in> set bq \<longrightarrow> PID (task k (current k)) > 0 \<and> state (task k (current k)) = ST_BLOCKED \<and>
        dir_pages_baseAddr (task k (current k)) = Some (current k)) \<and>
     current k < NR_TASKS \<and> current k \<notin> set rq \<and>
     (requeues k \<longrightarrow> rq \<noteq> [] \<and> current k \<notin> set (fq @ rq @ bq) \<and>
        dir_pages_baseAddr (task k (current k)) = Some (current k)) \<and>
     (current k = i \<longrightarrow> rq \<noteq> [] \<and> dir_pages_baseAddr (task k i) = Some i) \<and>
     (current k \<noteq> i \<longrightarrow> parked k i) \<and> 7 \<le> snd (esp k) \<and> snd (esp k) \<le> KERNEL_STACK_SIZE"

lemma parked_kernel_esp0: "parked k t \<Longrightarrow> \<exists>s. kernel_esp0 (task k t) = KPtr t s"
  by (auto simp: parked_def)

text \<open>A switch parks the process it leaves, and keeps the others parked.\<close>

lemma switched_parks:
  assumes "switched k n k'" "dir_pages_baseAddr (task k (current k)) = Some (current k)"
    "7 \<le> snd (esp k)" "snd (esp k) \<le> KERNEL_STACK_SIZE"
  shows "parked k' (current k)"
proof -
  have "snd (esp k) - 7 + 1 = snd (esp k) - 6" using assms(3) by simp
  then show ?thesis using assms by (auto simp: parked_def switched_def)
qed

lemma switched_keeps_parked:
  "switched k n k' \<Longrightarrow> parked k t \<Longrightarrow> t \<noteq> current k \<Longrightarrow> parked k' t"
  using parked_cong[of k' t k] by (simp add: switched_def)

lemma handed_over_fields [simp]:
  "current (handed_over n k h) = current k" "heap (handed_over n k h) = h"
  "stack (handed_over n k h) = stack k" "mm (handed_over n k h) = mm k" "io (handed_over n k h) = io k"
  "cbuff (handed_over n k h) = cbuff k" "idle_task (handed_over n k h) = idle_task k"
  "task1_task (handed_over n k h) = task1_task k" "next_pid (handed_over n k h) = next_pid k"
  "zeos_ticks (handed_over n k h) = zeos_ticks k" "ticks_since_last_switch (handed_over n k h) = 0"
  "esp (handed_over n k h) = esp k"
  by (simp_all add: handed_over_def)

lemma handed_over_task:
  "n \<noteq> current k \<Longrightarrow> task (handed_over n k h) = (task k)(
     n := (task k n)\<lparr>state := ST_RUN\<rparr>,
     current k := (if requeues k then (task k (current k))\<lparr>state := ST_READY\<rparr> else task k (current k)))"
  by (auto simp: handed_over_def fun_eq_iff)

text \<open>What stays of a PCB across the scheduler: everything but its state and its saved stack pointer.\<close>

definition same_pcb :: "task_struct \<Rightarrow> task_struct \<Rightarrow> bool" where
  "same_pcb p q \<longleftrightarrow> PID p = PID q \<and> dir_pages_baseAddr p = dir_pages_baseAddr q \<and> parent p = parent q \<and>
     nr_ticks p = nr_ticks q \<and> quantum p = quantum q \<and> pending_unblocks p = pending_unblocks q"

definition sched_frame :: "kstate \<Rightarrow> kstate \<Rightarrow> bool" where
  "sched_frame k k' \<longleftrightarrow> (\<forall>t. same_pcb (task k' t) (task k t)) \<and> (\<forall>t. t \<noteq> current k \<longrightarrow> stack k' t = stack k t) \<and>
     mm k' = (mm k)\<lparr>cr3 := cr3 (mm k')\<rparr> \<and> cbuff k' = cbuff k \<and> next_pid k' = next_pid k \<and>
     zeos_ticks k' = zeos_ticks k \<and> task1_task k' = task1_task k \<and>
     (cursor_ok (io k) \<longrightarrow> cursor_ok (io k'))"

lemma sched_frame_switched: "switched (k\<lparr>ticks_since_last_switch := 0\<rparr>) n k' \<Longrightarrow> sched_frame k k'"
  by (simp add: sched_frame_def same_pcb_def switched_def)

lemma sched_next_rr_idle:
  assumes pre: "sched_pre k fq [] bq kids i"
  shows "\<exists>k'. sched_next_rr k = Some k' \<and> sched_inv k' fq [] bq kids i \<and> current k' = i \<and>
    ticks_since_last_switch k' = 0 \<and> sched_frame k k'"
proof -
  have P: "lists_rep (heap k) (family fq [] bq kids)" "distinct (i # fq @ bq)"
      "idle_task k = Some i" "PID (task k i) = 0" "current k \<noteq> i" "parked k i"
      "7 \<le> snd (esp k)" "snd (esp k) \<le> KERNEL_STACK_SIZE" "set (i # fq @ bq) \<subseteq> {..<NR_TASKS}"
    using pre by (simp_all add: sched_pre_def)
  let ?k = "k\<lparr>ticks_since_last_switch := 0\<rparr>"
  obtain s where s: "kernel_esp0 (task ?k i) = KPtr i s" using parked_kernel_esp0[OF P(6)] by auto
  obtain k' where k': "task_switch (Some i) ?k = Some k'" "switched ?k i k'"
    using task_switch_switched[of ?k i s] P s by auto
  note sw = k'(2)[unfolded switched_def]
  have blk: "blocked_ok k' t" if t: "t \<in> set bq" for t
  proof (cases "t = current k")
    case True
    then show ?thesis
      using switched_parks[OF k'(2)] pre t sw by (simp add: sched_pre_def proc_ok_defs)
  next
    case False
    then have "blocked_ok k t" using pre t by (simp add: sched_pre_def)
    moreover have "parked k t \<Longrightarrow> parked ?k t" by (simp add: parked_def)
    ultimately show ?thesis
      using switched_keeps_parked[OF k'(2), of t] False sw by (simp add: proc_ok_defs)
  qed
  have "dir_pages_baseAddr (task k i) = Some i" using P(6) by (simp add: parked_def)
  then have "sched_inv k' fq [] bq kids i"
    using P sw blk by (simp add: sched_inv_def queues_ok_def cpu_ok_def)
  moreover have "sched_next_rr k = Some k'"
    using ready_empty[OF P(1)] P(3) k'(1) by (simp add: sched_next_rr_def)
  ultimately show ?thesis using sched_frame_switched[OF k'(2)] sw by simp
qed

text \<open>The state after handing the CPU over, field by field.\<close>

lemma handover_result:
  assumes sw: "switched (handed_over n k h) n k'" and n: "n \<noteq> current k"
  shows "task k' t = (if t = current k then
        (if requeues k then (task k t)\<lparr>state := ST_READY, kernel_esp0 := KPtr t (snd (esp k) - 7)\<rparr>
         else (task k t)\<lparr>kernel_esp0 := KPtr t (snd (esp k) - 7)\<rparr>)
      else if t = n then (task k n)\<lparr>state := ST_RUN\<rparr> else task k t)"
    and "heap k' = h" "current k' = n" "idle_task k' = idle_task k" "ticks_since_last_switch k' = 0"
    and "mm k' = (mm k)\<lparr>cr3 := dir_pages_baseAddr (task k n)\<rparr>"
    and "tss_esp0 k' = (n, KERNEL_STACK_SIZE)" "msr_esp k' = (n, KERNEL_STACK_SIZE)"
    and "sched_frame k k'"
proof -
  note s = sw[unfolded switched_def]
  show tk: "task k' t = (if t = current k then
        (if requeues k then (task k t)\<lparr>state := ST_READY, kernel_esp0 := KPtr t (snd (esp k) - 7)\<rparr>
         else (task k t)\<lparr>kernel_esp0 := KPtr t (snd (esp k) - 7)\<rparr>)
      else if t = n then (task k n)\<lparr>state := ST_RUN\<rparr> else task k t)" for t
    using s n by (simp add: handed_over_task)
  show "heap k' = h" "current k' = n" "idle_task k' = idle_task k" "ticks_since_last_switch k' = 0"
    "tss_esp0 k' = (n, KERNEL_STACK_SIZE)" "msr_esp k' = (n, KERNEL_STACK_SIZE)"
    using s by simp_all
  show mm: "mm k' = (mm k)\<lparr>cr3 := dir_pages_baseAddr (task k n)\<rparr>"
    using s n by (simp add: handed_over_task)
  have "same_pcb (task k' t) (task k t)" for t by (simp add: tk same_pcb_def)
  then show "sched_frame k k'" using s mm unfolding sched_frame_def by simp
qed

lemma handover_parked:
  assumes sw: "switched (handed_over n k h) n k'" and n: "n \<noteq> current k"
    and e: "7 \<le> snd (esp k)" "snd (esp k) \<le> KERNEL_STACK_SIZE"
  shows "parked k t \<Longrightarrow> t \<noteq> current k \<Longrightarrow> parked k' t"
    and "dir_pages_baseAddr (task k (current k)) = Some (current k) \<Longrightarrow> parked k' (current k)"
proof -
  assume t: "parked k t" "t \<noteq> current k"
  then have "parked (handed_over n k h) t" using parked_cong[of "handed_over n k h" t k] n
    by (simp add: handed_over_task)
  then show "parked k' t" using switched_keeps_parked[OF sw] t(2) by simp
next
  assume "dir_pages_baseAddr (task k (current k)) = Some (current k)"
  then show "parked k' (current k)"
    using switched_parks[OF sw] n e by (simp add: handed_over_task)
qed

lemma sched_next_rr_handover:
  assumes pre: "sched_pre k fq (n # rs) bq kids i"
  defines "rq' \<equiv> snd (pick i (requeues k) (current k) (n # rs))"
  shows "\<exists>k' h. sched_next_rr k = Some k' \<and> switched (handed_over n k h) n k' \<and>
    lists_rep h (family fq rq' bq kids)"
proof -
  have P: "lists_rep (heap k) (family fq (n # rs) bq kids)" "n \<noteq> current k" "parked k n"
      "7 \<le> snd (esp k)" "requeues k \<Longrightarrow> current k \<notin> set (fq @ (n # rs) @ bq)"
    using pre by (auto simp: sched_pre_def ready_ok_def)
  obtain h where h: "sched_next_rr k = task_switch (Some n) (handed_over n k h)"
      "lists_rep h (family fq rq' bq kids)"
    using sched_next_rr_ready[OF P(1) P(5), of i] unfolding rq'_def by auto
  obtain s where "kernel_esp0 (task (handed_over n k h) n) = KPtr n s"
    using parked_kernel_esp0[OF P(3)] P(2) by (auto simp: handed_over_task)
  then show ?thesis
    using task_switch_switched[of "handed_over n k h" n s] P(2,4) h by auto
qed

lemma sched_next_rr_queues:
  assumes pre: "sched_pre k fq (n # rs) bq kids i" and sw: "switched (handed_over n k h) n k'"
  defines "rq' \<equiv> snd (pick i (requeues k) (current k) (n # rs))"
  shows "\<forall>t\<in>set rq'. ready_ok k' t" "\<forall>t\<in>set bq. blocked_ok k' t" "parked k' i" "running_ok k' n"
    and "distinct (i # fq @ rq' @ bq)" "set (i # fq @ rq' @ bq) \<subseteq> {..<NR_TASKS}"
    and "n \<notin> set (i # fq @ rq' @ bq)" "n < NR_TASKS"
proof -
  have n: "n \<noteq> current k" "ready_ok k n" "7 \<le> snd (esp k)" "snd (esp k) \<le> KERNEL_STACK_SIZE"
    and d: "distinct (i # fq @ n # rs @ bq)" "set (i # fq @ n # rs @ bq) \<subseteq> {..<NR_TASKS}"
    and c: "current k < NR_TASKS" "current k \<notin> set (n # rs)" "requeues k \<Longrightarrow> current k \<notin> set (fq @ rs @ bq)"
      "requeues k \<Longrightarrow> dir_pages_baseAddr (task k (current k)) = Some (current k)"
      "current k = i \<Longrightarrow> dir_pages_baseAddr (task k i) = Some i" "current k \<noteq> i \<Longrightarrow> parked k i"
      "PID (task k i) = 0"
    and q: "\<And>t. t \<in> set rs \<Longrightarrow> ready_ok k t" "\<And>t. t \<in> set bq \<Longrightarrow> t \<noteq> current k \<Longrightarrow> blocked_ok k t"
      "current k \<in> set bq \<Longrightarrow> PID (task k (current k)) > 0 \<and> state (task k (current k)) = ST_BLOCKED \<and>
        dir_pages_baseAddr (task k (current k)) = Some (current k)"
    using pre by (auto simp: sched_pre_def)
  note r = handover_result[OF sw n(1)] and pk = handover_parked[OF sw n(1,3,4)]
  have rq': "rq' = (if requeues k then rs @ [current k] else rs)" by (simp add: rq'_def pick_def)
  have "ready_ok k' t" if "t \<in> set rs" for t
    using q(1)[OF that] that c(2) d(1) pk(1)[of t] by (auto simp: ready_ok_def r(1))
  moreover have "ready_ok k' (current k)" if "requeues k"
    using that pk(2)[OF c(4)[OF that]] by (simp add: ready_ok_def r(1) requeues_def)
  ultimately show "\<forall>t\<in>set rq'. ready_ok k' t" unfolding rq' by auto
  show "\<forall>t\<in>set bq. blocked_ok k' t"
  proof
    fix t assume t: "t \<in> set bq"
    show "blocked_ok k' t"
    proof (cases "t = current k")
      case True
      then have "\<not> requeues k" using t c(3) by auto
      then show ?thesis using q(3) t True pk(2) by (simp add: blocked_ok_def r(1))
    next
      case False
      moreover have "t \<noteq> n" using t d(1) by auto
      ultimately show ?thesis using q(2)[OF t] pk(1)[of t] by (simp add: blocked_ok_def r(1))
    qed
  qed
  show "parked k' i" using c(5,6) pk by (cases "current k = i") auto
  show "running_ok k' n" using n(1,2) by (simp add: running_ok_def ready_ok_def parked_def r(1))
  have ci: "requeues k \<Longrightarrow> current k \<noteq> i" using c(7) by (auto simp: requeues_def)
  show "distinct (i # fq @ rq' @ bq)" "set (i # fq @ rq' @ bq) \<subseteq> {..<NR_TASKS}"
    "n \<notin> set (i # fq @ rq' @ bq)" "n < NR_TASKS"
    unfolding rq' using d c(1,3) ci n(1) by auto
qed

lemma sched_next_rr_pick:
  assumes pre: "sched_pre k fq rq bq kids i"
  shows "\<exists>k'. sched_next_rr k = Some k' \<and>
    sched_inv k' fq (snd (pick i (requeues k) (current k) rq)) bq kids i \<and>
    current k' = fst (pick i (requeues k) (current k) rq) \<and>
    ticks_since_last_switch k' = 0 \<and> sched_frame k k'"
proof (cases rq)
  case Nil
  then show ?thesis using sched_next_rr_idle[of k fq bq kids i] pre by (simp add: pick_def)
next
  case (Cons n rs)
  let ?rq = "snd (pick i (requeues k) (current k) (n # rs))"
  note pre = pre[unfolded Cons]
  obtain k' h where k': "sched_next_rr k = Some k'" "switched (handed_over n k h) n k'"
      "lists_rep h (family fq ?rq bq kids)"
    using sched_next_rr_handover[OF pre] by blast
  have n: "n \<noteq> current k" "idle_task k = Some i" "PID (task k i) = 0" "i \<noteq> n"
      "dir_pages_baseAddr (task k n) = Some n"
    using pre by (auto simp: sched_pre_def ready_ok_def parked_def)
  note r = handover_result[OF k'(2) n(1)] and q = sched_next_rr_queues[OF pre k'(2)]
  have "PID (task k' i) = 0" using n(3,4) by (auto simp: r(1))
  then have "sched_inv k' fq ?rq bq kids i"
    unfolding sched_inv_def queues_ok_def cpu_ok_def r(2-4,6-8)
    using k'(3) q n by simp
  then show ?thesis using k'(1) r(3,5,9) Cons by (simp add: pick_def)
qed

subsection \<open>The scheduler called for a running process\<close>

text \<open>What \<open>sched_inv\<close> reads of the state.\<close>

definition same_view :: "task_struct \<Rightarrow> task_struct \<Rightarrow> bool" where
  "same_view p q \<longleftrightarrow> PID p = PID q \<and> dir_pages_baseAddr p = dir_pages_baseAddr q \<and> state p = state q \<and>
     kernel_esp0 p = kernel_esp0 q"

lemma sched_inv_cong:
  assumes inv: "sched_inv k fq rq bq kids i"
    and t: "\<And>t. same_view (task k' t) (task k t)" and s: "\<And>t. t \<noteq> current k \<Longrightarrow> stack k' t = stack k t"
    and f: "heap k' = heap k" "idle_task k' = idle_task k" "current k' = current k"
      "tss_esp0 k' = tss_esp0 k" "msr_esp k' = msr_esp k" "cr3 (mm k') = cr3 (mm k)"
  shows "sched_inv k' fq rq bq kids i"
proof -
  have v: "PID (task k' t) = PID (task k t)" "state (task k' t) = state (task k t)"
      "dir_pages_baseAddr (task k' t) = dir_pages_baseAddr (task k t)" for t
    using t[of t] by (simp_all add: same_view_def)
  have "parked k' t = parked k t" if "t \<noteq> current k" for t
    by (rule parked_cong) (use t[of t] s[OF that] in \<open>simp_all add: same_view_def\<close>)
  then have p: "parked k' t" if "t \<noteq> current k" "parked k t" for t using that by simp
  have q: "queues_ok k fq rq bq kids i" "cpu_ok k" and c: "current k \<notin> set (fq @ rq @ bq)"
    using inv by (simp_all add: sched_inv_def)
  have "ready_ok k' t" if "t \<in> set rq" for t
  proof -
    have "ready_ok k t" "t \<noteq> current k" using q(1) c that by (auto simp: queues_ok_def)
    then show ?thesis using p[of t] by (simp add: ready_ok_def v)
  qed
  moreover have "blocked_ok k' t" if "t \<in> set bq" for t
  proof -
    have "blocked_ok k t" "t \<noteq> current k" using q(1) c that by (auto simp: queues_ok_def)
    then show ?thesis using p[of t] by (simp add: blocked_ok_def v)
  qed
  ultimately have "queues_ok k' fq rq bq kids i" "cpu_ok k'"
    using q f by (simp_all add: queues_ok_def cpu_ok_def v)
  then show ?thesis
    using inv p[of i] f(3) unfolding sched_inv_def running_ok_def v by (simp split: if_splits)
qed

definition expired :: "kstate \<Rightarrow> bool" where
  "expired k \<longleftrightarrow> quantum (task k (current k)) < ticks_since_last_switch k"

definition rr_decide :: "nat \<Rightarrow> nat \<Rightarrow> bool \<Rightarrow> nat list \<Rightarrow> nat \<times> nat list" where
  "rr_decide i c ex rq = (if rq \<noteq> [] \<and> (c = i \<or> ex) then pick i (c \<noteq> i) c rq else (c, rq))"

lemma sched_pre_of_inv:
  assumes inv: "sched_inv k fq rq bq kids i" and ne: "rq \<noteq> []"
    and e: "7 \<le> snd (esp k)" "snd (esp k) \<le> KERNEL_STACK_SIZE"
  shows "sched_pre k fq rq bq kids i" "requeues k \<longleftrightarrow> current k \<noteq> i"
proof -
  have c: "current k \<notin> set (fq @ rq @ bq)" using inv by (simp add: sched_inv_def)
  show req: "requeues k \<longleftrightarrow> current k \<noteq> i"
    using inv by (auto simp: requeues_def sched_inv_def queues_ok_def running_ok_def split: if_splits)
  show "sched_pre k fq rq bq kids i"
    unfolding sched_pre_def req
    using inv ne e c by (simp add: sched_inv_def queues_ok_def cpu_ok_def running_ok_def split: if_splits)
qed

lemma update_sched_data_fields [simp]:
  "heap (update_sched_data_rr k) = heap k" "esp (update_sched_data_rr k) = esp k"
  "current (update_sched_data_rr k) = current k" "mm (update_sched_data_rr k) = mm k"
  "stack (update_sched_data_rr k) = stack k" "cbuff (update_sched_data_rr k) = cbuff k"
  "next_pid (update_sched_data_rr k) = next_pid k" "zeos_ticks (update_sched_data_rr k) = zeos_ticks k"
  "io (update_sched_data_rr k) = io k"
  "task1_task (update_sched_data_rr k) = task1_task k" "idle_task (update_sched_data_rr k) = idle_task k"
  "ticks_since_last_switch (update_sched_data_rr k) = ticks_since_last_switch k"
  "task (update_sched_data_rr k) = (task k)(current k :=
     (task k (current k))\<lparr>nr_ticks := ticks_since_last_switch k\<rparr>)"
  by (simp_all add: update_sched_data_rr_def)

lemma sched_inv_update_data:
  "sched_inv k fq rq bq kids i \<Longrightarrow> sched_inv (update_sched_data_rr k) fq rq bq kids i"
  by (erule sched_inv_cong) (simp_all add: same_view_def update_sched_data_rr_def)

lemma needs_sched_rr_running:
  assumes inv: "sched_inv k fq rq bq kids i"
  shows "needs_sched_rr (update_sched_data_rr k) \<longleftrightarrow> rq \<noteq> [] \<and> (current k = i \<or> expired k)"
proof -
  have l: "lists_rep (heap k) (family fq rq bq kids)" using inv by (simp add: sched_inv_def queues_ok_def)
  have p: "current k = i \<Longrightarrow> PID (task k i) = 0"
      "current k \<noteq> i \<Longrightarrow> PID (task k (current k)) > 0 \<and> state (task k (current k)) = ST_RUN"
    using inv by (auto simp: sched_inv_def queues_ok_def running_ok_def)
  show ?thesis
    using p ready_empty[OF l]
    by (cases "current k = i") (auto simp: needs_sched_rr_def Let_def get_quantum_def expired_def)
qed

text \<open>What a call of the scheduler keeps: the frame of \<open>sched_frame\<close> up to the tick count it stores.\<close>

definition tick_frame :: "kstate \<Rightarrow> kstate \<Rightarrow> bool" where
  "tick_frame k k' \<longleftrightarrow> (\<forall>t. PID (task k' t) = PID (task k t) \<and> quantum (task k' t) = quantum (task k t) \<and>
       parent (task k' t) = parent (task k t) \<and> pending_unblocks (task k' t) = pending_unblocks (task k t)) \<and>
     (\<forall>t. t \<noteq> current k \<longrightarrow> stack k' t = stack k t) \<and>
     mm k' = (mm k)\<lparr>cr3 := cr3 (mm k')\<rparr> \<and> cbuff k' = cbuff k \<and> next_pid k' = next_pid k \<and>
     zeos_ticks k' = zeos_ticks k \<and> task1_task k' = task1_task k \<and>
     (cursor_ok (io k) \<longrightarrow> cursor_ok (io k'))"

text \<open>The part of it that does not mention stacks and time.\<close>

definition proc_frame :: "kstate \<Rightarrow> kstate \<Rightarrow> bool" where
  "proc_frame k k' \<longleftrightarrow> (\<forall>t. PID (task k' t) = PID (task k t) \<and> quantum (task k' t) = quantum (task k t) \<and>
       parent (task k' t) = parent (task k t) \<and> pending_unblocks (task k' t) = pending_unblocks (task k t)) \<and>
     mm k' = (mm k)\<lparr>cr3 := cr3 (mm k')\<rparr> \<and> cbuff k' = cbuff k \<and> next_pid k' = next_pid k \<and>
     (cursor_ok (io k) \<longrightarrow> cursor_ok (io k'))"

lemma tick_frame_proc: "tick_frame k k' \<Longrightarrow> proc_frame k k'"
  by (simp add: tick_frame_def proc_frame_def)

lemma tick_frame_update:
  "sched_frame (update_sched_data_rr k) k' \<Longrightarrow> tick_frame k k'"
  "tick_frame k (update_sched_data_rr k)"
  unfolding sched_frame_def tick_frame_def same_pcb_def by simp_all

lemma schedule_running:
  assumes inv: "sched_inv k fq rq bq kids i"
    and e: "7 \<le> snd (esp k)" "snd (esp k) \<le> KERNEL_STACK_SIZE"
  shows "\<exists>k'. schedule k = Some k' \<and>
    sched_inv k' fq (snd (rr_decide i (current k) (expired k) rq)) bq kids i \<and>
    current k' = fst (rr_decide i (current k) (expired k) rq) \<and>
    ticks_since_last_switch k' =
      (if rq \<noteq> [] \<and> (current k = i \<or> expired k) then 0 else ticks_since_last_switch k) \<and>
    tick_frame k k'"
proof (cases "rq \<noteq> [] \<and> (current k = i \<or> expired k)")
  case True
  let ?k = "update_sched_data_rr k"
  note inv' = sched_inv_update_data[OF inv]
  have pre: "sched_pre ?k fq rq bq kids i" "requeues ?k \<longleftrightarrow> current k \<noteq> i"
    using sched_pre_of_inv[OF inv'] True e by simp_all
  obtain k' where k': "sched_next_rr ?k = Some k'"
      "sched_inv k' fq (snd (pick i (current k \<noteq> i) (current k) rq)) bq kids i"
      "current k' = fst (pick i (current k \<noteq> i) (current k) rq)"
      "ticks_since_last_switch k' = 0" "sched_frame ?k k'"
    using sched_next_rr_pick[OF pre(1)] unfolding pre(2) by auto
  have "schedule k = Some k'"
    using needs_sched_rr_running[OF inv] True k'(1) by (simp add: schedule_def Let_def)
  then show ?thesis using k' True tick_frame_update(1)[OF k'(5)] by (simp add: rr_decide_def)
next
  case False
  then have "schedule k = Some (update_sched_data_rr k)"
    using needs_sched_rr_running[OF inv] by (auto simp: schedule_def Let_def)
  moreover have d: "rr_decide i (current k) (expired k) rq = (current k, rq)"
    using False by (auto simp: rr_decide_def)
  ultimately show ?thesis
    unfolding d using False sched_inv_update_data[OF inv] tick_frame_update(2) by auto
qed

subsection \<open>Masking the address of a list entry\<close>

lemma mask_page: "(w::DWord) AND 0xFFFFF000 = push_bit 12 (drop_bit 12 w)"
proof -
  have "(0xFFFFF000::DWord) = push_bit 12 (mask 20)" by (simp add: mask_eq_exp_minus_1)
  moreover have "w AND push_bit 12 (mask 20) = push_bit 12 (drop_bit 12 w)"
    by (rule bit_word_eqI) (auto simp: bit_simps dest: bit_imp_le_length)
  ultimately show ?thesis by simp
qed

lemma anchor_mask:
  assumes "p + i < 2 ^ 20" "list_head_to_task_struct l = Some i"
  shows "anchor_addr (of_nat (4096 * p)) l AND 0xFFFFF000 = of_nat (4096 * (p + i))"
proof -
  have off: "anchor_offset l < 4096" by (simp add: anchor_offset_def split: anchor.split)
  have a: "anchor_addr (of_nat (4096 * p)) l = of_nat (4096 * (p + i) + anchor_offset l)"
    using assms(2) by (simp add: anchor_addr_def algebra_simps)
  have z: "push_bit 12 (of_nat (p + i) :: DWord) = of_nat (4096 * (p + i))"
    using addr_of_page[OF assms(1), of 0] by (simp del: of_nat_add of_nat_mult)
  show ?thesis unfolding mask_page a page_of_addr[OF assms(1) off] z ..
qed

subsection \<open>Initialisation of the queues\<close>

text \<open>All PCBs \<open>< n\<close> marked invalid.\<close>

definition invalid_pids :: "nat \<Rightarrow> (nat \<Rightarrow> task_struct) \<Rightarrow> nat \<Rightarrow> task_struct" where
  "invalid_pids n ts t = (if t < n then (ts t)\<lparr>PID := -1\<rparr> else ts t)"

lemma invalid_pids_Suc: "(invalid_pids n ts)(n := (invalid_pids n ts n)\<lparr>PID := -1\<rparr>) = invalid_pids (Suc n) ts"
  by (auto simp: invalid_pids_def fun_eq_iff less_Suc_eq)

lemma init_sched_loop:
  assumes "lists_rep (heap k) [FreeQ \<mapsto> []]"
  shows "\<exists>h. fold (\<lambda>i r. Option.bind r (\<lambda>k.
      on_heap (list_add (Node i) FreeQ) (upd_task i (\<lambda>p. p\<lparr>PID := -1\<rparr>) k))) [0..<n] (Some k) =
      Some (k\<lparr>task := invalid_pids n (task k), heap := h\<rparr>) \<and>
    lists_rep h [FreeQ \<mapsto> map Node (rev [0..<n])]"
proof (induction n)
  case 0
  have "invalid_pids 0 (task k) = task k" by (simp add: invalid_pids_def fun_eq_iff)
  then show ?case using assms by (intro exI[of _ "heap k"]) (simp add: fun_upd_def)
next
  case (Suc n)
  then obtain h where h: "fold (\<lambda>i r. Option.bind r (\<lambda>k.
      on_heap (list_add (Node i) FreeQ) (upd_task i (\<lambda>p. p\<lparr>PID := -1\<rparr>) k))) [0..<n] (Some k) =
      Some (k\<lparr>task := invalid_pids n (task k), heap := h\<rparr>)"
    "lists_rep h [FreeQ \<mapsto> map Node (rev [0..<n])]" by blast
  have "fresh [FreeQ \<mapsto> map Node (rev [0..<n])] (Node n)" by (auto simp: fresh_def)
  then obtain h' where h': "list_add (Node n) FreeQ h = Some h'"
      "lists_rep h' ([FreeQ \<mapsto> map Node (rev [0..<n])](FreeQ \<mapsto> Node n # map Node (rev [0..<n])))"
    using lists_rep_add[OF h(2) fun_upd_same] by blast
  have "lists_rep h' [FreeQ \<mapsto> map Node (rev [0..<Suc n])]" using h'(2) by simp
  then show ?case
    using h(1) h'(1)
    by (intro exI[of _ h'] conjI) (simp add: on_heap_def upd_task_def invalid_pids_Suc)
qed

lemma init_sched_result:
  "\<exists>h. init_sched k = Some (k\<lparr>task := invalid_pids NR_TASKS (task k), heap := h\<rparr>) \<and>
     lists_rep h (family (rev [0..<NR_TASKS]) [] [] Map.empty)"
proof -
  let ?k = "k\<lparr>heap := INIT_LIST_HEAD FreeQ (heap k)\<rparr>"
  have "lists_rep (heap ?k) [FreeQ \<mapsto> []]"
    by (simp add: lists_rep_def INIT_LIST_HEAD_dlist)
  from init_sched_loop[OF this, of NR_TASKS] obtain h where h:
    "fold (\<lambda>i r. Option.bind r (\<lambda>k.
      on_heap (list_add (Node i) FreeQ) (upd_task i (\<lambda>p. p\<lparr>PID := -1\<rparr>) k))) [0..<NR_TASKS] (Some ?k) =
      Some (?k\<lparr>task := invalid_pids NR_TASKS (task ?k), heap := h\<rparr>)"
    "lists_rep h [FreeQ \<mapsto> map Node (rev [0..<NR_TASKS])]" by blast
  let ?L = "[FreeQ \<mapsto> map Node (rev [0..<NR_TASKS])]"
  have "fresh ?L ReadyQ" by (auto simp: fresh_def)
  note l1 = lists_rep_init[OF h(2) this]
  have "fresh (?L(ReadyQ \<mapsto> [])) BlockedQ" by (auto simp: fresh_def)
  note l2 = lists_rep_init[OF l1 this]
  have fam: "?L(ReadyQ \<mapsto> [], BlockedQ \<mapsto> []) = family (rev [0..<NR_TASKS]) [] [] Map.empty"
    by (simp add: family_def fun_eq_iff split: anchor.split)
  show ?thesis
    unfolding init_sched_def Let_def h(1)
    by (intro exI[of _ "INIT_LIST_HEAD BlockedQ (INIT_LIST_HEAD ReadyQ h)"])
      (use l2[unfolded fam] in simp)
qed

lemma free_pop:
  assumes "lists_rep (heap k) (family (t # fq) rq bq kids)"
  shows "\<exists>h. list_first (heap k) FreeQ = Some (Node t) \<and> on_heap (list_del (Node t)) k = Some (k\<lparr>heap := h\<rparr>) \<and>
    lists_rep h (family fq rq bq kids)"
proof -
  have "lists_rep (heap k) (family ([] @ t # fq) rq bq kids)" using assms by simp
  from queue_del(1)[OF this] show ?thesis
    using free_first[OF assms] by (auto simp: on_heap_def)
qed

lemma init_sons:
  assumes "lists_rep h (family fq rq bq kids)" "kids t = None"
  shows "lists_rep (INIT_LIST_HEAD (Sons t) h) (family fq rq bq (kids(t \<mapsto> [])))"
  using lists_rep_init[OF assms(1) fresh_Sons[where kids = kids and t = t, OF assms(2)]]
    family_upd(4)[of fq rq bq kids t "[]"] by simp

lemma init_idle_result:
  assumes "lists_rep (heap k) (family (t # fq) rq bq kids)" "kids t = None"
  shows "\<exists>k'. init_idle k = Some k' \<and> lists_rep (heap k') (family fq rq bq (kids(t \<mapsto> []))) \<and>
    task k' = (task k)(t := (task k t)\<lparr>PID := 0, nr_ticks := 0, dir_pages_baseAddr := Some t,
      kernel_esp0 := KPtr t 1022\<rparr>) \<and> idle_task k' = Some t \<and> stack k' t 1023 = K_cpu_idle \<and>
    mm k' = mm k \<and> esp k' = esp k \<and> next_pid k' = next_pid k \<and> cbuff k' = cbuff k \<and>
    io k' = io k \<and> zeos_ticks k' = zeos_ticks k"
proof -
  obtain h where h: "list_first (heap k) FreeQ = Some (Node t)"
      "on_heap (list_del (Node t)) k = Some (k\<lparr>heap := h\<rparr>)" "lists_rep h (family fq rq bq kids)"
    using free_pop[OF assms(1)] by blast
  show ?thesis
    unfolding init_idle_def h(1) using init_sons[OF h(3) assms(2)] h(2)
    by (simp add: Let_def allocate_DIR_def)
qed

lemma init_task1_result:
  assumes "lists_rep (heap k) (family (t # fq) rq bq kids)" "kids t = None"
    and "dirs_ok (mm k)" "t < NR_TASKS"
  shows "\<exists>k'. init_task1 k = Some k' \<and> lists_rep (heap k') (family fq rq bq (kids(t \<mapsto> []))) \<and>
    task k' = (task k)(t := (task k t)\<lparr>PID := 1, nr_ticks := 0, state := ST_RUN, pending_unblocks := 0,
      dir_pages_baseAddr := Some t, quantum := INIT_QUANTUM\<rparr>) \<and>
    mm k' = set_cr3 (Some t) (set_user_pages (row_addr (mm k) t) (mm k)) \<and>
    tss_esp0 k' = (t, KERNEL_STACK_SIZE) \<and> msr_esp k' = (t, KERNEL_STACK_SIZE) \<and>
    task1_task k' = Some t \<and> ticks_since_last_switch k' = 0 \<and> idle_task k' = idle_task k \<and>
    stack k' = stack k \<and> esp k' = esp k \<and> next_pid k' = next_pid k \<and> cbuff k' = cbuff k \<and>
    io k' = io k \<and> zeos_ticks k' = zeos_ticks k"
proof -
  obtain h where h: "list_first (heap k) FreeQ = Some (Node t)"
      "on_heap (list_del (Node t)) k = Some (k\<lparr>heap := h\<rparr>)" "lists_rep h (family fq rq bq kids)"
    using free_pop[OF assms(1)] by blast
  show ?thesis
    unfolding init_task1_def h(1) using init_sons[OF h(3) assms(2)] h(2) get_PT_row[OF assms(3,4)]
    by (simp add: Let_def allocate_DIR_def get_PT_def get_DIR_def)
qed

end
