(* ===== verification/Zeos_Interrupt.thy ===== *)
theory Zeos_Interrupt
  imports Zeos_Sched
begin

text \<open>
  Interrupts, \<^verbatim>\<open>interrupt.c\<close>: the interrupt descriptor table and the clock and keyboard service
  routines.

  \<^verbatim>\<open>set_handlers\<close> (in \<^verbatim>\<open>libzeos.a\<close>, not part of the sources) installs the exception handlers;
  it is a parameter of \<open>setIdt\<close>, as are the addresses of the assembly handlers.
\<close>

subsection \<open>The interrupt descriptor table\<close>

record idt_state =
  idt :: "nat \<Rightarrow> Gate"
  idtR :: Register
  idtr :: Register
  msrs :: "DWord \<Rightarrow> DWord \<times> DWord"

definition setInterruptHandler :: "nat \<Rightarrow> DWord \<Rightarrow> int \<Rightarrow> idt_state \<Rightarrow> idt_state" where
  "setInterruptHandler vector handler maxAccessibleFromPL s =
     (let flags = push_bit 13 (word_of_int maxAccessibleFromPL :: Word16) OR 0x8E00
      in s\<lparr>idt := (idt s)(vector := \<lparr>lowOffset = lowWord handler, segmentSelector = KERNEL_CS,
            gate_flags = flags, highOffset = highWord handler\<rparr>)\<rparr>)"

definition setTrapHandler :: "nat \<Rightarrow> DWord \<Rightarrow> int \<Rightarrow> idt_state \<Rightarrow> idt_state" where
  "setTrapHandler vector handler maxAccessibleFromPL s =
     (let flags = push_bit 13 (word_of_int maxAccessibleFromPL :: Word16) OR 0x8E00
      in s\<lparr>idt := (idt s)(vector := \<lparr>lowOffset = lowWord handler, segmentSelector = KERNEL_CS,
            gate_flags = flags, highOffset = highWord handler\<rparr>)\<rparr>)"

definition set_msr :: "DWord \<Rightarrow> DWord \<Rightarrow> DWord \<Rightarrow> idt_state \<Rightarrow> idt_state" where
  "set_msr msr_addr low high s = s\<lparr>msrs := (msrs s)(msr_addr := (high, low))\<rparr>"

definition set_sysenter_msrs :: "DWord \<Rightarrow> DWord \<Rightarrow> idt_state \<Rightarrow> idt_state" where
  "set_sysenter_msrs initial_esp sys_call_handler_sysenter s =
     set_msr 0x176 sys_call_handler_sysenter 0
       (set_msr 0x175 initial_esp 0 (set_msr 0x174 (ucast KERNEL_CS) 0 s))"

definition set_idt_reg :: "Register \<Rightarrow> idt_state \<Rightarrow> idt_state" where
  "set_idt_reg r s = s\<lparr>idtr := r\<rparr>"

definition setIdt ::
  "DWord \<Rightarrow> (idt_state \<Rightarrow> idt_state) \<Rightarrow> DWord \<Rightarrow> DWord \<Rightarrow> DWord \<Rightarrow> DWord \<Rightarrow> idt_state \<Rightarrow> idt_state" where
  "setIdt idt_addr set_handlers clk_handler kbd_handler initial_esp sys_call_handler_sysenter s =
     (let s = s\<lparr>idtR := \<lparr>reg_limit = 256 * 8 - 1, reg_base = idt_addr\<rparr>\<rparr>;
          s = set_handlers s;
          s = setInterruptHandler 32 clk_handler 0 s;
          s = setInterruptHandler 33 kbd_handler 0 s;
          s = set_sysenter_msrs initial_esp sys_call_handler_sysenter s
      in set_idt_reg (idtR s) s)"

definition initCircBuff :: "kstate \<Rightarrow> kstate" where
  "initCircBuff k = k\<lparr>cbuff := init (cbuff k)\<rparr>"

subsection \<open>Entering the kernel\<close>

text \<open>
  An interrupt taken in user mode starts on the stack the TSS names; the idle process runs in
  kernel mode and keeps its stack. The handler and the compiled C code push words: they fill
  the slots from \<open>e\<close> on with the arbitrary contents \<open>ws\<close>, and \<open>e\<close> is where \<^verbatim>\<open>%esp\<close> points when
  \<^verbatim>\<open>task_switch\<close> is called, if it is called.
\<close>

definition on_stack :: "nat \<Rightarrow> nat \<Rightarrow> (nat \<Rightarrow> kword) \<Rightarrow> kstate \<Rightarrow> kstate" where
  "on_stack t e ws k = k\<lparr>esp := (t, e),
     stack := (stack k)(t := (\<lambda>s. if e \<le> s then ws s else stack k t s))\<rparr>"

definition interrupt_entry :: "nat \<Rightarrow> (nat \<Rightarrow> kword) \<Rightarrow> kstate \<Rightarrow> kstate" where
  "interrupt_entry e ws k =
     on_stack (if idle_task k = Some (current k) then current k else fst (tss_esp0 k)) e ws k"

subsection \<open>Service routines\<close>

definition clk_routine :: "kstate \<Rightarrow> kstate option" where
  "clk_routine k = schedule (k\<lparr>zeos_ticks := wrap32 (zeos_ticks k + 1),
     ticks_since_last_switch := ticks_since_last_switch k + 1\<rparr>)"

text \<open>
  The key map; the four characters outside ASCII are two-byte constants in the source file, of
  which the low byte is stored.
\<close>

definition char_map :: "Byte list" where
  "char_map = [0, 0, 49, 50, 51, 52, 53, 54, 55, 56, 57, 48, 39, 0xA1, 0, 0,
     113, 119, 101, 114, 116, 121, 117, 105, 111, 112, 96, 43, 0, 0, 97, 115,
     100, 102, 103, 104, 106, 107, 108, 0xB1, 0, 0xBA, 0, 0xA7, 122, 120, 99, 118,
     98, 110, 109, 44, 46, 45, 0, 42, 0, 0, 0, 0, 0, 0, 0, 0,
     0, 0, 0, 0, 0, 0, 0, 55, 56, 57, 45, 52, 53, 54, 43, 49,
     50, 51, 48, 0, 0, 0, 60, 0, 0, 0, 0, 0, 0, 0, 0, 0, 0, 0]"

text \<open>
  The scan code is not checked against the size of the map: the codes 98 to 127 read the bytes
  that the linker placed behind it, \<open>behind\<close>. The shifts \<^verbatim>\<open>(key << 1) >> 1\<close> happen in \<^verbatim>\<open>int\<close> and
  change nothing.
\<close>

definition kbd_routine :: "(nat \<Rightarrow> Byte) \<Rightarrow> Byte \<Rightarrow> kstate \<Rightarrow> kstate" where
  "kbd_routine behind key k =
     (let is_break = (key AND 0x80 \<noteq> 0); scan_code = unat key in
      if \<not> is_break then
        let character = (if scan_code < length char_map then char_map ! scan_code else behind scan_code)
        in k\<lparr>cbuff := snd (put (cbuff k) character)\<rparr>
      else k)"

subsection \<open>Gates\<close>

lemma setTrapHandler_same: "setTrapHandler = setInterruptHandler"
  by (simp add: fun_eq_iff setTrapHandler_def setInterruptHandler_def)

definition gate_offset :: "Gate \<Rightarrow> DWord" where
  "gate_offset g = ucast (lowOffset g) OR push_bit 16 (ucast (highOffset g))"

lemma setInterruptHandler_gate:
  fixes v :: nat and h :: DWord and s :: idt_state
  assumes "0 \<le> pl" "pl \<le> 3"
  defines "s' \<equiv> setInterruptHandler v h pl s"
  shows "gate_offset (idt s' v) = h" "segmentSelector (idt s' v) = KERNEL_CS"
    "gate_flags (idt s' v) = word_of_int (0x8E00 + 0x2000 * pl)"
    "w \<noteq> v \<Longrightarrow> idt s' w = idt s w" "idtR s' = idtR s" "idtr s' = idtr s" "msrs s' = msrs s"
proof -
  have pl: "pl \<in> {0, 1, 2, 3}" using assms(1,2) by auto
  then show "gate_flags (idt s' v) = word_of_int (0x8E00 + 0x2000 * pl)"
    by (auto simp: s'_def setInterruptHandler_def Let_def push_bit_eq_mult)
qed (simp_all add: s'_def setInterruptHandler_def Let_def gate_offset_def slices_offset)

lemma gate_set_msr [simp]: "idt (set_msr a l h s) = idt s" "idtR (set_msr a l h s) = idtR s"
  "idtr (set_msr a l h s) = idtr s"
  by (simp_all add: set_msr_def)

subsection \<open>The clock drives the round robin\<close>

text \<open>The abstract scheduler: running process, ready queue, ticks since the last switch.\<close>

fun rr_tick :: "nat \<Rightarrow> (nat \<Rightarrow> DWord) \<Rightarrow> nat \<times> nat list \<times> DWord \<Rightarrow> nat \<times> nat list \<times> DWord" where
  "rr_tick i q (c, rq, w) =
     (if rq \<noteq> [] \<and> (c = i \<or> q c < w + 1)
      then (fst (pick i (c \<noteq> i) c rq), snd (pick i (c \<noteq> i) c rq), 0)
      else (c, rq, w + 1))"

definition clock_tick :: "nat \<times> (nat \<Rightarrow> kword) \<Rightarrow> kstate \<Rightarrow> kstate option" where
  "clock_tick e k = clk_routine (interrupt_entry (fst e) (snd e) k)"

primrec clock_run :: "(nat \<times> (nat \<Rightarrow> kword)) list \<Rightarrow> kstate \<Rightarrow> kstate option" where
  "clock_run [] k = Some k"
| "clock_run (e # es) k = Option.bind (clock_tick e k) (clock_run es)"

definition slot_ok :: "nat \<times> (nat \<Rightarrow> kword) \<Rightarrow> bool" where
  "slot_ok e \<longleftrightarrow> 7 \<le> fst e \<and> fst e \<le> KERNEL_STACK_SIZE"

definition quanta :: "kstate \<Rightarrow> nat \<Rightarrow> DWord" where
  "quanta k t = quantum (task k t)"

lemma entry_task: "sched_inv k fq rq bq kids i \<Longrightarrow> interrupt_entry e ws k = on_stack (current k) e ws k"
  by (simp add: interrupt_entry_def sched_inv_def cpu_ok_def)

lemma sched_inv_on_stack:
  "sched_inv k fq rq bq kids i \<Longrightarrow> sched_inv (on_stack (current k) e ws k) fq rq bq kids i"
  by (erule sched_inv_cong) (simp_all add: same_view_def on_stack_def current_def)

lemma clock_tick_refines:
  assumes inv: "sched_inv k fq rq bq kids i" and e: "slot_ok e"
  shows "\<exists>k' rq'. clock_tick e k = Some k' \<and> sched_inv k' fq rq' bq kids i \<and>
    (current k', rq', ticks_since_last_switch k') =
      rr_tick i (quanta k) (current k, rq, ticks_since_last_switch k) \<and>
    quanta k' = quanta k \<and> zeos_ticks k' = wrap32 (zeos_ticks k + 1) \<and> proc_frame k k'"
proof -
  let ?k = "(on_stack (current k) (fst e) (snd e) k)\<lparr>zeos_ticks := wrap32 (zeos_ticks k + 1),
     ticks_since_last_switch := ticks_since_last_switch k + 1\<rparr>"
  have c: "current ?k = current k" by (simp add: on_stack_def current_def)
  have s: "7 \<le> snd (esp ?k)" "snd (esp ?k) \<le> KERNEL_STACK_SIZE"
    using e by (simp_all add: slot_ok_def on_stack_def)
  have inv': "sched_inv ?k fq rq bq kids i"
    by (rule sched_inv_cong[OF sched_inv_on_stack[OF inv, of "fst e" "snd e"]])
      (simp_all add: same_view_def current_def)
  have ex: "expired ?k \<longleftrightarrow> quanta k (current k) < ticks_since_last_switch k + 1"
    unfolding expired_def c by (simp add: quanta_def on_stack_def)
  have t: "clock_tick e k = schedule ?k"
    unfolding clock_tick_def clk_routine_def entry_task[OF inv] by (simp add: on_stack_def)
  obtain k' where k': "schedule ?k = Some k'"
      "sched_inv k' fq (snd (rr_decide i (current k) (expired ?k) rq)) bq kids i"
      "current k' = fst (rr_decide i (current k) (expired ?k) rq)"
      "ticks_since_last_switch k' =
        (if rq \<noteq> [] \<and> (current k = i \<or> expired ?k) then 0 else ticks_since_last_switch k + 1)"
      "tick_frame ?k k'"
    using schedule_running[OF inv' s] unfolding c by auto
  have f: "quanta k' = quanta k" "zeos_ticks k' = wrap32 (zeos_ticks k + 1)"
    using k'(5) by (auto simp: tick_frame_def quanta_def on_stack_def fun_eq_iff)
  have "proc_frame k k'"
    using tick_frame_proc[OF k'(5)] by (simp add: proc_frame_def on_stack_def)
  note f = f this
  show ?thesis
    unfolding t by (intro exI[of _ k'] exI[of _ "snd (rr_decide i (current k) (expired ?k) rq)"])
      (use k'(1-4) f in \<open>simp add: rr_decide_def ex\<close>)
qed

lemma clock_run_refines:
  "sched_inv k fq rq bq kids i \<Longrightarrow> \<forall>e\<in>set es. slot_ok e \<Longrightarrow>
     \<exists>k' rq'. clock_run es k = Some k' \<and> sched_inv k' fq rq' bq kids i \<and>
       (current k', rq', ticks_since_last_switch k') =
         (rr_tick i (quanta k) ^^ length es) (current k, rq, ticks_since_last_switch k)"
proof (induction es arbitrary: k rq)
  case Nil
  then show ?case by auto
next
  case (Cons e es)
  obtain k1 rq1 where k1: "clock_tick e k = Some k1" "sched_inv k1 fq rq1 bq kids i"
      "(current k1, rq1, ticks_since_last_switch k1) =
        rr_tick i (quanta k) (current k, rq, ticks_since_last_switch k)" "quanta k1 = quanta k"
    using clock_tick_refines[OF Cons.prems(1), of e] Cons.prems(2) by auto
  obtain k2 rq2 where "clock_run es k1 = Some k2" "sched_inv k2 fq rq2 bq kids i"
      "(current k2, rq2, ticks_since_last_switch k2) =
        (rr_tick i (quanta k1) ^^ length es) (current k1, rq1, ticks_since_last_switch k1)"
    using Cons.IH[OF k1(2)] Cons.prems(2) by auto
  then show ?case using k1 by (auto simp: funpow_swap1)
qed

subsection \<open>Fairness of the abstract scheduler\<close>

lemma rr_tick_keeps:
  assumes "c \<noteq> i" "unat w + m \<le> unat (q c)"
  shows "(rr_tick i q ^^ m) (c, rq, w) = (c, rq, w + of_nat m)"
  using assms(2)
proof (induction m)
  case (Suc m)
  have b: "unat w + m < 2 ^ 32" using Suc.prems unat_DWord_less[of "q c"] by simp
  have "unat (of_nat m :: DWord) = m" by (rule unat_of_nat_DWord) (use b in simp)
  then have "unat (w + of_nat m + 1) = unat w + Suc m"
    using Suc.prems unat_DWord_less[of "q c"] by (subst unat_word_ariths, subst unat_word_ariths) simp
  then have "\<not> q c < w + of_nat m + 1" using Suc.prems by (simp add: word_less_nat_alt)
  then show ?case using Suc assms(1) by (simp add: ac_simps)
qed simp

text \<open>A process that competes for the CPU is switched out within its quantum plus two ticks.\<close>

lemma rr_slice:
  assumes "rq \<noteq> []" "unat (q c) + 2 < 2 ^ 32"
  shows "\<exists>n. 0 < n \<and> n \<le> unat (q c) + 2 \<and>
    (rr_tick i q ^^ n) (c, rq, w) = (fst (pick i (c \<noteq> i) c rq), snd (pick i (c \<noteq> i) c rq), 0)"
proof (cases "c = i \<or> q c < w + 1")
  case True
  then show ?thesis using assms(1) by (intro exI[of _ 1]) simp
next
  case False
  have slice: "\<exists>n. n \<le> unat (q c) + 1 \<and> (rr_tick i q ^^ n) (c, rq, v) =
      (fst (pick i (c \<noteq> i) c rq), snd (pick i (c \<noteq> i) c rq), 0)" if v: "unat v \<le> unat (q c)" for v
  proof -
    let ?m = "unat (q c) - unat v"
    have k: "(rr_tick i q ^^ ?m) (c, rq, v) = (c, rq, v + of_nat ?m)"
      by (rule rr_tick_keeps) (use False v in auto)
    have "v + of_nat ?m = q c" using v by (simp add: of_nat_diff)
    moreover have "q c < q c + 1"
      using assms(2) unfolding word_less_nat_alt by (subst unat_word_ariths) simp
    ultimately have "(rr_tick i q ^^ Suc ?m) (c, rq, v) =
        (fst (pick i (c \<noteq> i) c rq), snd (pick i (c \<noteq> i) c rq), 0)"
      using k assms(1) by simp
    then show ?thesis by (intro exI[of _ "Suc ?m"] conjI) auto
  qed
  have le: "unat (w + 1) \<le> unat (q c)" using False by (simp add: word_less_nat_alt not_less)
  obtain n where n: "n \<le> unat (q c) + 1" "(rr_tick i q ^^ n) (c, rq, w + 1) =
      (fst (pick i (c \<noteq> i) c rq), snd (pick i (c \<noteq> i) c rq), 0)"
    using slice[OF le] by blast
  have "rr_tick i q (c, rq, w) = (c, rq, w + 1)" using False by auto
  then have "(rr_tick i q ^^ Suc n) (c, rq, w) =
      (fst (pick i (c \<noteq> i) c rq), snd (pick i (c \<noteq> i) c rq), 0)"
    using n(2) by (simp add: funpow_swap1)
  then show ?thesis using n(1) by (intro exI[of _ "Suc n"]) simp
qed

lemma rr_slice_bound:
  assumes "rq \<noteq> []" "unat (q c) \<le> Q" "Q + 2 < 2 ^ 32"
  shows "\<exists>n \<le> Q + 2.
    (rr_tick i q ^^ n) (c, rq, w) = (fst (pick i (c \<noteq> i) c rq), snd (pick i (c \<noteq> i) c rq), 0)"
proof -
  have "unat (q c) + 2 < 2 ^ 32" using assms by linarith
  from rr_slice[where q = q and c = c, OF assms(1) this, of i w] obtain n where n: "n \<le> unat (q c) + 2"
    "(rr_tick i q ^^ n) (c, rq, w) = (fst (pick i (c \<noteq> i) c rq), snd (pick i (c \<noteq> i) c rq), 0)" by blast
  have "n \<le> Q + 2" using n(1) assms(2) by linarith
  with n(2) show ?thesis by blast
qed

lemma rr_fair:
  assumes "j < length rq" "\<forall>x\<in>set (c # rq). unat (q x) \<le> Q" "Q + 2 < 2 ^ 32"
  shows "\<exists>n \<le> Suc j * (Q + 2). fst ((rr_tick i q ^^ n) (c, rq, w)) = rq ! j"
  using assms(1,2)
proof (induction j arbitrary: c rq w)
  case 0
  then obtain x rs where rq: "rq = x # rs" by (cases rq) auto
  have "unat (q c) \<le> Q" using "0.prems"(2) by simp
  then obtain n where "n \<le> Q + 2" "(rr_tick i q ^^ n) (c, rq, w) =
      (fst (pick i (c \<noteq> i) c rq), snd (pick i (c \<noteq> i) c rq), 0)"
    using rr_slice_bound[of rq q c Q i w] assms(3) rq(1) by auto
  then show ?case using rq by (auto simp: pick_def)
next
  case (Suc j)
  then obtain x rs where rq: "rq = x # rs" "j < length rs" by (cases rq) auto
  have "unat (q c) \<le> Q" using Suc.prems(2) by simp
  then obtain n where n: "n \<le> Q + 2" "(rr_tick i q ^^ n) (c, rq, w) =
      (x, if c \<noteq> i then rs @ [c] else rs, 0)"
    using rr_slice_bound[of rq q c Q i w] assms(3) rq(1) by (auto simp: pick_def)
  let ?rq = "if c \<noteq> i then rs @ [c] else rs"
  have h: "j < length ?rq" "\<forall>y\<in>set (x # ?rq). unat (q y) \<le> Q" using Suc.prems(2) rq by auto
  obtain n' where n': "n' \<le> Suc j * (Q + 2)" "fst ((rr_tick i q ^^ n') (x, ?rq, 0)) = ?rq ! j"
    using Suc.IH[OF h, of 0] by blast
  have e: "?rq ! j = rq ! Suc j" using rq by (simp add: nth_append)
  have "fst ((rr_tick i q ^^ (n' + n)) (c, rq, w)) = rq ! Suc j"
    using n(2) n'(2) e by (simp add: funpow_add)
  moreover have "n' + n \<le> Suc (Suc j) * (Q + 2)" using n(1) n'(1) by simp
  ultimately show ?case by blast
qed

subsection \<open>Gates and keys\<close>

text \<open>A gate set by \<^verbatim>\<open>setInterruptHandler\<close> (or \<^verbatim>\<open>setTrapHandler\<close>, which sets the same gate)
  leads to the handler's full 32-bit address in the kernel code segment, is a present 32-bit
  interrupt gate of the requested privilege level, and no other vector changes.\<close>

lemma interrupt_gate_set:
  assumes "0 \<le> pl" "pl \<le> 3"
  shows "let s' = setInterruptHandler v h pl s in
    gate_offset (idt s' v) = h \<and> segmentSelector (idt s' v) = KERNEL_CS \<and>
    gate_flags (idt s' v) = word_of_int (0x8E00 + 0x2000 * pl) \<and> (\<forall>w. w \<noteq> v \<longrightarrow> idt s' w = idt s w) \<and>
    setTrapHandler v h pl s = s'"
  using setInterruptHandler_gate[OF assms, where v = v and h = h and s = s]
  by (simp add: setTrapHandler_same Let_def)

text \<open>A key press (scan code of the map, break bit clear) appends the key's character to the
  keyboard buffer unless it already holds 31 characters; a key release changes nothing; no
  other part of the kernel state is touched.\<close>

lemma keyboard_interrupt:
  assumes "cb_wf (cbuff k)" "unat key < 98 \<or> key AND 0x80 \<noteq> 0"
  shows "\<exists>cb'. kbd_routine behind key k = k\<lparr>cbuff := cb'\<rparr> \<and> cb_wf cb' \<and>
    cb_contents cb' = (if key AND 0x80 \<noteq> 0 \<or> length (cb_contents (cbuff k)) = 31
      then cb_contents (cbuff k) else cb_contents (cbuff k) @ [char_map ! unat key])"
proof (cases "key AND 0x80 \<noteq> 0")
  case True
  then show ?thesis using assms(1) by (intro exI[of _ "cbuff k"]) (simp add: kbd_routine_def)
next
  case False
  have "length char_map = 98" by (simp add: char_map_def)
  then have r: "kbd_routine behind key k = k\<lparr>cbuff := snd (put (cbuff k) (char_map ! unat key))\<rparr>"
    using False assms(2) by (simp add: kbd_routine_def Let_def)
  show ?thesis
    unfolding r using False put_room[OF assms(1), of "char_map ! unat key"] put_full[OF assms(1)]
      cb_contents_bound[OF assms(1)] assms(1)
    by (cases "length (cb_contents (cbuff k)) = 31") force+
qed

end
