(* ===== verification/Zeos_Space.thy ===== *)
theory Zeos_Space
  imports Zeos_Mm
begin

text \<open>
  Address spaces: who owns which frame. The invariant \<open>space_inv\<close> relates the frame byte map, the
  page tables and the shared pages through an owner map, and gives isolation: a data page of a
  process is mapped by no other process. Shared page 0 has frame 256, the first that is allocated and
  the one that \<^verbatim>\<open>free_frame\<close> never frees.
\<close>

datatype frame_owner = OData nat nat | OCode nat | OShared nat

subsection \<open>The invariant\<close>

definition fixed_owners :: "frame_owner set" where
  "fixed_owners = OCode ` {..<NUM_PAG_CODE} \<union> OShared ` {..<NUM_SHARED_PAGES}"

definition owners :: "nat set \<Rightarrow> frame_owner set" where
  "owners S = fixed_owners \<union> (\<Union>t\<in>S. OData t ` {..<NUM_PAG_DATA})"

text \<open>Frames of the owners \<open>R\<close>: distinct, in the part of memory \<^verbatim>\<open>alloc_frame\<close> manages, and exactly
  those the byte map marks.\<close>

definition frames_ok :: "mm_state \<Rightarrow> frame_owner set \<Rightarrow> (frame_owner \<Rightarrow> nat) \<Rightarrow> bool" where
  "frames_ok m R F \<longleftrightarrow> inj_on F R \<and> (\<forall>r\<in>R. 256 \<le> F r \<and> F r < 1024 \<and> even (F r)) \<and>
     (\<forall>f. 256 \<le> f \<and> f < 1024 \<and> even f \<longrightarrow> phys_mem m f = (if f \<in> F ` R then 1 else 0))"

text \<open>An entry above the user area: free, or a mapping of a shared page.\<close>

definition high_entry :: "mm_state \<Rightarrow> (frame_owner \<Rightarrow> nat) \<Rightarrow> page_table_entry \<Rightarrow> bool" where
  "high_entry m F e \<longleftrightarrow> e = 0 \<or> (\<exists>idx<NUM_SHARED_PAGES. e = mk_pte (of_nat (F (OShared idx))) 7)"

definition tables_ok :: "mm_state \<Rightarrow> frame_owner set \<Rightarrow> (frame_owner \<Rightarrow> nat) \<Rightarrow> bool" where
  "tables_ok m R F \<longleftrightarrow> dirs_ok m \<and>
     (\<forall>t<NR_TASKS. \<forall>p<NUM_PAG_KERNEL. pt_entry m t p = kernel_entry_of p) \<and>
     (\<forall>t<NR_TASKS. \<forall>j<NUM_PAG_DATA. OData t j \<in> R \<longrightarrow>
        pt_entry m t (PAG_LOG_INIT_DATA + j) = mk_pte (of_nat (F (OData t j))) 7) \<and>
     (\<forall>idx<NUM_SHARED_PAGES. sh_frame (shared_pages m idx) = int (F (OShared idx)))"

definition code_ok :: "mm_state \<Rightarrow> nat set \<Rightarrow> (frame_owner \<Rightarrow> nat) \<Rightarrow> bool" where
  "code_ok m S F \<longleftrightarrow> (\<forall>t\<in>S. \<forall>j<NUM_PAG_CODE.
     pt_entry m t (PAG_LOG_INIT_CODE + j) = mk_pte (of_nat (F (OCode j))) 5)"

definition high_ok :: "mm_state \<Rightarrow> (frame_owner \<Rightarrow> nat) \<Rightarrow> bool" where
  "high_ok m F \<longleftrightarrow> (\<forall>t<NR_TASKS. \<forall>p. USER_LAST_PAGE \<le> p \<and> p < TOTAL_PAGES \<longrightarrow> high_entry m F (pt_entry m t p))"

definition space_inv :: "mm_state \<Rightarrow> nat set \<Rightarrow> (frame_owner \<Rightarrow> nat) \<Rightarrow> bool" where
  "space_inv m S F \<longleftrightarrow> S \<subseteq> {..<NR_TASKS} \<and> frames_ok m (owners S) F \<and> tables_ok m (owners S) F \<and>
     code_ok m S F \<and> high_ok m F \<and> F (OShared 0) = NUM_PAG_KERNEL"

subsection \<open>There is always a free frame\<close>

lemma finite_owners: "S \<subseteq> {..<NR_TASKS} \<Longrightarrow> finite (owners S)"
  unfolding owners_def fixed_owners_def by (auto intro: finite_subset)

lemma card_owners: "S \<subseteq> {..<NR_TASKS} \<Longrightarrow> card (owners S) \<le> 218"
proof -
  assume S: "S \<subseteq> {..<NR_TASKS}"
  have cs: "card S \<le> 10" using card_mono[OF _ S] by simp
  have "card (\<Union>t\<in>S. OData t ` {..<20}) \<le> (\<Sum>t\<in>S. card (OData t ` {..<20::nat}))"
    by (rule card_UN_le) (use S finite_subset in auto)
  also have "\<dots> \<le> (\<Sum>t\<in>S. 20)" by (rule sum_mono) (use card_image_le[of "{..<20::nat}"] in auto)
  also have "\<dots> \<le> 200" using cs by simp
  finally have "card (\<Union>t\<in>S. OData t ` {..<20}) \<le> 200" .
  moreover have "card fixed_owners \<le> 18"
    unfolding fixed_owners_def
    using card_Un_le[of "OCode ` {..<8}" "OShared ` {..<10}"] card_image_le[of "{..<8::nat}" OCode]
      card_image_le[of "{..<10::nat}" OShared] by simp
  ultimately show ?thesis
    unfolding owners_def using card_Un_le[of fixed_owners "\<Union>t\<in>S. OData t ` {..<20}"] by simp
qed

lemma card_even_frames: "card {f. 256 \<le> f \<and> f < 1024 \<and> even (f::nat)} = 384"
proof -
  have "{f. 256 \<le> f \<and> f < 1024 \<and> even (f::nat)} = (\<lambda>k. 256 + 2 * k) ` {..<384}"
  proof (rule set_eqI)
    fix f :: nat
    show "f \<in> {f. 256 \<le> f \<and> f < 1024 \<and> even f} \<longleftrightarrow> f \<in> (\<lambda>k. 256 + 2 * k) ` {..<384}"
      by (auto intro!: image_eqI[of _ _ "(f - 256) div 2"])
  qed
  also have "card \<dots> = 384" by (subst card_image) (auto simp: inj_on_def)
  finally show ?thesis .
qed

lemma alloc_frame_succeeds:
  assumes fr: "frames_ok m R F" and fin: "finite R" and card: "card R < 384"
  shows "\<exists>f. alloc_frame m = (int f, mark_frame f m) \<and> 256 \<le> f \<and> f < 1024 \<and> even f \<and>
    phys_mem m f = 0 \<and> f \<notin> F ` R"
proof -
  have "\<not> {f. 256 \<le> f \<and> f < 1024 \<and> even f} \<subseteq> F ` R"
  proof
    assume "{f. 256 \<le> f \<and> f < 1024 \<and> even f} \<subseteq> F ` R"
    then have "384 \<le> card (F ` R)"
      using card_mono[of "F ` R" "{f. 256 \<le> f \<and> f < 1024 \<and> even f}"] fin card_even_frames by simp
    then show False using card_image_le[OF fin, of F] card by simp
  qed
  then obtain g where g: "256 \<le> g" "g < 1024" "even g" "g \<notin> F ` R" by blast
  then have z: "phys_mem m g = 0" using fr by (simp add: frames_ok_def)
  show ?thesis
  proof (cases rule: alloc_frame_cases[of m])
    case (found f)
    then have "f \<notin> F ` R" using fr found(2-5) by (auto simp: frames_ok_def split: if_splits)
    then show ?thesis using found by blast
  next
    case none
    then show ?thesis using g z by blast
  qed
qed

text \<open>Giving the new frame to an owner.\<close>

lemma frames_ok_extend:
  assumes "frames_ok m R F" "256 \<le> f" "f < 1024" "even f" "f \<notin> F ` R" "r \<notin> R"
  shows "frames_ok (mark_frame f m) (insert r R) (F(r := f))"
proof -
  have im: "(F(r := f)) ` insert r R = insert f (F ` R)" using assms(6) by auto
  have "inj_on (F(r := f)) (insert r R)"
    using assms(1,5,6) by (auto simp: frames_ok_def inj_on_def)
  moreover have "\<forall>s\<in>insert r R. 256 \<le> (F(r := f)) s \<and> (F(r := f)) s < 1024 \<and> even ((F(r := f)) s)"
    using assms by (auto simp: frames_ok_def)
  moreover have "phys_mem (mark_frame f m) g = (if g \<in> insert f (F ` R) then 1 else 0)"
    if "256 \<le> g \<and> g < 1024 \<and> even g" for g
    using assms(1) that by (auto simp: frames_ok_def)
  ultimately show ?thesis unfolding frames_ok_def im by simp
qed

lemma frames_ok_cong: "phys_mem m' = phys_mem m \<Longrightarrow> frames_ok m' R F = frames_ok m R F"
  by (simp add: frames_ok_def)

subsection \<open>Isolation\<close>

lemma owner_frame:
  assumes "frames_ok m R F" "r \<in> R"
  shows "F r < 2 ^ 20" "256 \<le> F r" "F r < 1024"
  using assms by (auto simp: frames_ok_def)

lemma owner_frame_eq: "frames_ok m R F \<Longrightarrow> r \<in> R \<Longrightarrow> s \<in> R \<Longrightarrow> F r = F s \<longleftrightarrow> r = s"
  by (auto simp: frames_ok_def inj_on_def)

lemma data_in_owners: "OData t j \<in> owners S \<longleftrightarrow> t \<in> S \<and> j < NUM_PAG_DATA"
  by (auto simp: owners_def fixed_owners_def)

lemma fixed_in_owners:
  "OCode j \<in> owners S \<longleftrightarrow> j < NUM_PAG_CODE" "OShared j \<in> owners S \<longleftrightarrow> j < NUM_SHARED_PAGES"
  by (auto simp: owners_def fixed_owners_def)

text \<open>Where a user address of a process leads, in terms of the owner of the frame.\<close>

definition page_owner :: "mm_state \<Rightarrow> (frame_owner \<Rightarrow> nat) \<Rightarrow> nat \<Rightarrow> nat \<Rightarrow> frame_owner \<Rightarrow> bool" where
  "page_owner m F t p r \<longleftrightarrow> pt_entry m t p \<in> {mk_pte (of_nat (F r)) 5, mk_pte (of_nat (F r)) 7}"

lemma user_page_owner:
  assumes inv: "space_inv m S F" and t: "t \<in> S" and p: "256 \<le> p" "p < 1024"
    and e: "pt_entry m t p \<noteq> 0"
  shows "(\<exists>j<20. p = 256 + j \<and> pt_entry m t p = mk_pte (of_nat (F (OData t j))) 7) \<or>
    (\<exists>j<8. pt_entry m t p = mk_pte (of_nat (F (OCode j))) 5) \<or>
    (\<exists>j<10. pt_entry m t p = mk_pte (of_nat (F (OShared j))) 7)"
proof -
  have t10: "t < 10" using inv t by (auto simp: space_inv_def)
  consider "p < 276" | "276 \<le> p" "p < 284" | "284 \<le> p" by linarith
  then show ?thesis
  proof cases
    case 1
    then obtain j where j: "p = 256 + j" "j < 20" using p le_Suc_ex[of 256 p] by auto
    then have "pt_entry m t p = mk_pte (of_nat (F (OData t j))) 7"
      using inv t t10 by (simp add: space_inv_def tables_ok_def data_in_owners)
    then show ?thesis using j by blast
  next
    case 2
    then obtain j where j: "p = 276 + j" "j < 8" using le_Suc_ex[of 276 p] by auto
    then show ?thesis using inv t by (auto simp: space_inv_def code_ok_def)
  next
    case 3
    then show ?thesis
      using inv t10 p e by (auto simp: space_inv_def high_ok_def high_entry_def)
  qed
qed

subsection \<open>Allocating a run of pages\<close>

text \<open>Only the byte map and the page tables differ.\<close>

definition paging_only :: "mm_state \<Rightarrow> mm_state \<Rightarrow> bool" where
  "paging_only m m' \<longleftrightarrow> shared_pages m' = shared_pages m \<and> dir_pages m' = dir_pages m \<and>
     pagusr_addr m' = pagusr_addr m \<and> cr3 m' = cr3 m \<and> cr0 m' = cr0 m \<and> ram m' = ram m"

lemma paging_only_refl [simp]: "paging_only m m"
  and paging_only_trans: "paging_only m m1 \<Longrightarrow> paging_only m1 m2 \<Longrightarrow> paging_only m m2"
  by (simp_all add: paging_only_def)

lemma paging_only_pt_set [simp]: "paging_only m (pt_set (mark_frame f m) PT p e)"
  by (simp add: paging_only_def)

lemma paging_only_fields:
  assumes "paging_only m m'"
  shows "dirs_ok m' = dirs_ok m" "row_addr m' t = row_addr m t" "shared_pages m' = shared_pages m"
    "cr3 m' = cr3 m" "ram m' = ram m" "cr0 m' = cr0 m"
proof -
  have r: "row_addr m' = row_addr m" using assms by (simp add: paging_only_def row_addr_def fun_eq_iff)
  then show "dirs_ok m' = dirs_ok m" "row_addr m' t = row_addr m t"
    using assms unfolding dirs_ok_def r by (simp_all add: paging_only_def)
qed (use assms in \<open>simp_all add: paging_only_def\<close>)

definition alloc_page :: "DWord \<Rightarrow> nat \<times> DWord \<Rightarrow> mm_state \<Rightarrow> mm_state" where
  "alloc_page PT pe m = (let (f, m) = alloc_frame m in pt_set m PT (fst pe) (mk_pte (word_of_int f) (snd pe)))"

lemma user_page_alloc:
  "set_user_code_page PT pag = alloc_page PT (PAG_LOG_INIT_CODE + pag, 5)"
  "set_user_data_page PT pag = alloc_page PT (PAG_LOG_INIT_DATA + pag, 7)"
  by (simp_all add: fun_eq_iff set_user_code_page_def set_user_data_page_def alloc_page_def set_flags_mk_pte)

lemma alloc_pages:
  fixes xs :: "(frame_owner \<times> nat \<times> DWord) list"
  assumes "frames_ok m R F" "finite R" "card R + length xs \<le> 384" "t < NR_TASKS"
    and "distinct (map fst xs)" "set (map fst xs) \<inter> R = {}"
    and "distinct (map (fst \<circ> snd) xs)" "set (map (fst \<circ> snd) xs) \<subseteq> {..<TOTAL_PAGES}"
  shows "\<exists>F'. let m' = fold (\<lambda>x. alloc_page (row_addr m t) (snd x)) xs m in
    frames_ok m' (R \<union> set (map fst xs)) F' \<and> (\<forall>r. r \<notin> set (map fst xs) \<longrightarrow> F' r = F r) \<and>
    (\<forall>x\<in>set xs. pt_entry m' t (fst (snd x)) = mk_pte (of_nat (F' (fst x))) (snd (snd x))) \<and>
    (\<forall>u q. q < TOTAL_PAGES \<longrightarrow> u \<noteq> t \<or> q \<notin> set (map (fst \<circ> snd) xs) \<longrightarrow> pt_entry m' u q = pt_entry m u q) \<and>
    paging_only m m'"
  using assms
proof (induction xs arbitrary: m R F)
  case Nil
  then show ?case by (intro exI[of _ F]) simp
next
  case (Cons x xs)
  obtain r p fl where x: "x = (r, p, fl)" by (cases x)
  obtain f where f: "alloc_frame m = (int f, mark_frame f m)" "256 \<le> f" "f < 1024" "even f" "f \<notin> F ` R"
    using alloc_frame_succeeds[OF Cons.prems(1,2)] Cons.prems(3) by auto
  let ?m = "pt_set (mark_frame f m) (row_addr m t) p (mk_pte (of_nat f) fl)"
  have s: "alloc_page (row_addr m t) (snd x) m = ?m" using f(1) x by (simp add: alloc_page_def)
  have p: "p < TOTAL_PAGES" and r: "r \<notin> R" using Cons.prems x by auto
  have row: "row_addr ?m t = row_addr m t" by simp
  have fr: "frames_ok ?m (insert r R) (F(r := f))"
    using frames_ok_extend[OF Cons.prems(1) f(2-5) r] frames_ok_cong[of ?m "mark_frame f m"] by simp
  have e: "pt_entry ?m u q = (if u = t \<and> q = p then mk_pte (of_nat f) fl else pt_entry m u q)"
    if "q < TOTAL_PAGES" for u q
    using pt_entry_pt_set[OF Cons.prems(4) p that, of "mark_frame f m"] by simp
  have IH: "\<exists>F'. let m' = fold (\<lambda>x. alloc_page (row_addr ?m t) (snd x)) xs ?m in
    frames_ok m' (insert r R \<union> set (map fst xs)) F' \<and> (\<forall>r'. r' \<notin> set (map fst xs) \<longrightarrow> F' r' = (F(r := f)) r') \<and>
    (\<forall>x\<in>set xs. pt_entry m' t (fst (snd x)) = mk_pte (of_nat (F' (fst x))) (snd (snd x))) \<and>
    (\<forall>u q. q < TOTAL_PAGES \<longrightarrow> u \<noteq> t \<or> q \<notin> set (map (fst \<circ> snd) xs) \<longrightarrow> pt_entry m' u q = pt_entry ?m u q) \<and>
    paging_only ?m m'"
    by (rule Cons.IH[OF fr]) (use Cons.prems x card_insert_le_m1[of "card R"] in \<open>auto simp: card_insert_if\<close>)
  let ?m' = "fold (\<lambda>x. alloc_page (row_addr m t) (snd x)) xs ?m"
  obtain F' where F': "frames_ok ?m' (insert r R \<union> set (map fst xs)) F'"
      "\<And>r'. r' \<notin> set (map fst xs) \<Longrightarrow> F' r' = (F(r := f)) r'"
      "\<And>x. x \<in> set xs \<Longrightarrow> pt_entry ?m' t (fst (snd x)) = mk_pte (of_nat (F' (fst x))) (snd (snd x))"
      "\<And>u q. q < TOTAL_PAGES \<Longrightarrow> u \<noteq> t \<or> q \<notin> set (map (fst \<circ> snd) xs) \<Longrightarrow> pt_entry ?m' u q = pt_entry ?m u q"
      "paging_only ?m ?m'"
    using IH unfolding row Let_def by blast
  have p_new: "p \<notin> set (map (fst \<circ> snd) xs)" "r \<notin> set (map fst xs)" using Cons.prems(5,7) x by auto
  have fst_x: "pt_entry ?m' t p = mk_pte (of_nat (F' r)) fl"
    using F'(2)[OF p_new(2)] F'(4)[OF p disjI2[OF p_new(1)], of t] e[OF p, of t] by simp
  have rest: "pt_entry ?m' u q = pt_entry m u q"
    if "q < TOTAL_PAGES" "u \<noteq> t \<or> q \<notin> set (map (fst \<circ> snd) (x # xs))" for u q
    using F'(4)[OF that(1), of u] e[OF that(1), of u] that(2) x by auto
  have "insert r R \<union> set (map fst xs) = R \<union> set (map fst (x # xs))" using x by auto
  moreover have "paging_only m ?m'" by (rule paging_only_trans[OF paging_only_pt_set F'(5)])
  ultimately show ?case
    unfolding Let_def fold.simps comp_apply s
    using F'(1-3) fst_x rest x by (intro exI[of _ F']) auto
qed

subsection \<open>The first process\<close>

definition user_plan :: "nat \<Rightarrow> (frame_owner \<times> nat \<times> DWord) list" where
  "user_plan t = map (\<lambda>j. (OCode j, PAG_LOG_INIT_CODE + j, 5)) [0..<NUM_PAG_CODE] @
     map (\<lambda>j. (OData t j, PAG_LOG_INIT_DATA + j, 7)) [0..<NUM_PAG_DATA]"

lemma set_user_pages_plan:
  "set_user_pages PT m = fold (\<lambda>x. alloc_page PT (snd x)) (user_plan t) m"
  unfolding set_user_pages_def user_page_alloc user_plan_def
  by (simp add: fold_map comp_def del: upt_Suc upt_rec_numeral)

text \<open>Before any process has pages: kernel mapped, shared pages reserved, user area empty.\<close>

definition bare_mm :: "mm_state \<Rightarrow> bool" where
  "bare_mm m \<longleftrightarrow> dirs_ok m \<and> (\<forall>t<NR_TASKS. \<forall>p<TOTAL_PAGES. pt_entry m t p = kernel_entry_of p) \<and>
     frames_ok m (OShared ` {..<NUM_SHARED_PAGES}) (\<lambda>r. case r of OShared idx \<Rightarrow> shared_frame idx | _ \<Rightarrow> 0) \<and>
     (\<forall>idx<NUM_SHARED_PAGES. sh_frame (shared_pages m idx) = int (shared_frame idx))"

lemma user_plan_simps:
  "distinct (map fst (user_plan t))" "distinct (map (fst \<circ> snd) (user_plan t))"
  "set (map fst (user_plan t)) = OCode ` {..<NUM_PAG_CODE} \<union> OData t ` {..<NUM_PAG_DATA}"
  "set (map (fst \<circ> snd) (user_plan t)) = {256..<284}" "length (user_plan t) = 28"
proof -
  show "distinct (map fst (user_plan t))"
    by (auto simp: user_plan_def distinct_map inj_on_def comp_def simp del: upt_rec_numeral)
  show "distinct (map (fst \<circ> snd) (user_plan t))"
    by (auto simp: user_plan_def distinct_map inj_on_def comp_def simp del: upt_rec_numeral)
  show "set (map fst (user_plan t)) = OCode ` {..<NUM_PAG_CODE} \<union> OData t ` {..<NUM_PAG_DATA}"
    unfolding user_plan_def by (auto simp del: upt_rec_numeral)
  have "(+) 276 ` {0..<8} = {276..<284::nat}" "(+) 256 ` {0..<20} = {256..<276::nat}" by auto
  then show "set (map (fst \<circ> snd) (user_plan t)) = {256..<284}"
    unfolding user_plan_def by (auto simp: image_image comp_def simp del: upt_rec_numeral)
  show "length (user_plan t) = 28" by (simp add: user_plan_def)
qed

lemma set_user_pages_space_inv:
  assumes b: "bare_mm m" and t: "t < NR_TASKS"
  shows "\<exists>F. space_inv (set_user_pages (row_addr m t) m) {t} F \<and> paging_only m (set_user_pages (row_addr m t) m) \<and>
    (\<forall>u p. u < NR_TASKS \<longrightarrow> USER_LAST_PAGE \<le> p \<and> p < TOTAL_PAGES \<longrightarrow>
       pt_entry (set_user_pages (row_addr m t) m) u p = 0)"
proof -
  let ?R = "OShared ` {..<NUM_SHARED_PAGES}" and ?G = "\<lambda>r. case r of OShared idx \<Rightarrow> shared_frame idx | _ \<Rightarrow> 0"
  let ?xs = "user_plan t" and ?m = "set_user_pages (row_addr m t) m"
  have fr: "frames_ok m ?R ?G" using b by (simp add: bare_mm_def)
  have own: "?R \<union> set (map fst ?xs) = owners {t}"
    unfolding user_plan_simps(3) by (auto simp: owners_def fixed_owners_def)
  have c1: "card ?R + length ?xs \<le> 384" using card_image_le[of "{..<10::nat}" OShared] by (simp add: user_plan_simps)
  have c2: "set (map fst ?xs) \<inter> ?R = {}" unfolding user_plan_simps(3) by auto
  have c3: "set (map (fst \<circ> snd) ?xs) \<subseteq> {..<1024}" unfolding user_plan_simps(4) by auto
  have fin: "finite ?R" by simp
  obtain F where F: "frames_ok ?m (owners {t}) F"
      "\<And>r. r \<notin> set (map fst ?xs) \<Longrightarrow> F r = ?G r"
      "\<And>x. x \<in> set ?xs \<Longrightarrow> pt_entry ?m t (fst (snd x)) = mk_pte (of_nat (F (fst x))) (snd (snd x))"
      "\<And>u q. q < 1024 \<Longrightarrow> u \<noteq> t \<or> q \<notin> {256..<284} \<Longrightarrow> pt_entry ?m u q = pt_entry m u q"
      "paging_only m ?m"
    using alloc_pages[OF fr fin c1 t user_plan_simps(1) c2 user_plan_simps(2) c3]
    unfolding own set_user_pages_plan[symmetric] user_plan_simps(4) Let_def by blast
  note pf = paging_only_fields[OF F(5)]
  have kern: "pt_entry ?m u p = kernel_entry_of p" if "u < 10" "p < 1024" "u \<noteq> t \<or> p \<notin> {256..<284}" for u p
    using F(4)[OF that(2,3)] b that(1,2) by (simp add: bare_mm_def)
  have data: "pt_entry ?m t (256 + j) = mk_pte (of_nat (F (OData t j))) 7" if "j < 20" for j
    using F(3)[of "(OData t j, 256 + j, 7)"] that by (simp add: user_plan_def del: upt_rec_numeral)
  have code: "pt_entry ?m t (276 + j) = mk_pte (of_nat (F (OCode j))) 5" if "j < 8" for j
    using F(3)[of "(OCode j, 276 + j, 5)"] that by (simp add: user_plan_def del: upt_rec_numeral)
  have hi: "pt_entry ?m u p = 0" if "u < 10" "284 \<le> p" "p < 1024" for u p
    using kern[of u p] that by (simp add: kernel_entry_of_def)
  have sh: "sh_frame (shared_pages ?m idx) = int (F (OShared idx))" if "idx < 10" for idx
  proof -
    have "F (OShared idx) = shared_frame idx"
      using F(2)[of "OShared idx"] unfolding user_plan_simps(3) by auto
    then show ?thesis using b that by (simp add: bare_mm_def pf)
  qed
  have "tables_ok ?m (owners {t}) F"
    unfolding tables_ok_def using b kern data sh by (auto simp: bare_mm_def pf data_in_owners)
  moreover have "code_ok ?m {t} F" using code by (simp add: code_ok_def)
  moreover have "high_ok ?m F" using hi by (simp add: high_ok_def high_entry_def)
  moreover have "F (OShared 0) = 256"
    using F(2)[of "OShared 0"] unfolding user_plan_simps(3) by (auto simp: shared_frame_def)
  ultimately show ?thesis using F(1,5) hi t by (intro exI[of _ F]) (simp add: space_inv_def)
qed

lemma bare_mm_init:
  assumes "layout_ok m"
  shows "bare_mm (init_shared_pages (init_dir_pages (init_frames (init_table_pages m))))"
proof -
  define m1 where "m1 = init_table_pages m"
  define m2 where "m2 = init_frames m1"
  define m3 where "m3 = init_dir_pages m2"
  have t1: "tables_only m m1" and e1: "\<And>t p. t < 10 \<Longrightarrow> p < 1024 \<Longrightarrow> pt_entry m1 t p = kernel_entry_of p"
    using init_table_pages_result(1)[where p = 0 and m = m] init_table_pages_result(2)[where m = m]
    by (simp_all add: m1_def)
  have l2: "layout_ok m2" "pt_entry m2 = pt_entry m1"
  proof -
    have m2: "m2 = m1\<lparr>phys_mem := phys_mem m2\<rparr>" using init_frames_result(1)[of m1] by (simp add: m2_def)
    show "layout_ok m2" using assms tables_only_fields[OF t1] by (subst m2) (simp add: layout_ok_def)
    show "pt_entry m2 = pt_entry m1" by (subst m2) (simp add: fun_eq_iff)
  qed
  have m3: "m3 = m2\<lparr>dir_pages := dir_pages m3\<rparr>" "dirs_ok m3"
    using init_dir_pages_result[OF l2(1)] by (simp_all add: m3_def)
  have pm: "phys_mem m3 f = (if f < 256 then 1 else 0)" if "f < 1024" for f
    using init_frames_result(2)[OF that, of m1] by (subst m3(1)) (simp add: m2_def)
  have e3: "pt_entry m3 = pt_entry m2" by (subst m3(1)) (simp add: fun_eq_iff)
  note r = init_shared_pages_result[of m3]
  have s: "init_shared_pages m3 = m3\<lparr>
    phys_mem := \<lambda>f. if 256 \<le> f \<and> f < 276 \<and> even f then 1 else phys_mem m3 f,
    shared_pages := \<lambda>i. if i < 10 then \<lparr>sh_frame = int (shared_frame i), num_refs = 0, to_clear = 0\<rparr>
      else shared_pages m3 i\<rparr>"
    by (rule r) (simp add: pm)
  have im: "(\<lambda>r. case r of OShared idx \<Rightarrow> shared_frame idx | _ \<Rightarrow> 0) ` OShared ` {..<10} =
      {f. 256 \<le> f \<and> f < 276 \<and> even f}"
  proof (rule set_eqI)
    fix f :: nat
    show "f \<in> (\<lambda>r. case r of OShared idx \<Rightarrow> shared_frame idx | _ \<Rightarrow> 0) ` OShared ` {..<10} \<longleftrightarrow>
        f \<in> {f. 256 \<le> f \<and> f < 276 \<and> even f}"
      unfolding image_image by (auto simp: shared_frame_def intro!: image_eqI[of _ _ "(f - 256) div 2"])
  qed
  show ?thesis
    unfolding m1_def[symmetric] m2_def[symmetric] m3_def[symmetric] s bare_mm_def
    using m3(2) e1 pm
    by (auto simp: frames_ok_def im inj_on_def shared_frame_def e3 l2(2) dirs_ok_def row_addr_def cong: if_cong)
qed

subsection \<open>The image of the user area\<close>

text \<open>Byte \<open>i\<close> of the 28 pages from \<^verbatim>\<open>L_USER_START\<close> on: its page's owner and its physical address.\<close>

definition user_owner :: "nat \<Rightarrow> nat \<Rightarrow> frame_owner" where
  "user_owner t q = (if q < NUM_PAG_DATA then OData t q else OCode (q - NUM_PAG_DATA))"

definition user_byte :: "(frame_owner \<Rightarrow> nat) \<Rightarrow> nat \<Rightarrow> nat \<Rightarrow> DWord" where
  "user_byte F t i = frame_addr (F (user_owner t (i div 4096))) (i mod 4096)"

lemma user_owner_in: "t \<in> S \<Longrightarrow> q < 28 \<Longrightarrow> user_owner t q \<in> owners S"
  by (auto simp: user_owner_def data_in_owners fixed_in_owners)

lemma user_owner_inj: "user_owner t p = user_owner t q \<Longrightarrow> p = q"
  by (auto simp: user_owner_def split: if_splits)

lemma user_area_maps:
  assumes inv: "space_inv m S F" and t: "t \<in> S" and c: "cr3 m = Some t" and n: "n \<le> 28 * 4096"
  shows "maps_range (translate m) 0x100000 n (user_byte F t)"
  unfolding maps_range_def
proof (intro allI impI)
  fix i assume "i < n"
  then have q: "i div 4096 < 28" "i mod 4096 < 4096" using n by auto
  have t10: "t < 10" and d: "dirs_ok m" and fr: "frames_ok m (owners S) F"
    using inv t by (auto simp: space_inv_def tables_ok_def)
  let ?q = "i div 4096"
  have e: "\<exists>fl. pt_entry m t (256 + ?q) = mk_pte (of_nat (F (user_owner t ?q))) fl \<and> fl AND 1 = 1"
  proof (cases "?q < 20")
    case True
    then have "pt_entry m t (256 + ?q) = mk_pte (of_nat (F (OData t ?q))) 7"
      using inv t t10 by (simp add: space_inv_def tables_ok_def data_in_owners)
    then show ?thesis using True by (auto simp: user_owner_def)
  next
    case False
    then obtain j where j: "?q = 20 + j" "j < 8" using q(1) le_Suc_ex[of 20 ?q] by auto
    then have "pt_entry m t (256 + ?q) = mk_pte (of_nat (F (OCode j))) 5"
      using inv t by (simp add: space_inv_def code_ok_def)
    then show ?thesis using j(1) by (auto simp: user_owner_def)
  qed
  then obtain fl where fl: "pt_entry m t (256 + ?q) = mk_pte (of_nat (F (user_owner t ?q))) fl" "fl AND 1 = 1"
    by blast
  have "256 + ?q < 1024" using q(1) by simp
  then have "translate m (of_nat (4096 * (256 + ?q) + i mod 4096)) = Some (user_byte F t i)"
    unfolding user_byte_def
    using translate_page[OF d t10 c _ q(2) fl(1) owner_frame(1)[OF fr user_owner_in[OF t q(1)]] fl(2)] by blast
  moreover have "4096 * (256 + ?q) + i mod 4096 = 0x100000 + i" by (simp add: algebra_simps)
  ultimately show "translate m (0x100000 + of_nat i) = Some (user_byte F t i)" by (simp add: add.commute)
qed

lemma user_byte_inj:
  assumes fr: "frames_ok m (owners S) F" and t: "t \<in> S" and b: "i < 28 * 4096" "j < 28 * 4096"
    and e: "user_byte F t i = user_byte F t j"
  shows "i = j"
proof -
  have q: "i div 4096 < 28" "j div 4096 < 28" using b by auto
  note o1 = user_owner_in[OF t q(1)] and o2 = user_owner_in[OF t q(2)]
  have "F (user_owner t (i div 4096)) = F (user_owner t (j div 4096)) \<and> i mod 4096 = j mod 4096"
    using e frame_addr_inj[OF owner_frame(1)[OF fr o1] owner_frame(1)[OF fr o2], of "i mod 4096" "j mod 4096"]
    by (simp add: user_byte_def)
  then have "i div 4096 = j div 4096" "i mod 4096 = j mod 4096"
    using owner_frame_eq[OF fr o1 o2] user_owner_inj by auto
  then show ?thesis by (metis div_mult_mod_eq)
qed

lemma user_byte_high:
  assumes fr: "frames_ok m (owners S) F" and t: "t \<in> S" and b: "i < 28 * 4096"
  shows "0x100000 \<le> unat (user_byte F t i)"
proof -
  have q: "i div 4096 < 28" using b by auto
  note o = owner_frame[OF fr user_owner_in[OF t q]]
  have "unat (user_byte F t i) = 4096 * F (user_owner t (i div 4096)) + i mod 4096"
    unfolding user_byte_def frame_addr_def by (rule unat_of_nat_DWord) (use o(3) in simp)
  then show ?thesis using o(2) by simp
qed

text \<open>The kernel's pages are mapped one to one, page 0 excepted.\<close>

lemma kernel_identity:
  assumes inv: "space_inv m S F" and t: "t < NR_TASKS" "cr3 m = Some t" and a: "4096 \<le> a" "a < 0x100000"
  shows "translate m (of_nat a) = Some (of_nat a)"
proof -
  have d: "dirs_ok m" "pt_entry m t (a div 4096) = kernel_entry_of (a div 4096)"
    using inv t(1) a by (auto simp: space_inv_def tables_ok_def)
  have p: "1 \<le> a div 4096" "a div 4096 < 256" using a by auto
  have e: "pt_entry m t (a div 4096) = mk_pte (of_nat (a div 4096)) 3"
    unfolding d(2) kernel_entry_of_def using p by simp
  have "a div 4096 < 1024" "a mod 4096 < 4096" "a div 4096 < 2 ^ 20" "(3::DWord) AND 1 = 1" using p by simp_all
  from translate_page[OF d(1) t this(1,2) e this(3,4)] show ?thesis by (simp add: frame_addr_def)
qed

end
