(* ===== verification/Zeos_Sys.thy ===== *)
theory Zeos_Sys
  imports Zeos_Interrupt Zeos_Space
begin

text \<open>
  The system calls, \<^verbatim>\<open>sys.c\<close>. A call returns its C result and the new kernel state; \<^term>\<open>None\<close> is a page fault in kernel mode.

  The kernel's global buffer \<^verbatim>\<open>kern_buff\<close> is at the address \<open>kb\<close> chosen by the linker. The local
  buffer of \<^verbatim>\<open>sys_read\<close>, on the kernel stack, is a map from its indices; writing behind it is
  \<^term>\<open>None\<close> too.
\<close>

abbreviation (input) LECTURA :: int where "LECTURA \<equiv> 0"
abbreviation (input) ESCRIPTURA :: int where "ESCRIPTURA \<equiv> 1"
abbreviation (input) MAX_BUFFER_SIZE :: int where "MAX_BUFFER_SIZE \<equiv> 512"

definition on_mm :: "(mm_state \<Rightarrow> mm_state) \<Rightarrow> kstate \<Rightarrow> kstate" where
  "on_mm f k = k\<lparr>mm := f (mm k)\<rparr>"

text \<open>\<^verbatim>\<open>get_PT(current())\<close> as the page table \<^verbatim>\<open>access_ok\<close> looks into.\<close>

definition cur_table :: "kstate \<Rightarrow> (nat \<Rightarrow> page_table_entry) option" where
  "cur_table k = map_option (\<lambda>PT. pt_get (mm k) PT) (get_PT k (current k))"

subsection \<open>Writing to the console\<close>

definition check_fd :: "int \<Rightarrow> int \<Rightarrow> int" where
  "check_fd fd permissions =
     (if fd \<noteq> 1 then -9 else if permissions \<noteq> ESCRIPTURA then -13 else 0)"

text \<open>The bytes of a kernel buffer, read through the active translation.\<close>

fun load_bytes :: "mm_state \<Rightarrow> DWord \<Rightarrow> nat \<Rightarrow> Byte list option" where
  "load_bytes m a 0 = Some []"
| "load_bytes m a (Suc n) = do {
     b \<leftarrow> load8 (translate m) a (ram m); bs \<leftarrow> load_bytes m (a + 1) n; Some (b # bs) }"

text \<open>One chunk: \<^verbatim>\<open>copy_from_user\<close> into the kernel buffer, then \<^verbatim>\<open>sys_write_console\<close>.\<close>

definition write_chunk :: "DWord \<Rightarrow> DWord \<Rightarrow> int \<Rightarrow> kstate \<Rightarrow> (int \<times> kstate) option" where
  "write_chunk kb buffer n k = do {
     (r, ram') \<leftarrow> copy_from_user (translate (mm k)) buffer kb n (ram (mm k));
     let k = on_mm (\<lambda>m. m\<lparr>ram := ram'\<rparr>) k;
     bs \<leftarrow> load_bytes (mm k) kb (nat n);
     let (ret, io') = sys_write_console (\<lambda>i. bs ! i) n (io k);
     Some (ret, k\<lparr>io := io'\<rparr>)
   }"

lemma write_chunk_ret: "write_chunk kb buffer n k = Some (ret, k') \<Longrightarrow> ret = n"
  by (auto simp: write_chunk_def sys_write_console_def Let_def bind_eq_Some_conv split: prod.splits)

function write_loop :: "DWord \<Rightarrow> DWord \<Rightarrow> int \<Rightarrow> kstate \<Rightarrow> (DWord \<times> int \<times> kstate) option" where
  "write_loop kb buffer remaining_bytes k =
     (if remaining_bytes > MAX_BUFFER_SIZE then
        (case write_chunk kb buffer MAX_BUFFER_SIZE k of None \<Rightarrow> None
         | Some (ret, k') \<Rightarrow> write_loop kb (buffer + word_of_int ret) (remaining_bytes - ret) k')
      else Some (buffer, remaining_bytes, k))"
  by pat_completeness auto
termination
  by (relation "measure (\<lambda>(kb, b, r, k). nat r)") (auto dest: write_chunk_ret)

declare write_loop.simps [simp del]

definition sys_write :: "DWord \<Rightarrow> int \<Rightarrow> DWord \<Rightarrow> int \<Rightarrow> kstate \<Rightarrow> (int \<times> kstate) option" where
  "sys_write kb fd buffer sz k =
     (let ret = check_fd fd ESCRIPTURA in
      if ret \<noteq> 0 then Some (ret, k)
      else do {
        pt \<leftarrow> cur_table k;
        if \<not> access_ok pt VERIFY_READ buffer (word_of_int sz) then Some (- EFAULT, k)
        else if sz < 0 then Some (- EINVAL, k)
        else do {
          (buffer, remaining_bytes, k) \<leftarrow> write_loop kb buffer sz k;
          if remaining_bytes > 0 then do {
            (ret, k) \<leftarrow> write_chunk kb buffer remaining_bytes k;
            Some (sz - (remaining_bytes - ret), k) }
          else Some (sz - remaining_bytes, k)
        }
      })"

definition sys_ni_syscall :: "kstate \<Rightarrow> (int \<times> kstate) option" where
  "sys_ni_syscall k = Some (-38, k)"

definition sys_getpid :: "kstate \<Rightarrow> (int \<times> kstate) option" where
  "sys_getpid k = Some (PID (task k (current k)), k)"

subsection \<open>fork\<close>

text \<open>\<^verbatim>\<open>copy_data\<close> of the whole union: the PCB with its embedded list entries, and the stack.\<close>

definition copy_union :: "nat \<Rightarrow> nat \<Rightarrow> kstate \<Rightarrow> kstate" where
  "copy_union p c k = k\<lparr>task := (task k)(c := task k p), stack := (stack k)(c := stack k p),
     heap := (heap k)(Node c := heap k (Node p), DeadSons c := heap k (DeadSons p),
       Sons c := heap k (Sons p), Bros c := heap k (Bros p))\<rparr>"

text \<open>
  The first loop over the data pages: a free logical page of the parent and a new frame per page,
  the frame mapped in both tables. \<open>Inl\<close> is an early return: without a free page nothing is
  undone, without a frame the child's data pages are freed.
\<close>

fun fork_reserve ::
  "DWord \<Rightarrow> DWord \<Rightarrow> nat list \<Rightarrow> mm_state \<Rightarrow> nat list \<Rightarrow> mm_state + (mm_state \<times> nat list)" where
  "fork_reserve pt_parent pt_child [] m free_pt_pages = Inr (m, free_pt_pages)"
| "fork_reserve pt_parent pt_child (pag # pags) m free_pt_pages =
     (let fp = get_user_free_page m pt_parent in
      if fp < 0 then Inl m
      else case alloc_frame m of (new_ph_pag, m) \<Rightarrow>
        if new_ph_pag < 0 then Inl (free_user_pages pt_child m)
        else fork_reserve pt_parent pt_child pags
          (set_ss_pag pt_child (USER_FIRST_PAGE + pag) (word_of_int new_ph_pag)
            (set_ss_pag pt_parent (nat fp) (word_of_int new_ph_pag) m))
          (free_pt_pages @ [nat fp]))"

text \<open>The second loop: copy each data page through the parent's temporary mapping, then remove it.\<close>

fun fork_copy :: "DWord \<Rightarrow> (nat \<times> nat) list \<Rightarrow> mm_state \<Rightarrow> mm_state option" where
  "fork_copy pt_parent [] m = Some m"
| "fork_copy pt_parent ((pag, fp) # rest) m = do {
     r \<leftarrow> copy_data (translate m) (of_nat (4096 * (USER_FIRST_PAGE + pag))) (of_nat (4096 * fp))
           PAGE_SIZE (ram m);
     fork_copy pt_parent rest (del_ss_pag pt_parent fp (m\<lparr>ram := r\<rparr>))
   }"

text \<open>The loop that shares the parent's shared pages with the child.\<close>

definition fork_shared_page :: "DWord \<Rightarrow> DWord \<Rightarrow> nat \<Rightarrow> mm_state \<Rightarrow> mm_state" where
  "fork_shared_page pt_parent pt_child pag m =
     (if is_logic_page_free m pt_parent pag then m
      else
        let f = push_bit 12 (pte_pbase_addr (pt_get m pt_parent pag)); idx = is_frame_shared m f in
        if idx \<noteq> 0 then
          set_ss_pag pt_child pag f (m\<lparr>shared_pages := (shared_pages m)(idx :=
            (shared_pages m idx)\<lparr>num_refs := wrap32 (num_refs (shared_pages m idx) + 1)\<rparr>)\<rparr>)
        else m)"

definition copy_entries :: "DWord \<Rightarrow> DWord \<Rightarrow> nat list \<Rightarrow> mm_state \<Rightarrow> mm_state" where
  "copy_entries pt_parent pt_child pags m =
     fold (\<lambda>pag m. pt_set m pt_child pag (pt_get m pt_parent pag)) pags m"

definition sys_fork :: "kstate \<Rightarrow> (int \<times> kstate) option" where
  "sys_fork k =
     (if list_empty (heap k) FreeQ then Some (- ENOMEM, k)
      else do {
        elem \<leftarrow> list_first (heap k) FreeQ;
        k \<leftarrow> on_heap (list_del elem) k;
        child \<leftarrow> list_head_to_task_struct elem;
        let cur = current k;
        let k = allocate_DIR child (copy_union cur child k);
        pt_child \<leftarrow> get_PT k child;
        pt_parent \<leftarrow> get_PT k cur;
        let k = on_mm (copy_entries pt_parent pt_child [0..<NUM_PAG_KERNEL]) k;
        let k = on_mm (copy_entries pt_parent pt_child
                  (map ((+) PAG_LOG_INIT_CODE) [0..<NUM_PAG_CODE])) k;
        case fork_reserve pt_parent pt_child [0..<NUM_PAG_DATA] (mm k) [] of
          Inl m \<Rightarrow> Some (- ENOMEM, k\<lparr>mm := m\<rparr>)
        | Inr (m, free_pt_pages) \<Rightarrow> do {
            let m = set_cr3 (get_DIR k cur) m;
            m \<leftarrow> fork_copy pt_parent (zip [0..<NUM_PAG_DATA] free_pt_pages) m;
            let m = fold (fork_shared_page pt_parent pt_child) [USER_LAST_PAGE..<TOTAL_PAGES] m;
            let k = k\<lparr>mm := set_cr3 (get_DIR k cur) m\<rparr>;
            let k = upd_task child (\<lambda>p. p\<lparr>PID := next_pid k, nr_ticks := 0, state := ST_READY,
                      pending_unblocks := 0\<rparr>) (k\<lparr>next_pid := wrap32 (next_pid k + 1)\<rparr>);
            k \<leftarrow> on_heap (list_add_tail (Node child) ReadyQ) k;
            let k = set_stack child (KERNEL_STACK_SIZE - 18) K_ret_from_fork k;
            let k = set_stack child (KERNEL_STACK_SIZE - 19) (KWord 0) k;
            let k = upd_task child (\<lambda>p. p\<lparr>kernel_esp0 := KPtr child (KERNEL_STACK_SIZE - 19),
                      parent := Some cur\<rparr>) k;
            let k = k\<lparr>heap := INIT_LIST_HEAD (Sons child) (heap k)\<rparr>;
            k \<leftarrow> on_heap (list_add_tail (Bros child) (Sons cur)) k;
            Some (PID (task k child), k)
          }
      })"

subsection \<open>exit\<close>

text \<open>The children of the process go to idle.\<close>

definition exit_orphan :: "nat \<Rightarrow> kstate \<Rightarrow> kstate option" where
  "exit_orphan i k =
     (if parent (task k i) \<noteq> Some (current k) then Some k
      else do {
        idle \<leftarrow> idle_task k;
        let k = upd_task i (\<lambda>p. p\<lparr>parent := Some idle\<rparr>) k;
        k \<leftarrow> on_heap (list_del (Bros i)) k;
        on_heap (list_add_tail (Bros i) (Sons idle)) k
      })"

definition exit_shared_page :: "nat \<Rightarrow> nat \<Rightarrow> kstate \<Rightarrow> kstate option" where
  "exit_shared_page proc pag k = do {
     pt \<leftarrow> get_PT k proc;
     if is_logic_page_free (mm k) pt pag then Some k
     else
       let f = push_bit 12 (pte_pbase_addr (pt_get (mm k) pt pag)); idx = is_frame_shared (mm k) f in
       if idx \<noteq> 0 then do {
         let m = (mm k)\<lparr>shared_pages := (shared_pages (mm k))(idx :=
                   (shared_pages (mm k) idx)\<lparr>num_refs := wrap32 (num_refs (shared_pages (mm k) idx) - 1)\<rparr>)\<rparr>;
         m \<leftarrow> (if num_refs (shared_pages m idx) = 0 \<and> to_clear (shared_pages m idx) = 1
               then map_option (\<lambda>r. m\<lparr>ram := r\<rparr>) (zero_out (translate m) f PAGE_SIZE (ram m))
               else Some m);
         Some (k\<lparr>mm := del_ss_pag pt (unat f) m\<rparr>)
       }
       else Some k
   }"

definition sys_exit :: "kstate \<Rightarrow> kstate option" where
  "sys_exit k = do {
     let proc = current k;
     k \<leftarrow> (if PID (task k proc) \<noteq> 1 then on_heap (list_del (Bros proc)) k else Some k);
     let k = upd_task proc (\<lambda>p. p\<lparr>PID := -1\<rparr>) k;
     k \<leftarrow> fold_option exit_orphan [0..<NR_TASKS] k;
     k \<leftarrow> fold_option (exit_shared_page proc) [USER_LAST_PAGE..<TOTAL_PAGES] k;
     k \<leftarrow> update_process_state_rr proc (Some FreeQ) ST_ZOMBIE k;
     pt \<leftarrow> get_PT k proc;
     let k = on_mm (free_user_pages pt) k;
     let k = upd_task proc (\<lambda>p. p\<lparr>dir_pages_baseAddr := None\<rparr>) k;
     sched_next_rr k
   }"

subsection \<open>Time, blocking\<close>

definition sys_gettime :: "kstate \<Rightarrow> (int \<times> kstate) option" where
  "sys_gettime k = Some (zeos_ticks k, k)"

definition sys_block :: "kstate \<Rightarrow> (int \<times> kstate) option" where
  "sys_block k =
     (let proc = current k in
      if pending_unblocks (task k proc) = 0 then do {
        k \<leftarrow> on_heap (list_add_tail (Node proc) BlockedQ) k;
        let k = upd_task proc (\<lambda>p. p\<lparr>state := ST_BLOCKED\<rparr>) k;
        k \<leftarrow> schedule k;
        Some (0, k) }
      else Some (0, upd_task proc (\<lambda>p. p\<lparr>pending_unblocks := wrap32 (pending_unblocks p - 1)\<rparr>) k))"

text \<open>The search of \<^verbatim>\<open>sys_unblock\<close> along the list of sons: the PCB found, or \<^term>\<open>None\<close> inside.\<close>

partial_function (option) find_son ::
  "kstate \<Rightarrow> anchor \<Rightarrow> anchor option \<Rightarrow> int \<Rightarrow> nat option option" where
  "find_son k head pos pid =
     (if pos = Some head then Some None
      else case pos of None \<Rightarrow> None
        | Some l \<Rightarrow> (case list_head_to_task_struct l of None \<Rightarrow> None
            | Some son \<Rightarrow> if PID (task k son) = pid then Some (Some son)
                else find_son k head (nxt (heap k l)) pid))"

definition sys_unblock :: "int \<Rightarrow> kstate \<Rightarrow> (int \<times> kstate) option" where
  "sys_unblock pid k = do {
     let head = Sons (current k);
     found \<leftarrow> find_son k head (nxt (heap k head)) pid;
     case found of
       None \<Rightarrow> Some (- ECHILD, k)
     | Some son \<Rightarrow>
         if state (task k son) = ST_BLOCKED then do {
           let k = upd_task son (\<lambda>p. p\<lparr>state := ST_READY, pending_unblocks := 0\<rparr>) k;
           k \<leftarrow> on_heap (list_del (Node son)) k;
           k \<leftarrow> on_heap (list_add_tail (Node son) ReadyQ) k;
           Some (0, k) }
         else Some (0, upd_task son (\<lambda>p. p\<lparr>pending_unblocks := wrap32 (pending_unblocks p + 1)\<rparr>) k)
   }"

definition sys_numsons :: "kstate \<Rightarrow> (int \<times> kstate) option" where
  "sys_numsons k = map_option (\<lambda>n. (wrap32 (n - 1), k)) (list_size (heap k) (Some (Sons (current k))))"

definition sys_numbros :: "kstate \<Rightarrow> (int \<times> kstate) option" where
  "sys_numbros k = map_option (\<lambda>n. (wrap32 (n - 1), k)) (list_size (heap k) (Some (Bros (current k))))"

subsection \<open>Reading the keyboard\<close>

text \<open>\<^verbatim>\<open>copy_to_user\<close> from the local buffer: the bytes are stored one after the other.\<close>

fun store_bytes :: "translation \<Rightarrow> DWord \<Rightarrow> Byte list \<Rightarrow> ram \<Rightarrow> ram option" where
  "store_bytes tr a [] r = Some r"
| "store_bytes tr a (b # bs) r = do { r \<leftarrow> store8 tr a b r; store_bytes tr (a + 1) bs r }"

text \<open>The slice \<^verbatim>\<open>&kern_buff[lo]\<close> of length \<open>n\<close>, of a 512-byte buffer.\<close>

definition kslice :: "(nat \<Rightarrow> Byte) \<Rightarrow> nat \<Rightarrow> nat \<Rightarrow> Byte list option" where
  "kslice kbuf lo n = (if lo + n \<le> nat MAX_BUFFER_SIZE then Some (map kbuf [lo..<lo + n]) else None)"

record read_state =
  num_chars :: DWord
  index :: DWord
  num_reads :: DWord
  kbuf :: "nat \<Rightarrow> Byte"

definition copy_chunk :: "DWord \<Rightarrow> read_state \<Rightarrow> nat \<Rightarrow> kstate \<Rightarrow> kstate option" where
  "copy_chunk b s n k = do {
     bs \<leftarrow> kslice (kbuf s) (unat (num_reads s * 512)) n;
     r \<leftarrow> store_bytes (translate (mm k)) (b + num_reads s * 512) bs (ram (mm k));
     Some (on_mm (\<lambda>m. m\<lparr>ram := r\<rparr>) k)
   }"

text \<open>One round of the loop: take a character, flush a full buffer.\<close>

definition read_step :: "DWord \<Rightarrow> read_state \<Rightarrow> kstate \<Rightarrow> (read_state \<times> kstate) option" where
  "read_step b s k =
     (if unat (num_chars s) \<ge> nat MAX_BUFFER_SIZE then None
      else case get (cbuff k) (kbuf s (unat (num_chars s))) of (r, c, cb) \<Rightarrow>
        let k = k\<lparr>cbuff := cb\<rparr>;
            s = s\<lparr>kbuf := (kbuf s)(unat (num_chars s) := c), num_chars := num_chars s + 1, index := index s + 1\<rparr>
        in if index s = 512 then do {
             k \<leftarrow> copy_chunk b s 512 k;
             Some (s\<lparr>index := 0, num_reads := num_reads s + 1\<rparr>, k) }
           else Some (s, k))"

lemma read_step_num_chars: "read_step b s k = Some (s', k') \<Longrightarrow> num_chars s' = num_chars s + 1"
  by (auto simp: read_step_def Let_def bind_eq_Some_conv split: if_splits prod.splits)

function read_loop :: "DWord \<Rightarrow> DWord \<Rightarrow> read_state \<Rightarrow> kstate \<Rightarrow> (read_state \<times> kstate) option" where
  "read_loop b maxchars s k =
     (if \<not> is_empty (cbuff k) \<and> num_chars s < maxchars then
        (case read_step b s k of None \<Rightarrow> None | Some (s', k') \<Rightarrow> read_loop b maxchars s' k')
      else Some (s, k))"
  by pat_completeness auto
termination
proof (relation "measure (\<lambda>(b, n, s, k). unat n - unat (num_chars s))")
  fix b maxchars :: DWord and s :: read_state and k :: kstate and x s' k'
  assume c: "\<not> is_empty (cbuff k) \<and> num_chars s < maxchars" and x: "read_step b s k = Some x" "(s', k') = x"
  have "num_chars s' = num_chars s + 1" using read_step_num_chars x by metis
  moreover have "unat (num_chars s + 1) = unat (num_chars s) + 1"
    using c unat_DWord_less[of maxchars] by (subst unat_word_ariths) (auto simp: word_less_nat_alt)
  ultimately show "((b, maxchars, s', k'), (b, maxchars, s, k)) \<in> measure (\<lambda>(b, n, s, k). unat n - unat (num_chars s))"
    using c by (auto simp: word_less_nat_alt intro: diff_less_mono2)
qed simp

declare read_loop.simps [simp del]

definition sys_read :: "DWord \<Rightarrow> int \<Rightarrow> (nat \<Rightarrow> Byte) \<Rightarrow> kstate \<Rightarrow> (int \<times> kstate) option" where
  "sys_read b maxchars kern_buff k = do {
     pt \<leftarrow> cur_table k;
     if \<not> access_ok pt VERIFY_WRITE b (word_of_int maxchars) then Some (- EFAULT, k)
     else do {
       (s, k) \<leftarrow> read_loop b (word_of_int maxchars)
                  \<lparr>num_chars = 0, index = 0, num_reads = 0, kbuf = kern_buff\<rparr> k;
       k \<leftarrow> (if index s \<noteq> 0 then copy_chunk b s (unat (index s)) k else Some k);
       Some (sint (num_chars s), k)
     }
   }"

subsection \<open>Screen\<close>

definition sys_gotoxy :: "int \<Rightarrow> int \<Rightarrow> kstate \<Rightarrow> (int \<times> kstate) option" where
  "sys_gotoxy x y k =
     (if x \<ge> int SCREEN_COLUMNS \<or> x < 0 \<or> y \<ge> int SCREEN_ROWS \<or> y < 0 then Some (- EOUTSCREEN, k)
      else Some (0, k\<lparr>io := (io k)\<lparr>x_screen := word_of_int x, y_screen := word_of_int y\<rparr>\<rparr>))"

definition sys_set_color :: "int \<Rightarrow> int \<Rightarrow> kstate \<Rightarrow> (int \<times> kstate) option" where
  "sys_set_color fg bg k =
     (if fg > WHITE \<or> fg < BLACK \<or> bg > WHITE \<or> bg < BLACK then Some (- ENOCOLOR, k)
      else Some (0, k\<lparr>io := (io k)\<lparr>fg_color := word_of_int fg, bg_color := word_of_int bg\<rparr>\<rparr>))"

subsection \<open>Shared memory\<close>

text \<open>
  The page number of \<open>addr\<close> is not checked: a page above 1023 indexes past the process's own
  page table (\<open>pt_get\<close>, \<open>pt_set\<close>).
\<close>

definition sys_shmat :: "int \<Rightarrow> DWord \<Rightarrow> kstate \<Rightarrow> (int \<times> kstate) option" where
  "sys_shmat sh_id addr k =
     (if sh_id < 0 \<or> sh_id > 9 then Some (- ENOSHR, k)
      else do {
        proc_tp \<leftarrow> get_PT k (current k);
        let fp = get_user_free_page (mm k) proc_tp;
        let attach = (\<lambda>page :: int.
          if page = -1 then Some (- ENOMEM, k)
          else
            let sp = shared_pages (mm k) (nat sh_id);
                m = set_ss_pag proc_tp (nat page) (word_of_int (sh_frame sp)) (mm k);
                m = set_cr3 (get_DIR k (current k)) m;
                m = m\<lparr>shared_pages := (shared_pages m)(nat sh_id := sp\<lparr>num_refs := wrap32 (num_refs sp + 1)\<rparr>)\<rparr>
            in Some (sint (push_bit 12 (word_of_int page :: DWord)), k\<lparr>mm := m\<rparr>));
        if addr = 0 then attach fp
        else if addr mod 4096 \<noteq> 0 then Some (- EFAULT, k)
        else
          let addr_page = unat (drop_bit 12 addr) in
          if \<not> is_logic_page_free (mm k) proc_tp addr_page then attach fp
          else attach (int addr_page)
      })"

definition sys_shmdt :: "DWord \<Rightarrow> kstate \<Rightarrow> (int \<times> kstate) option" where
  "sys_shmdt addr k =
     (if addr = 0 then Some (- EINVAL, k)
      else if addr mod 4096 \<noteq> 0 then Some (- EFAULT, k)
      else do {
        let addr_page = unat (drop_bit 12 addr);
        proc_tp \<leftarrow> get_PT k (current k);
        if is_logic_page_free (mm k) proc_tp addr_page then Some (- ENOSHR, k)
        else
          let f = pte_pbase_addr (pt_get (mm k) proc_tp addr_page); idx = is_frame_shared (mm k) f in
          if idx \<noteq> 0 then do {
            let sp = shared_pages (mm k) idx;
            let m = (mm k)\<lparr>shared_pages := (shared_pages (mm k))(idx :=
                      sp\<lparr>num_refs := wrap32 (num_refs sp - 1)\<rparr>)\<rparr>;
            m \<leftarrow> (if num_refs (shared_pages m idx) = 0 \<and> to_clear (shared_pages m idx) = 1
                  then map_option (\<lambda>r. m\<lparr>ram := r\<rparr>) (zero_out (translate m) addr PAGE_SIZE (ram m))
                  else Some m);
            Some (0, k\<lparr>mm := set_cr3 (get_DIR k (current k)) (del_ss_pag proc_tp addr_page m)\<rparr>)
          }
          else Some (- ENOSHR, k)
      })"

definition sys_shmrm :: "int \<Rightarrow> kstate \<Rightarrow> (int \<times> kstate) option" where
  "sys_shmrm sh_id k =
     (if sh_id < 0 \<or> sh_id > 9 then Some (- ENOSHR, k)
      else Some (0, on_mm (\<lambda>m. m\<lparr>shared_pages := (shared_pages m)(nat sh_id :=
             (shared_pages m (nat sh_id))\<lparr>to_clear := 1\<rparr>)\<rparr>) k))"

subsection \<open>Simple calls\<close>

lemma sys_gotoxy_cursor:
  assumes "sys_gotoxy x y k = Some (r, k')"
  shows "(r = 0 \<and> 0 \<le> x \<and> x < 80 \<and> 0 \<le> y \<and> y < 25 \<and>
      k' = k\<lparr>io := (io k)\<lparr>x_screen := word_of_int x, y_screen := word_of_int y\<rparr>\<rparr> \<and>
      cursor_ok (io k') \<and> int (cursor (io k')) = y * 80 + x) \<or>
    (r = - EOUTSCREEN \<and> \<not> (0 \<le> x \<and> x < 80 \<and> 0 \<le> y \<and> y < 25) \<and> k' = k)"
proof (cases "0 \<le> x \<and> x < 80 \<and> 0 \<le> y \<and> y < 25")
  case True
  then have u: "uint (word_of_int x :: Byte) = x" "uint (word_of_int y :: Byte) = y"
    by (simp_all add: uint_word_of_int_eq take_bit_int_eq_self)
  then have "unat (word_of_int x :: Byte) = nat x" "unat (word_of_int y :: Byte) = nat y"
    by (simp_all add: unat_eq_nat_uint)
  then show ?thesis using True assms u by (auto simp: sys_gotoxy_def cursor_ok_def cursor_def)
next
  case False
  then show ?thesis using assms by (auto simp: sys_gotoxy_def)
qed

subsection \<open>Blocking\<close>

text \<open>The state in which \<^verbatim>\<open>sys_block\<close> calls the scheduler.\<close>

definition blocking :: "kstate \<Rightarrow> anchor list_heap \<Rightarrow> kstate" where
  "blocking k h = upd_task (current k) (\<lambda>p. p\<lparr>state := ST_BLOCKED\<rparr>) (k\<lparr>heap := h\<rparr>)"

lemma blocking_fields [simp]:
  "heap (blocking k h) = h" "stack (blocking k h) = stack k" "current (blocking k h) = current k"
  "esp (blocking k h) = esp k" "io (blocking k h) = io k" "mm (blocking k h) = mm k" "idle_task (blocking k h) = idle_task k"
  "ticks_since_last_switch (blocking k h) = ticks_since_last_switch k"
  "cbuff (blocking k h) = cbuff k" "next_pid (blocking k h) = next_pid k"
  "zeos_ticks (blocking k h) = zeos_ticks k" "task1_task (blocking k h) = task1_task k"
  "task (blocking k h) = (task k)(current k := (task k (current k))\<lparr>state := ST_BLOCKED\<rparr>)"
  by (simp_all add: blocking_def)

lemma sched_pre_blocking:
  assumes inv: "sched_inv k fq rq bq kids i" and c: "current k \<noteq> i"
    and e: "7 \<le> snd (esp k)" "snd (esp k) \<le> KERNEL_STACK_SIZE"
    and h: "lists_rep h (family fq rq (bq @ [current k]) kids)"
  shows "sched_pre (update_sched_data_rr (blocking k h)) fq rq (bq @ [current k]) kids i"
    and "\<not> requeues (update_sched_data_rr (blocking k h))"
proof -
  let ?k = "update_sched_data_rr (blocking k h)"
  have q: "distinct (i # fq @ rq @ bq)" "set (i # fq @ rq @ bq) \<subseteq> {..<10}" "idle_task k = Some i"
      "PID (task k i) = 0" "\<And>t. t \<in> set rq \<Longrightarrow> ready_ok k t" "\<And>t. t \<in> set bq \<Longrightarrow> blocked_ok k t"
      "current k \<notin> set (fq @ rq @ bq)" "current k < 10" "parked k i" "running_ok k (current k)"
    using inv c by (auto simp: sched_inv_def queues_ok_def cpu_ok_def)
  have p: "parked ?k t" if "parked k t" "t \<noteq> current k" for t
    using that parked_cong[of ?k t k] by simp
  have r: "ready_ok ?k t" if "t \<in> set rq" for t
  proof -
    have "t \<noteq> current k" using that q(7) by auto
    then show ?thesis using q(5)[OF that] p[of t] by (simp add: ready_ok_def)
  qed
  have b: "blocked_ok ?k t" if "t \<in> set bq" for t
  proof -
    have "t \<noteq> current k" using that q(7) by auto
    then show ?thesis using q(6)[OF that] p[of t] by (simp add: blocked_ok_def)
  qed
  show n: "\<not> requeues ?k" by (simp add: requeues_def)
  show "sched_pre ?k fq rq (bq @ [current k]) kids i"
    unfolding sched_pre_def using q(1-4,7-10) h e c n r b p[of i] by (simp add: running_ok_def)
qed

lemma block_enqueue:
  assumes inv: "sched_inv k fq rq bq kids i" and z: "pending_unblocks (task k (current k)) = 0"
  obtains h where "sys_block k = Option.bind (schedule (blocking k h)) (\<lambda>k. Some (0, k))"
    "lists_rep h (family fq rq (bq @ [current k]) kids)"
proof -
  have l: "lists_rep (heap k) (family fq rq bq kids)" "current k \<notin> set (fq @ rq @ bq)"
    using inv by (simp_all add: sched_inv_def queues_ok_def)
  obtain h where h: "list_add_tail (Node (current k)) BlockedQ (heap k) = Some h"
      "lists_rep h (family fq rq (bq @ [current k]) kids)"
    using queue_add(3)[OF l] by blast
  have "sys_block k = Option.bind (schedule (blocking k h)) (\<lambda>k. Some (0, k))"
    using z h(1) by (simp add: sys_block_def Let_def blocking_def)
  then show ?thesis using that h(2) by blast
qed

lemma needs_sched_blocking:
  assumes "running_ok k (current k)" "lists_rep h (family fq rq bq' kids)"
  shows "needs_sched_rr (update_sched_data_rr (blocking k h)) \<longleftrightarrow> \<not> (expired k \<and> rq = [])"
  using assms(1) ready_empty[OF assms(2)]
  by (auto simp: needs_sched_rr_def Let_def get_quantum_def expired_def running_ok_def)

lemma sys_block_switches:
  assumes inv: "sched_inv k fq rq bq kids i" and c: "current k \<noteq> i"
    and e: "7 \<le> snd (esp k)" "snd (esp k) \<le> KERNEL_STACK_SIZE"
    and z: "pending_unblocks (task k (current k)) = 0" and x: "\<not> (expired k \<and> rq = [])"
  shows "\<exists>k'. sys_block k = Some (0, k') \<and> sched_inv k' fq (tl rq) (bq @ [current k]) kids i \<and>
    current k' = (if rq = [] then i else hd rq) \<and> ticks_since_last_switch k' = 0 \<and> tick_frame k k'"
proof -
  obtain h where h: "sys_block k = Option.bind (schedule (blocking k h)) (\<lambda>k. Some (0, k))"
      "lists_rep h (family fq rq (bq @ [current k]) kids)"
    using block_enqueue[OF inv z] by blast
  note pre = sched_pre_blocking[OF inv c e h(2)]
  obtain k' where k': "sched_next_rr (update_sched_data_rr (blocking k h)) = Some k'"
      "sched_inv k' fq (snd (pick i False (current k) rq)) (bq @ [current k]) kids i"
      "current k' = fst (pick i False (current k) rq)" "sched_frame (update_sched_data_rr (blocking k h)) k'"
      "ticks_since_last_switch k' = 0"
    using sched_next_rr_pick[OF pre(1)] pre(2) by auto
  have "running_ok k (current k)" using inv c by (simp add: sched_inv_def)
  then have "schedule (blocking k h) = Some k'"
    using needs_sched_blocking[OF _ h(2)] x k'(1) by (simp add: schedule_def Let_def)
  moreover have "pick i False (current k) rq = (if rq = [] then i else hd rq, tl rq)"
    by (cases rq) (simp_all add: pick_def)
  moreover have "tick_frame k k'"
    using k'(4) unfolding sched_frame_def tick_frame_def same_pcb_def by (simp split: if_splits)
  ultimately show ?thesis using h(1) k'(2,3,5) by simp
qed

lemma sys_block_no_switch:
  assumes inv: "sched_inv k fq [] bq kids i" and c: "current k \<noteq> i"
    and z: "pending_unblocks (task k (current k)) = 0" and x: "expired k"
  shows "\<exists>k'. sys_block k = Some (0, k') \<and> current k' = current k \<and>
    state (task k' (current k)) = ST_BLOCKED \<and> lists_rep (heap k') (family fq [] (bq @ [current k]) kids)"
proof -
  obtain h where h: "sys_block k = Option.bind (schedule (blocking k h)) (\<lambda>k. Some (0, k))"
      "lists_rep h (family fq [] (bq @ [current k]) kids)"
    using block_enqueue[OF inv z] by blast
  have "running_ok k (current k)" using inv c by (simp add: sched_inv_def)
  then have "schedule (blocking k h) = Some (update_sched_data_rr (blocking k h))"
    using needs_sched_blocking[OF _ h(2)] x by (simp add: schedule_def Let_def)
  then show ?thesis using h by simp
qed

subsection \<open>Unblocking\<close>

lemma find_son_links:
  assumes "links (heap k) a (map Bros ks) p" "\<And>s. p \<noteq> Bros s"
  shows "find_son k p (nxt (heap k a)) pid = Some (List.find (\<lambda>s. PID (task k s) = pid) ks)"
  using assms(1)
proof (induction ks arbitrary: a)
  case Nil
  then show ?case by (simp add: find_son.simps)
next
  case (Cons s ks)
  have "p \<noteq> Bros s" using assms(2) by simp
  then show ?case
    using Cons.prems Cons.IH[of "Bros s"] by (subst find_son.simps) auto
qed

lemma find_son_kids:
  assumes "lists_rep (heap k) (family fq rq bq kids)" "kids p = Some ks"
  shows "find_son k (Sons p) (nxt (heap k (Sons p))) pid = Some (List.find (\<lambda>s. PID (task k s) = pid) ks)"
proof -
  have "dlist (heap k) (Sons p) (map Bros ks)"
    using lists_repD[OF assms(1), of "Sons p"] assms(2) by simp
  then show ?thesis by (intro find_son_links) (simp_all add: dlist_def)
qed

lemma queue_move_ready:
  assumes "lists_rep h (family fq rq (xs @ s # ys) kids)"
  shows "\<exists>h1 h2. list_del (Node s) h = Some h1 \<and> list_add_tail (Node s) ReadyQ h1 = Some h2 \<and>
    lists_rep h2 (family fq (rq @ [s]) (xs @ ys) kids)"
proof -
  obtain h1 where h1: "list_del (Node s) h = Some h1" "lists_rep h1 (family fq rq (xs @ ys) kids)"
    using queue_del(3)[OF assms] by blast
  have m: "family fq rq (xs @ s # ys) kids BlockedQ = Some (map Node xs @ Node s # map Node ys)" by simp
  have "fresh (family fq rq (xs @ ys) kids) (Node s)"
    using klists.fresh_after_del[OF assms m] unfolding map_append[symmetric] family_upd .
  then have "s \<notin> set (fq @ rq @ (xs @ ys))" by (simp only: fresh_Node) simp
  from queue_add(2)[OF h1(2) this] h1(1) show ?thesis by blast
qed

lemma sys_unblock_blocked:
  assumes inv: "sched_inv k fq rq (xs @ s # ys) kids i" and ks: "kids (current k) = Some ks"
    and f: "List.find (\<lambda>s. PID (task k s) = pid) ks = Some s"
  shows "\<exists>k'. sys_unblock pid k = Some (0, k') \<and> sched_inv k' fq (rq @ [s]) (xs @ ys) kids i \<and>
    current k' = current k \<and> task k' = (task k)(s := (task k s)\<lparr>state := ST_READY, pending_unblocks := 0\<rparr>) \<and>
    mm k' = mm k \<and> cbuff k' = cbuff k \<and> next_pid k' = next_pid k \<and> io k' = io k \<and>
    ticks_since_last_switch k' = ticks_since_last_switch k"
proof -
  have q: "lists_rep (heap k) (family fq rq (xs @ s # ys) kids)" "blocked_ok k s" "s \<noteq> current k"
      "distinct (i # fq @ rq @ xs @ s # ys)" "set (i # fq @ rq @ xs @ s # ys) \<subseteq> {..<10}"
    using inv by (auto simp: sched_inv_def queues_ok_def)
  obtain h1 h2 where h: "list_del (Node s) (heap k) = Some h1" "list_add_tail (Node s) ReadyQ h1 = Some h2"
      "lists_rep h2 (family fq (rq @ [s]) (xs @ ys) kids)"
    using queue_move_ready[OF q(1)] by blast
  let ?k = "(upd_task s (\<lambda>p. p\<lparr>state := ST_READY, pending_unblocks := 0\<rparr>) k)\<lparr>heap := h2\<rparr>"
  have c: "current ?k = current k" by simp
  have r: "sys_unblock pid k = Some (0, ?k)"
    using find_son_kids[OF q(1) ks, of pid] f h q(2)
    by (simp add: sys_unblock_def Let_def blocked_ok_def upd_task_def on_heap_def)
  have pk: "parked ?k t = parked k t" for t by (rule parked_cong) auto
  have "ready_ok ?k s" using q(2) by (simp add: proc_ok_defs pk)
  moreover have "ready_ok ?k t" if "ready_ok k t" for t
    using that by (auto simp: proc_ok_defs pk)
  moreover have "blocked_ok ?k t" if "t \<in> set (xs @ ys)" for t
  proof -
    have "blocked_ok k t" "t \<noteq> s" using that inv by (auto simp: sched_inv_def queues_ok_def)
    then show ?thesis by (simp add: proc_ok_defs pk)
  qed
  ultimately have "queues_ok ?k fq (rq @ [s]) (xs @ ys) kids i"
    using inv h(3) q(4,5) by (auto simp: sched_inv_def queues_ok_def)
  moreover have "cpu_ok ?k" using inv c by (simp add: sched_inv_def cpu_ok_def)
  moreover have "running_ok ?k (current k) = running_ok k (current k)"
    using q(3) by (simp add: running_ok_def)
  ultimately have "sched_inv ?k fq (rq @ [s]) (xs @ ys) kids i"
    using inv unfolding sched_inv_def c pk by auto
  then show ?thesis using r c by simp
qed

lemma sys_unblock_other:
  assumes inv: "sched_inv k fq rq bq kids i" and ks: "kids (current k) = Some ks"
  shows "List.find (\<lambda>s. PID (task k s) = pid) ks = None \<Longrightarrow> sys_unblock pid k = Some (- ECHILD, k)"
    and "List.find (\<lambda>s. PID (task k s) = pid) ks = Some s \<Longrightarrow> state (task k s) \<noteq> ST_BLOCKED \<Longrightarrow>
      sys_unblock pid k =
        Some (0, upd_task s (\<lambda>p. p\<lparr>pending_unblocks := wrap32 (pending_unblocks p + 1)\<rparr>) k)"
proof -
  have q: "lists_rep (heap k) (family fq rq bq kids)" using inv by (simp add: sched_inv_def queues_ok_def)
  note f = find_son_kids[OF q ks, of pid]
  show "List.find (\<lambda>s. PID (task k s) = pid) ks = None \<Longrightarrow> sys_unblock pid k = Some (- ECHILD, k)"
    using f by (simp add: sys_unblock_def Let_def)
  show "List.find (\<lambda>s. PID (task k s) = pid) ks = Some s \<Longrightarrow> state (task k s) \<noteq> ST_BLOCKED \<Longrightarrow>
      sys_unblock pid k =
        Some (0, upd_task s (\<lambda>p. p\<lparr>pending_unblocks := wrap32 (pending_unblocks p + 1)\<rparr>) k)"
    using f by (simp add: sys_unblock_def Let_def)
qed

end
