(* ===== verification/Zeos_Fork.thy ===== *)
theory Zeos_Fork
  imports Zeos_Sys
begin

text \<open>
  What \<^verbatim>\<open>sys_fork\<close> does to memory: the child gets the kernel and code mappings of the parent and a
  private copy of its data pages, made through temporary mappings in the parent's table.
\<close>

subsection \<open>Copying table entries\<close>

lemma copy_entries_result:
  assumes "p < NR_TASKS" "c < NR_TASKS" "p \<noteq> c" "set pags \<subseteq> {..<TOTAL_PAGES}" "q < TOTAL_PAGES"
  shows "tables_only m (copy_entries (row_addr m p) (row_addr m c) pags m)"
    and "pt_entry (copy_entries (row_addr m p) (row_addr m c) pags m) t q =
      (if t = c \<and> q \<in> set pags then pt_entry m p q else pt_entry m t q)"
proof -
  let ?F = "\<lambda>m0 pag m. pt_set m (row_addr m0 c) pag (pt_get m (row_addr m0 p) pag)"
  have "tables_only m (fold (?F m) pags m) \<and> pt_entry (fold (?F m) pags m) t q =
      (if t = c \<and> q \<in> set pags then pt_entry m p q else pt_entry m t q)"
    using assms(4)
  proof (induction pags arbitrary: m)
    case Nil
    then show ?case by simp
  next
    case (Cons a pags)
    let ?m = "?F m a m"
    have a: "a < TOTAL_PAGES" using Cons.prems by simp
    have e: "pt_entry ?m u r = (if u = c \<and> r = a then pt_entry m p a else pt_entry m u r)" if "r < TOTAL_PAGES" for u r
      using pt_entry_pt_set[OF assms(2) a that] pt_get_row[OF assms(1), of m a] by simp
    have "tables_only ?m (fold (?F ?m) pags ?m) \<and> pt_entry (fold (?F ?m) pags ?m) t q =
      (if t = c \<and> q \<in> set pags then pt_entry ?m p q else pt_entry ?m t q)"
      by (rule Cons.IH) (use Cons.prems in simp)
    then show ?case
      using tables_only_trans[of m ?m] e[OF assms(5)] assms(3) by (auto split: if_splits)
  qed
  then show "tables_only m (copy_entries (row_addr m p) (row_addr m c) pags m)"
    "pt_entry (copy_entries (row_addr m p) (row_addr m c) pags m) t q =
      (if t = c \<and> q \<in> set pags then pt_entry m p q else pt_entry m t q)"
    by (simp_all add: copy_entries_def)
qed

subsection \<open>Reserving pages and frames\<close>

definition free_pages :: "mm_state \<Rightarrow> nat \<Rightarrow> nat set" where
  "free_pages m t = {q. USER_LAST_PAGE \<le> q \<and> q < TOTAL_PAGES \<and> pt_entry m t q = 0}"

lemma finite_free_pages [simp]: "finite (free_pages m t)"
  unfolding free_pages_def by simp

lemma get_user_free_page_free:
  assumes "t < NR_TASKS" "free_pages m t \<noteq> {}"
  shows "\<exists>q\<in>free_pages m t. get_user_free_page m (row_addr m t) = int q"
proof -
  obtain q where "q \<in> free_pages m t" using assms(2) by blast
  then have "List.find (\<lambda>pag. pt_get m (row_addr m t) pag = 0) [284..<1024] \<noteq> None"
    unfolding find_upt_None_iff pt_get_row[OF assms(1)] free_pages_def by auto
  then obtain r where r: "List.find (\<lambda>pag. pt_get m (row_addr m t) pag = 0) [284..<1024] = Some r" by blast
  then have "r \<in> free_pages m t"
    unfolding find_upt_Some_iff pt_get_row[OF assms(1)] free_pages_def by simp
  then show ?thesis using r by (auto simp: get_user_free_page_def)
qed

text \<open>
  After \<open>n\<close> rounds: \<open>n\<close> new frames, mapped as the child's first \<open>n\<close> data pages and in the parent's
  formerly free pages \<open>fs\<close>.
\<close>

definition reserved ::
  "mm_state \<Rightarrow> mm_state \<Rightarrow> nat \<Rightarrow> nat \<Rightarrow> frame_owner set \<Rightarrow> (frame_owner \<Rightarrow> nat) \<Rightarrow> nat \<Rightarrow> nat list \<Rightarrow> bool" where
  "reserved m0 m p c R F n fs \<longleftrightarrow> frames_ok m (R \<union> OData c ` {..<n}) F \<and> paging_only m0 m \<and>
     length fs = n \<and> distinct fs \<and> set fs \<subseteq> free_pages m0 p \<and>
     (\<forall>j<n. pt_entry m c (256 + j) = mk_pte (of_nat (F (OData c j))) 7 \<and>
            pt_entry m p (fs ! j) = mk_pte (of_nat (F (OData c j))) 7) \<and>
     (\<forall>t q. q < 1024 \<longrightarrow> \<not> (t = c \<and> 256 \<le> q \<and> q < 256 + n) \<longrightarrow> \<not> (t = p \<and> q \<in> set fs) \<longrightarrow>
        pt_entry m t q = pt_entry m0 t q)"

lemma reserved_free_pages:
  assumes "reserved m0 m p c R F n fs" "p \<noteq> c"
  shows "free_pages m p = free_pages m0 p - set fs"
proof (rule set_eqI)
  fix q
  have r: "\<And>t q. q < 1024 \<Longrightarrow> \<not> (t = c \<and> 256 \<le> q \<and> q < 256 + n) \<Longrightarrow> \<not> (t = p \<and> q \<in> set fs) \<Longrightarrow>
        pt_entry m t q = pt_entry m0 t q"
    and m: "\<And>j. j < n \<Longrightarrow> pt_entry m p (fs ! j) = mk_pte (of_nat (F (OData c j))) 7" "length fs = n"
    using assms(1) by (auto simp: reserved_def)
  have nz: "pt_entry m p q \<noteq> 0" if qs: "q \<in> set fs"
  proof -
    obtain j where "j < n" "q = fs ! j" using qs m(2) by (auto simp: in_set_conv_nth)
    then show ?thesis using m(1)[of j] mk_pte_nonzero[of 7] by simp
  qed
  show "q \<in> free_pages m p \<longleftrightarrow> q \<in> free_pages m0 p - set fs"
    using r[of q p] nz assms(2) by (cases "q \<in> set fs") (auto simp: free_pages_def)
qed

lemma pt_entry_two_ss_pag:
  assumes "p < NR_TASKS" "c < NR_TASKS" "q < 1024" "r < 1024" "s < 1024"
  shows "pt_entry (set_ss_pag (row_addr m c) r (of_nat f) (set_ss_pag (row_addr m p) q (of_nat f) (mark_frame f m))) t s =
    (if t = c \<and> s = r \<or> t = p \<and> s = q then mk_pte (of_nat f) 7 else pt_entry m t s)"
proof -
  let ?m1 = "set_ss_pag (row_addr m p) q (of_nat f) (mark_frame f m)"
  have rows: "row_addr m p = row_addr (mark_frame f m) p" "row_addr m c = row_addr ?m1 c"
    by (simp_all add: set_ss_pag_def)
  show ?thesis
    unfolding rows(2) pt_entry_ss_pag(1)[OF assms(2,4,5)] unfolding rows(1) pt_entry_ss_pag(1)[OF assms(1,3,5)] by auto
qed

lemma reserved_maps:
  assumes "reserved m0 m p c R F n fs" "j < n"
  shows "pt_entry m c (256 + j) = mk_pte (of_nat (F (OData c j))) 7"
    "pt_entry m p (fs ! j) = mk_pte (of_nat (F (OData c j))) 7" "fs ! j < 1024" "fs ! j \<in> set fs"
proof -
  have fs: "length fs = n" "set fs \<subseteq> free_pages m0 p" using assms(1) by (simp_all add: reserved_def)
  show mem: "fs ! j \<in> set fs" using fs(1) assms(2) by simp
  show "pt_entry m c (256 + j) = mk_pte (of_nat (F (OData c j))) 7"
    "pt_entry m p (fs ! j) = mk_pte (of_nat (F (OData c j))) 7" using assms by (simp_all add: reserved_def)
  show "fs ! j < 1024" using subsetD[OF fs(2) mem] by (simp add: free_pages_def)
qed

lemma reserved_step:
  assumes r: "reserved m0 m p c R F n fs" and R: "finite R" "card R + 20 \<le> 384" "OData c n \<notin> R" "n < 20"
    and pc: "p < NR_TASKS" "c < NR_TASKS" "p \<noteq> c" and fp: "q \<in> free_pages m p"
  shows "\<exists>f. alloc_frame m = (int f, mark_frame f m) \<and>
    reserved m0 (set_ss_pag (row_addr m c) (256 + n) (of_nat f) (set_ss_pag (row_addr m p) q (of_nat f) (mark_frame f m)))
      p c R (F(OData c n := f)) (Suc n) (fs @ [q])"
proof -
  let ?R = "R \<union> OData c ` {..<n}"
  have fr: "frames_ok m ?R F" and po: "paging_only m0 m" using r by (simp_all add: reserved_def)
  have "card (OData c ` {..<n}) \<le> n" using card_image_le[of "{..<n}" "OData c"] by simp
  then have "card ?R < 384" using card_Un_le[of R "OData c ` {..<n}"] R(2,4) by linarith
  then obtain f where f: "alloc_frame m = (int f, mark_frame f m)" "256 \<le> f" "f < 1024" "even f" "f \<notin> F ` ?R"
    using alloc_frame_succeeds[OF fr] R(1) by auto
  let ?m1 = "set_ss_pag (row_addr m p) q (of_nat f) (mark_frame f m)"
  let ?m2 = "set_ss_pag (row_addr m c) (256 + n) (of_nat f) ?m1"
  have q: "284 \<le> q" "q < 1024" "q \<notin> set fs" "q \<in> free_pages m0 p"
    using fp reserved_free_pages[OF r pc(3)] by (auto simp: free_pages_def)
  have n: "256 + n < 1024" using R(4) by simp
  have e: "pt_entry ?m2 t s = (if t = c \<and> s = 256 + n \<or> t = p \<and> s = q then mk_pte (of_nat f) 7 else pt_entry m t s)"
    if "s < 1024" for t s by (rule pt_entry_two_ss_pag[OF pc(1,2) q(2) n that])
  have new: "OData c n \<notin> ?R" using R(3) by auto
  have fr2: "frames_ok ?m2 (R \<union> OData c ` {..<Suc n}) (F(OData c n := f))"
  proof -
    have "insert (OData c n) ?R = R \<union> OData c ` {..<Suc n}" by (auto simp: lessThan_Suc)
    then show ?thesis
      using frames_ok_extend[OF fr f(2-5) new] frames_ok_cong[of ?m2 "mark_frame f m"]
      by (simp add: set_ss_pag_def)
  qed
  have po2: "paging_only m0 ?m2" using po by (simp add: paging_only_def set_ss_pag_def)
  have len: "length fs = n" using r by (simp add: reserved_def)
  have maps: "pt_entry ?m2 c (256 + j) = mk_pte (of_nat ((F(OData c n := f)) (OData c j))) 7 \<and>
      pt_entry ?m2 p ((fs @ [q]) ! j) = mk_pte (of_nat ((F(OData c n := f)) (OData c j))) 7" if j: "j < Suc n" for j
  proof (cases "j = n")
    case True
    then show ?thesis using e[of "256 + n" c] e[of q p] n q(2) len by (simp add: nth_append)
  next
    case False
    then have "j < n" using j by simp
    note o = reserved_maps[OF r this]
    have "pt_entry ?m2 c (256 + j) = pt_entry m c (256 + j)"
      using e[of "256 + j" c] \<open>j < n\<close> n q(1) pc(3) by simp
    moreover have "pt_entry ?m2 p (fs ! j) = pt_entry m p (fs ! j)"
      using e[OF o(3), of p] o(4) q(3) pc(3) by auto
    ultimately show ?thesis using o(1,2) False \<open>j < n\<close> len by (simp add: nth_append)
  qed
  have same: "pt_entry ?m2 t s = pt_entry m0 t s"
    if "s < 1024" "\<not> (t = c \<and> 256 \<le> s \<and> s < 256 + Suc n)" "\<not> (t = p \<and> s \<in> set (fs @ [q]))" for t s
    using r e[OF that(1), of t] that by (auto simp: reserved_def)
  have "reserved m0 ?m2 p c R (F(OData c n := f)) (Suc n) (fs @ [q])"
    unfolding reserved_def using fr2 po2 maps same r q(3,4) by (auto simp: reserved_def)
  then show ?thesis using f(1) by blast
qed

lemma fork_reserve_result:
  assumes r: "reserved m0 m p c R F n fs" and R: "finite R" "card R + 20 \<le> 384" "\<And>j. OData c j \<notin> R"
    and pc: "p < NR_TASKS" "c < NR_TASKS" "p \<noteq> c" and fp: "20 \<le> card (free_pages m0 p)" and n: "n \<le> 20"
  shows "\<exists>m' F' fs'. fork_reserve (row_addr m0 p) (row_addr m0 c) [n..<20] m fs = Inr (m', fs') \<and>
    reserved m0 m' p c R F' 20 fs' \<and> (\<forall>r. r \<notin> range (OData c) \<longrightarrow> F' r = F r)"
  using r n
proof (induction "20 - n" arbitrary: n m F fs)
  case 0
  then show ?case by auto
next
  case (Suc d)
  then have n: "n < 20" by simp
  have rows: "row_addr m t = row_addr m0 t" for t
    using Suc.prems(1) paging_only_fields(2) by (simp add: reserved_def)
  have "card (set fs) < card (free_pages m0 p)"
    using Suc.prems(1) n fp distinct_card[of fs] by (simp add: reserved_def)
  then have "free_pages m p \<noteq> {}"
    using reserved_free_pages[OF Suc.prems(1) pc(3)] card_mono[of "set fs" "free_pages m0 p"] by auto
  then obtain q where q: "q \<in> free_pages m p" "get_user_free_page m (row_addr m0 p) = int q"
    using get_user_free_page_free[OF pc(1), of m] rows by auto
  obtain f where f: "alloc_frame m = (int f, mark_frame f m)"
    "reserved m0 (set_ss_pag (row_addr m c) (256 + n) (of_nat f) (set_ss_pag (row_addr m p) q (of_nat f) (mark_frame f m)))
      p c R (F(OData c n := f)) (Suc n) (fs @ [q])"
    using reserved_step[OF Suc.prems(1) R(1,2) R(3) n pc q(1)] by blast
  obtain m' F' fs' where IH: "fork_reserve (row_addr m0 p) (row_addr m0 c) [Suc n..<20]
      (set_ss_pag (row_addr m c) (256 + n) (of_nat f) (set_ss_pag (row_addr m p) q (of_nat f) (mark_frame f m)))
      (fs @ [q]) = Inr (m', fs')" "reserved m0 m' p c R F' 20 fs'"
      "\<forall>r. r \<notin> range (OData c) \<longrightarrow> F' r = (F(OData c n := f)) r"
    using Suc.hyps(1)[OF _ f(2)] Suc.hyps(2) n by force
  have "fork_reserve (row_addr m0 p) (row_addr m0 c) [n..<20] m fs = Inr (m', fs')"
    using IH(1) q(2) f(1) n by (simp add: upt_conv_Cons rows)
  then show ?case using IH(2,3) by (intro exI[of _ m'] exI[of _ F'] exI[of _ fs']) auto
qed

subsection \<open>Copying the data pages\<close>

definition frame_bytes :: "nat \<Rightarrow> DWord set" where
  "frame_bytes f = frame_addr f ` {..<4096}"

lemma maps_page:
  assumes "dirs_ok m" "t < NR_TASKS" "cr3 m = Some t" "q < TOTAL_PAGES"
    "pt_entry m t q = mk_pte (of_nat f) 7" "f < 2 ^ 20"
  shows "maps_range (translate m) (of_nat (4096 * q)) 4096 (frame_addr f)"
  unfolding maps_range_def
proof (intro allI impI)
  fix i :: nat assume "i < 4096"
  then have "translate m (of_nat (4096 * q + i)) = Some (frame_addr f i)"
    using translate_page[OF assms(1-4) _ assms(5,6)] by simp
  then show "translate m (of_nat (4096 * q) + of_nat i) = Some (frame_addr f i)" by simp
qed

lemma frame_bytes_disjoint:
  assumes "f < 2 ^ 20" "g < 2 ^ 20" "f \<noteq> g"
  shows "frame_bytes f \<inter> frame_bytes g = {}"
  using frame_addr_inj[OF assms(1,2)] assms(3) unfolding frame_bytes_def by auto

lemma separate_frames:
  assumes "f < 2 ^ 20" "g < 2 ^ 20" "f \<noteq> g"
  shows "separate (frame_addr f) (frame_addr g) 4096"
  using frame_bytes_disjoint[OF assms] frame_addr_inj[OF assms(2,2)]
  unfolding separate_def frame_bytes_def inj_on_def by simp

text \<open>One page copied from the frame \<open>f\<close> behind page \<open>a\<close> to the frame \<open>g\<close> behind page \<open>b\<close>.\<close>

lemma copy_page:
  assumes "dirs_ok m" "t < NR_TASKS" "cr3 m = Some t" "a < TOTAL_PAGES" "b < TOTAL_PAGES"
    "pt_entry m t a = mk_pte (of_nat f) 7" "pt_entry m t b = mk_pte (of_nat g) 7"
    "f < 2 ^ 20" "g < 2 ^ 20" "f \<noteq> g"
  shows "\<exists>r. copy_data (translate m) (of_nat (4096 * a)) (of_nat (4096 * b)) PAGE_SIZE (ram m) = Some r \<and>
    (\<forall>i<4096. r (frame_addr g i) = ram m (frame_addr f i)) \<and> (\<forall>x. x \<notin> frame_bytes g \<longrightarrow> r x = ram m x)"
  using copy_data_copied[OF maps_page[OF assms(1-4,6,8)] maps_page[OF assms(1-3,5,7,9)]
      separate_frames[OF assms(8-10)], of "ram m"]
  unfolding copied_def frame_bytes_def by simp

text \<open>The whole loop, for pages \<open>ps\<close> (data page, temporary page), with frames \<open>src\<close> and \<open>dst\<close>.\<close>

definition copy_plan ::
  "mm_state \<Rightarrow> nat \<Rightarrow> (nat \<times> nat) list \<Rightarrow> (nat \<Rightarrow> nat) \<Rightarrow> (nat \<Rightarrow> nat) \<Rightarrow> bool" where
  "copy_plan m p ps src dst \<longleftrightarrow> distinct (map fst ps) \<and> distinct (map snd ps) \<and>
     (\<forall>x\<in>set ps. fst x < 20 \<and> 284 \<le> snd x \<and> snd x < 1024 \<and>
        pt_entry m p (256 + fst x) = mk_pte (of_nat (src (fst x))) 7 \<and>
        pt_entry m p (snd x) = mk_pte (of_nat (dst (fst x))) 7 \<and>
        src (fst x) < 2 ^ 20 \<and> dst (fst x) < 2 ^ 20) \<and>
     (\<forall>x\<in>set ps. \<forall>y\<in>set ps. src (fst x) \<noteq> dst (fst y) \<and> (dst (fst x) = dst (fst y) \<longrightarrow> fst x = fst y))"

lemma copy_planD:
  assumes "copy_plan m p ps src dst"
  shows "distinct (map fst ps)" "distinct (map snd ps)"
    and "x \<in> set ps \<Longrightarrow> fst x < 20" "x \<in> set ps \<Longrightarrow> 284 \<le> snd x" "x \<in> set ps \<Longrightarrow> snd x < 1024"
    and "x \<in> set ps \<Longrightarrow> pt_entry m p (256 + fst x) = mk_pte (of_nat (src (fst x))) 7"
    and "x \<in> set ps \<Longrightarrow> pt_entry m p (snd x) = mk_pte (of_nat (dst (fst x))) 7"
    and "x \<in> set ps \<Longrightarrow> src (fst x) < 2 ^ 20" "x \<in> set ps \<Longrightarrow> dst (fst x) < 2 ^ 20"
    and "x \<in> set ps \<Longrightarrow> y \<in> set ps \<Longrightarrow> src (fst x) \<noteq> dst (fst y)"
    and "x \<in> set ps \<Longrightarrow> y \<in> set ps \<Longrightarrow> dst (fst x) = dst (fst y) \<Longrightarrow> fst x = fst y"
  using assms unfolding copy_plan_def by blast+

lemma copy_plan_step:
  assumes pl: "copy_plan m p (x # ps) src dst"
    and e: "\<And>q. q < 1024 \<Longrightarrow> q \<noteq> snd x \<Longrightarrow> pt_entry m' p q = pt_entry m p q"
  shows "copy_plan m' p ps src dst"
  unfolding copy_plan_def
proof (intro conjI ballI impI)
  note d = copy_planD[OF pl]
  show "distinct (map fst ps)" "distinct (map snd ps)" using d(1,2) by simp_all
  fix y assume y: "y \<in> set ps"
  then have y': "y \<in> set (x # ps)" by simp
  have "snd x \<notin> snd ` set ps" using d(2) by simp
  then have "snd y \<noteq> snd x" using y by (metis imageI)
  moreover have "256 + fst y \<noteq> snd x" using d(3)[OF y'] d(4)[of x] by simp
  ultimately show "pt_entry m' p (256 + fst y) = mk_pte (of_nat (src (fst y))) 7"
    "pt_entry m' p (snd y) = mk_pte (of_nat (dst (fst y))) 7"
    using e[of "snd y"] e[of "256 + fst y"] d(3,5-7)[OF y'] by simp_all
  show "fst y < 20" "284 \<le> snd y" "snd y < 1024" "src (fst y) < 2 ^ 20" "dst (fst y) < 2 ^ 20"
    using d(3-5,8,9)[OF y'] by simp_all
  fix z assume "z \<in> set ps"
  then have z': "z \<in> set (x # ps)" by simp
  show "src (fst y) \<noteq> dst (fst z)" by (rule d(10)[OF y' z'])
  show "dst (fst y) = dst (fst z) \<Longrightarrow> fst y = fst z" by (rule d(11)[OF y' z'])
qed

text \<open>The frames of the later steps of a plan are apart from the frame the first step writes.\<close>

lemma copy_plan_apart:
  assumes pl: "copy_plan m p ((j, fp) # ps) src dst" and i: "i < 4096"
  shows "frame_addr (dst j) i \<notin> (\<Union>x\<in>set ps. frame_bytes (dst (fst x)))"
    "y \<in> set ps \<Longrightarrow> frame_addr (src (fst y)) i \<notin> frame_bytes (dst j)"
proof -
  note D = copy_planD[OF pl]
  have ad: "frame_addr f i \<in> frame_bytes f" for f using i by (simp add: frame_bytes_def)
  have dj: "dst j < 2 ^ 20" using D(9)[of "(j, fp)"] by simp
  have oth: "dst (fst y) \<noteq> dst j" "dst (fst y) < 2 ^ 20" "src (fst y) \<noteq> dst j" "src (fst y) < 2 ^ 20"
    if "y \<in> set ps" for y
  proof -
    have y: "y \<in> set ((j, fp) # ps)" using that by simp
    have "j \<notin> fst ` set ps" using D(1) by simp
    then have "fst y \<noteq> j" using that by (metis imageI)
    then show "dst (fst y) \<noteq> dst j" using D(11)[OF y list.set_intros(1)] by auto
    show "src (fst y) \<noteq> dst j" using D(10)[OF y list.set_intros(1)] by simp
    show "dst (fst y) < 2 ^ 20" "src (fst y) < 2 ^ 20" using D(8,9)[OF y] by simp_all
  qed
  show "frame_addr (dst j) i \<notin> (\<Union>x\<in>set ps. frame_bytes (dst (fst x)))"
  proof
    assume "frame_addr (dst j) i \<in> (\<Union>x\<in>set ps. frame_bytes (dst (fst x)))"
    then obtain y where y: "y \<in> set ps" "frame_addr (dst j) i \<in> frame_bytes (dst (fst y))" by blast
    then show False using frame_bytes_disjoint[OF dj oth(2)[OF y(1)] oth(1)[OF y(1), symmetric]] ad[of "dst j"] by auto
  qed
  show "frame_addr (src (fst y)) i \<notin> frame_bytes (dst j)" if "y \<in> set ps"
    using frame_bytes_disjoint[OF oth(4)[OF that] dj oth(3)[OF that]] ad[of "src (fst y)"] by auto
qed

lemma fork_copy_result:
  assumes "dirs_ok m" "p < NR_TASKS" "cr3 m = Some p" "copy_plan m p ps src dst"
  shows "\<exists>m'. fork_copy (row_addr m p) ps m = Some m' \<and> tables_only (m\<lparr>ram := ram m'\<rparr>) m' \<and>
    (\<forall>t q. q < 1024 \<longrightarrow> pt_entry m' t q = (if t = p \<and> q \<in> snd ` set ps then 0 else pt_entry m t q)) \<and>
    (\<forall>x\<in>set ps. \<forall>i<4096. ram m' (frame_addr (dst (fst x)) i) = ram m (frame_addr (src (fst x)) i)) \<and>
    (\<forall>a. a \<notin> (\<Union>x\<in>set ps. frame_bytes (dst (fst x))) \<longrightarrow> ram m' a = ram m a)"
  using assms
proof (induction ps arbitrary: m)
  case Nil
  then show ?case by (simp add: tables_only_def)
next
  case (Cons x ps)
  obtain j fp where x: "x = (j, fp)" by (cases x)
  note pl = copy_planD[OF Cons.prems(4)[unfolded x]]
  have b: "j < 20" "284 \<le> fp" "fp < 1024" "src j < 2 ^ 20" "dst j < 2 ^ 20" "src j \<noteq> dst j"
      "pt_entry m p (256 + j) = mk_pte (of_nat (src j)) 7" "pt_entry m p fp = mk_pte (of_nat (dst j)) 7"
    using pl(3-9)[of "(j, fp)"] pl(10)[of "(j, fp)" "(j, fp)"] by simp_all
  obtain r where r: "copy_data (translate m) (of_nat (4096 * (256 + j))) (of_nat (4096 * fp)) PAGE_SIZE (ram m) = Some r"
      "\<forall>i<4096. r (frame_addr (dst j) i) = ram m (frame_addr (src j) i)"
      "\<forall>a. a \<notin> frame_bytes (dst j) \<longrightarrow> r a = ram m a"
    using copy_page[OF Cons.prems(1-3) _ b(3) b(7,8) b(4-6)] b(1) by auto
  let ?m = "del_ss_pag (row_addr m p) fp (m\<lparr>ram := r\<rparr>)"
  have e: "pt_entry ?m t q = (if t = p \<and> q = fp then 0 else pt_entry m t q)" if "q < 1024" for t q
    using pt_entry_ss_pag(2)[OF Cons.prems(2) b(3) that, of "m\<lparr>ram := r\<rparr>"] by simp
  have f: "row_addr ?m p = row_addr m p" "cr3 ?m = cr3 m" "ram ?m = r" "dirs_ok ?m"
    using Cons.prems(1) tables_only_fields[of "m\<lparr>ram := r\<rparr>" ?m]
    by (simp_all add: dirs_ok_def row_addr_def cong: if_cong)
  have plan: "copy_plan ?m p ps src dst"
    by (rule copy_plan_step[OF Cons.prems(4)]) (use e x in simp)
  obtain m' where m': "fork_copy (row_addr m p) ps ?m = Some m'" "tables_only (?m\<lparr>ram := ram m'\<rparr>) m'"
      "\<And>t q. q < 1024 \<Longrightarrow> pt_entry m' t q = (if t = p \<and> q \<in> snd ` set ps then 0 else pt_entry ?m t q)"
      "\<And>x i. x \<in> set ps \<Longrightarrow> i < 4096 \<Longrightarrow> ram m' (frame_addr (dst (fst x)) i) = r (frame_addr (src (fst x)) i)"
      "\<And>a. a \<notin> (\<Union>x\<in>set ps. frame_bytes (dst (fst x))) \<Longrightarrow> ram m' a = r a"
    using Cons.IH[OF f(4) Cons.prems(2) f(2)[unfolded Cons.prems(3)] plan] unfolding f(1,3) by blast
  have t: "tables_only (m\<lparr>ram := ram m'\<rparr>) m'"
    using m'(2) unfolding tables_only_def del_ss_pag_def pt_set_def by simp
  note apart = copy_plan_apart[OF Cons.prems(4)[unfolded x]]
  have cp: "ram m' (frame_addr (dst (fst y)) i) = ram m (frame_addr (src (fst y)) i)"
    if y: "y \<in> set (x # ps)" and i: "i < 4096" for y i
  proof (cases "y = x")
    case True
    then show ?thesis using m'(5)[OF apart(1)[OF i]] r(2) i x by simp
  next
    case False
    then have "y \<in> set ps" using y by simp
    then show ?thesis using m'(4)[of y i] r(3) apart(2)[of i y] i by simp
  qed
  have rest: "ram m' a = ram m a" if "a \<notin> (\<Union>x\<in>set (x # ps). frame_bytes (dst (fst x)))" for a
    using that m'(5)[of a] r(3) x by simp
  have ent: "pt_entry m' t q = (if t = p \<and> q \<in> snd ` set (x # ps) then 0 else pt_entry m t q)" if "q < 1024" for t q
    unfolding m'(3)[OF that] e[OF that] x by auto
  have "fork_copy (row_addr m p) (x # ps) m = Some m'" using r(1) m'(1) x by simp
  then show ?case using t cp rest ent by (intro exI[of _ m'] conjI allI impI ballI) simp_all
qed

subsection \<open>The shared pages\<close>

text \<open>
  The loop over the shared pages compares the shifted frame address with the frame numbers of
  the shared pages: it never finds one, and changes nothing.
\<close>

lemma shifted_frame_not_shared:
  assumes "\<And>idx. idx < NUM_SHARED_PAGES \<Longrightarrow> sh_frame (shared_pages m idx) = int (F (OShared idx)) \<and>
      0 < F (OShared idx) \<and> F (OShared idx) < 1024" and "g < 1024"
  shows "is_frame_shared m (push_bit 12 (pte_pbase_addr (mk_pte (of_nat g) 7))) = 0"
proof -
  have g: "pte_pbase_addr (mk_pte (of_nat g) 7) = of_nat g"
    by (rule pbase_mk_pte_of_nat) (use assms(2) in simp)
  have s: "push_bit 12 (of_nat g :: DWord) = of_nat (4096 * g)" by (simp add: push_bit_eq_mult)
  have "word_of_int (sh_frame (shared_pages m idx)) \<noteq> (of_nat (4096 * g) :: DWord)" if "idx < 10" for idx
  proof -
    have f: "word_of_int (sh_frame (shared_pages m idx)) = (of_nat (F (OShared idx)) :: DWord)"
      "0 < F (OShared idx)" "F (OShared idx) < 1024" using assms(1)[OF that] by simp_all
    have "F (OShared idx) \<noteq> 4096 * g" using f(2,3) by auto
    then show ?thesis
      unfolding f(1) using of_nat_DWord_inj[of "F (OShared idx)" "4096 * g"] f(3) assms(2) by simp
  qed
  then have "List.find (\<lambda>idx. word_of_int (sh_frame (shared_pages m idx)) = (of_nat (4096 * g) :: DWord)) [0..<10] = None"
    unfolding find_upt_None_iff by blast
  then show ?thesis unfolding g s is_frame_shared_def by simp
qed

lemma shared_frame_range:
  assumes "frames_ok m (owners S) F" "tables_ok m' (owners S) F" "idx < NUM_SHARED_PAGES"
  shows "sh_frame (shared_pages m' idx) = int (F (OShared idx)) \<and> 0 < F (OShared idx) \<and> F (OShared idx) < 1024"
proof -
  have "OShared idx \<in> owners S" using assms(3) by (simp add: fixed_in_owners)
  then have "256 \<le> F (OShared idx)" "F (OShared idx) < 1024" using owner_frame[OF assms(1)] by blast+
  then show ?thesis using assms(2,3) by (simp add: tables_ok_def)
qed

lemma fork_shared_noop:
  assumes inv: "space_inv m S F" and p: "p < NR_TASKS" and PT: "PT = row_addr m p"
  shows "fold (fork_shared_page PT PTc) [USER_LAST_PAGE..<TOTAL_PAGES] m = m"
proof -
  have one: "fork_shared_page PT PTc pag m = m" if pag: "284 \<le> pag" "pag < 1024" for pag
  proof (cases "pt_entry m p pag = 0")
    case True
    then show ?thesis by (simp add: fork_shared_page_def is_logic_page_free_def PT pt_get_row[OF p])
  next
    case False
    have fr: "frames_ok m (owners S) F" "tables_ok m (owners S) F" using inv by (simp_all add: space_inv_def)
    have "high_entry m F (pt_entry m p pag)" using inv p pag by (auto simp: space_inv_def high_ok_def)
    then obtain idx where idx: "idx < 10" "pt_entry m p pag = mk_pte (of_nat (F (OShared idx))) 7"
      using False by (auto simp: high_entry_def)
    have "is_frame_shared m (push_bit 12 (pte_pbase_addr (pt_entry m p pag))) = 0"
      unfolding idx(2) using shifted_frame_not_shared[of m F "F (OShared idx)"]
        shared_frame_range[OF fr] idx(1) by blast
    then show ?thesis using False
      by (simp add: fork_shared_page_def is_logic_page_free_def PT pt_get_row[OF p] Let_def)
  qed
  have "fold (fork_shared_page PT PTc) ps m = m" if "\<forall>x\<in>set ps. 284 \<le> x \<and> x < 1024" for ps
    using that by (induction ps) (simp_all add: one)
  moreover have "\<forall>x\<in>set [284..<1024]. 284 \<le> x \<and> x < (1024::nat)" unfolding set_upt by simp
  ultimately show ?thesis by blast
qed

subsection \<open>The memory of the child\<close>

definition fork_memory :: "nat \<Rightarrow> DWord \<Rightarrow> DWord \<Rightarrow> mm_state \<Rightarrow> mm_state option" where
  "fork_memory p pt_parent pt_child m =
     (case fork_reserve pt_parent pt_child [0..<NUM_PAG_DATA]
        (copy_entries pt_parent pt_child (map ((+) PAG_LOG_INIT_CODE) [0..<NUM_PAG_CODE])
          (copy_entries pt_parent pt_child [0..<NUM_PAG_KERNEL] m)) [] of
        Inl m \<Rightarrow> None
      | Inr (m, free_pt_pages) \<Rightarrow>
          map_option (\<lambda>m. set_cr3 (Some p) (fold (fork_shared_page pt_parent pt_child) [USER_LAST_PAGE..<TOTAL_PAGES] m))
            (fork_copy pt_parent (zip [0..<NUM_PAG_DATA] free_pt_pages) (set_cr3 (Some p) m)))"

text \<open>The child's data is a copy of the parent's; every other byte of memory is kept.\<close>

definition data_copied :: "nat \<Rightarrow> nat \<Rightarrow> (frame_owner \<Rightarrow> nat) \<Rightarrow> ram \<Rightarrow> ram \<Rightarrow> bool" where
  "data_copied p c F r r' \<longleftrightarrow>
     (\<forall>j<NUM_PAG_DATA. \<forall>i<4096. r' (frame_addr (F (OData c j)) i) = r (frame_addr (F (OData p j)) i)) \<and>
     (\<forall>a. a \<notin> (\<Union>j<NUM_PAG_DATA. frame_bytes (F (OData c j))) \<longrightarrow> r' a = r a)"

text \<open>The tables after the first two loops: kernel and code entries of the child are the parent's.\<close>

definition child_base :: "nat \<Rightarrow> nat \<Rightarrow> mm_state \<Rightarrow> mm_state" where
  "child_base p c m = copy_entries (row_addr m p) (row_addr m c) (map ((+) PAG_LOG_INIT_CODE) [0..<NUM_PAG_CODE])
     (copy_entries (row_addr m p) (row_addr m c) [0..<NUM_PAG_KERNEL] m)"

lemma child_base_result:
  assumes "p < NR_TASKS" "c < NR_TASKS" "p \<noteq> c"
  shows "tables_only m (child_base p c m)"
    and "q < TOTAL_PAGES \<Longrightarrow> pt_entry (child_base p c m) t q =
      (if t = c \<and> (q < 256 \<or> 276 \<le> q \<and> q < 284) then pt_entry m p q else pt_entry m t q)"
proof -
  let ?m = "copy_entries (row_addr m p) (row_addr m c) [0..<256] m"
  have k: "set [0..<256] \<subseteq> {..<1024::nat}" "set (map ((+) 276) [0..<8]) \<subseteq> {..<1024::nat}" by auto
  note r1 = copy_entries_result[OF assms k(1), where m = m]
  have rows: "row_addr m p = row_addr ?m p" "row_addr m c = row_addr ?m c"
    using tables_only_fields(8)[OF r1(1), of 0] by simp_all
  have b: "child_base p c m = copy_entries (row_addr ?m p) (row_addr ?m c) (map ((+) 276) [0..<8]) ?m"
    by (simp only: child_base_def rows[symmetric])
  note r2 = copy_entries_result[OF assms k(2), where m = ?m]
  show "tables_only m (child_base p c m)"
    unfolding b by (rule tables_only_trans[OF r1(1)[of 0] r2(1)[of 0]]) simp_all
  have im: "set (map ((+) 276) [0..<8]) = {276..<284::nat}"
  proof -
    have "(+) 276 ` {0..<8} = {276..<284::nat}" by auto
    then show ?thesis by simp
  qed
  show "pt_entry (child_base p c m) t q =
      (if t = c \<and> (q < 256 \<or> 276 \<le> q \<and> q < 284) then pt_entry m p q else pt_entry m t q)" if "q < 1024"
    unfolding b r2(2)[OF that] r1(2)[OF that] im using assms(3) by auto
qed

text \<open>The page tables after fork, entry by entry.\<close>

definition fork_entry :: "mm_state \<Rightarrow> nat \<Rightarrow> nat \<Rightarrow> (frame_owner \<Rightarrow> nat) \<Rightarrow> nat \<Rightarrow> nat \<Rightarrow> page_table_entry" where
  "fork_entry m p c F t q =
     (if t = c \<and> (q < 256 \<or> 276 \<le> q \<and> q < 284) then pt_entry m p q
      else if t = c \<and> 256 \<le> q \<and> q < 276 then mk_pte (of_nat (F (OData c (q - 256)))) 7
      else pt_entry m t q)"

lemma owners_insert: "owners (insert c S) = owners S \<union> OData c ` {..<NUM_PAG_DATA}"
  by (auto simp: owners_def)

lemma fork_space_inv:
  assumes inv: "space_inv m S F" and p: "p \<in> S" and c: "c < NR_TASKS" "c \<notin> S"
    and e: "\<And>t q. q < TOTAL_PAGES \<Longrightarrow> pt_entry m' t q = fork_entry m p c F' t q"
    and fr: "frames_ok m' (owners (insert c S)) F'" and F: "\<And>r. r \<notin> range (OData c) \<Longrightarrow> F' r = F r"
    and d: "dirs_ok m'" "shared_pages m' = shared_pages m"
  shows "space_inv m' (insert c S) F'"
proof -
  have p10: "p < 10" using inv p by (auto simp: space_inv_def)
  have Fo: "F' (OCode j) = F (OCode j)" "F' (OShared j) = F (OShared j)" "t \<noteq> c \<Longrightarrow> F' (OData t j) = F (OData t j)"
    for t j using F by auto
  have kern: "pt_entry m' t q = kernel_entry_of q" if "t < 10" "q < 256" for t q
    using e[of q t] that inv p10 by (auto simp: fork_entry_def space_inv_def tables_ok_def)
  have data: "pt_entry m' t (256 + j) = mk_pte (of_nat (F' (OData t j))) 7" if "t \<in> insert c S" "j < 20" for t j
  proof (cases "t = c")
    case True
    then show ?thesis using e[of "256 + j" t] that(2) by (simp add: fork_entry_def)
  next
    case False
    then have "t \<in> S" "t < 10" using that inv by (auto simp: space_inv_def)
    then show ?thesis
      using e[of "256 + j" t] that(2) False inv
      by (simp add: fork_entry_def space_inv_def tables_ok_def data_in_owners Fo)
  qed
  have "tables_ok m' (owners (insert c S)) F'"
    unfolding tables_ok_def using d kern data inv by (auto simp: data_in_owners Fo space_inv_def tables_ok_def)
  moreover have "code_ok m' (insert c S) F'"
    unfolding code_ok_def using e inv p by (auto simp: fork_entry_def space_inv_def code_ok_def Fo)
  moreover have "high_ok m' F'"
    unfolding high_ok_def
  proof (intro allI impI)
    fix t q assume t: "t < (10::nat)" "284 \<le> q \<and> q < (1024::nat)"
    then have "high_entry m F (pt_entry m t q)" "pt_entry m' t q = pt_entry m t q"
      using inv e[of q t] by (auto simp: space_inv_def high_ok_def fork_entry_def)
    then show "high_entry m' F' (pt_entry m' t q)" by (simp add: high_entry_def Fo)
  qed
  ultimately show ?thesis using inv c fr by (simp add: space_inv_def Fo)
qed

lemma reserved_copy_plan:
  assumes r: "reserved m1 m p c R F' 20 fs" and inv: "space_inv m0 S F" and p: "p \<in> S" "p \<noteq> c" "c \<notin> S"
    and R: "R = owners S" and F: "\<And>r. r \<notin> range (OData c) \<Longrightarrow> F' r = F r"
    and e: "\<And>j. j < 20 \<Longrightarrow> pt_entry m1 p (256 + j) = pt_entry m0 p (256 + j)"
  shows "copy_plan m p (zip [0..<20] fs) (\<lambda>j. F' (OData p j)) (\<lambda>j. F' (OData c j))"
proof -
  have l: "length fs = 20" "distinct fs" and fs: "\<And>q. q \<in> set fs \<Longrightarrow> 284 \<le> q \<and> q < 1024"
    and fr: "frames_ok m (owners S \<union> OData c ` {..<20}) F'"
    and m: "\<And>j. j < 20 \<Longrightarrow> pt_entry m p (fs ! j) = mk_pte (of_nat (F' (OData c j))) 7"
    and same: "\<And>q. q < 1024 \<Longrightarrow> q \<notin> set fs \<Longrightarrow> pt_entry m p q = pt_entry m1 p q"
    using r p(2) unfolding R by (auto simp: reserved_def free_pages_def)
  have p10: "p < 10" using inv p by (auto simp: space_inv_def)
  have src: "pt_entry m p (256 + j) = mk_pte (of_nat (F' (OData p j))) 7" if "j < 20" for j
  proof -
    have "256 + j \<notin> set fs" using fs[of "256 + j"] that by auto
    then have "pt_entry m p (256 + j) = pt_entry m0 p (256 + j)" using same[of "256 + j"] e that by simp
    moreover have "F' (OData p j) = F (OData p j)" by (rule F) (use p(2) in auto)
    ultimately show ?thesis using inv p p10 that
      by (auto simp: space_inv_def tables_ok_def data_in_owners)
  qed
  have own: "OData p j \<in> owners S \<union> OData c ` {..<20}" "OData c j \<in> owners S \<union> OData c ` {..<20}" if "j < 20" for j
    using that p by (auto simp: data_in_owners)
  have "zip [0..<20] fs = map (\<lambda>j. (j, fs ! j)) [0..<20]"
    by (rule nth_equalityI) (simp_all add: l(1) del: upt_rec_numeral)
  then have z: "set (zip [0..<20] fs) = {(j, fs ! j) | j. j < 20}" by (auto simp del: upt_rec_numeral)
  have mf: "map fst (zip [0..<20] fs) = [0..<20]" "map snd (zip [0..<20] fs) = fs"
    by (rule map_fst_zip, simp add: l(1)) (rule map_snd_zip, simp add: l(1))
  show ?thesis
    unfolding copy_plan_def mf
  proof (intro conjI ballI impI)
    show "distinct [0..<20]" "distinct fs" using l(2) by simp_all
    fix x assume "x \<in> set (zip [0..<20] fs)"
    then obtain j where j: "x = (j, fs ! j)" "j < 20" unfolding z by blast
    have fj: "fs ! j \<in> set fs" using j(2) l(1) by simp
    show "fst x < 20" "284 \<le> snd x" "snd x < 1024" using j fs[OF fj] by simp_all
    show "pt_entry m p (256 + fst x) = mk_pte (of_nat (F' (OData p (fst x)))) 7"
      "pt_entry m p (snd x) = mk_pte (of_nat (F' (OData c (fst x)))) 7" using src m j by simp_all
    show "F' (OData p (fst x)) < 2 ^ 20" "F' (OData c (fst x)) < 2 ^ 20"
      using owner_frame(1)[OF fr own(1)] owner_frame(1)[OF fr own(2)] j by simp_all
    fix y assume "y \<in> set (zip [0..<20] fs)"
    then obtain i where i: "y = (i, fs ! i)" "i < 20" unfolding z by blast
    show "F' (OData p (fst x)) \<noteq> F' (OData c (fst y))"
      using owner_frame_eq[OF fr own(1)[OF j(2)] own(2)[OF i(2)]] p(2) i j by simp
    show "F' (OData c (fst x)) = F' (OData c (fst y)) \<Longrightarrow> fst x = fst y"
      using owner_frame_eq[OF fr own(2)[OF j(2)] own(2)[OF i(2)]] i j by simp
  qed
qed

lemma fork_reserved_entry:
  assumes r: "reserved (child_base p c m) m2 p c R F' 20 fs"
    and b: "\<And>q t. q < TOTAL_PAGES \<Longrightarrow> pt_entry (child_base p c m) t q =
      (if t = c \<and> (q < 256 \<or> 276 \<le> q \<and> q < 284) then pt_entry m p q else pt_entry m t q)"
    and pc: "p \<noteq> c" and q: "q < 1024"
  shows "(if t = p \<and> q \<in> set fs then 0 else pt_entry m2 t q) = fork_entry m p c F' t q"
proof -
  have fs: "\<And>q. q \<in> set fs \<Longrightarrow> 284 \<le> q \<and> q < 1024 \<and> pt_entry (child_base p c m) p q = 0"
    and new: "\<And>j. j < 20 \<Longrightarrow> pt_entry m2 c (256 + j) = mk_pte (of_nat (F' (OData c j))) 7"
    and same: "\<not> (t = c \<and> 256 \<le> q \<and> q < 276) \<Longrightarrow> \<not> (t = p \<and> q \<in> set fs) \<Longrightarrow>
      pt_entry m2 t q = pt_entry (child_base p c m) t q"
    using r q by (auto simp: reserved_def free_pages_def)
  consider "t = p \<and> q \<in> set fs" | "t = c \<and> 256 \<le> q \<and> q < 276"
    | "\<not> (t = c \<and> 256 \<le> q \<and> q < 276)" "\<not> (t = p \<and> q \<in> set fs)" by blast
  then show ?thesis
  proof cases
    case 1
    then show ?thesis using fs[of q] b[OF q, of p] pc by (simp add: fork_entry_def)
  next
    case 2
    then have "q - 256 < 20" by linarith
    then show ?thesis using 2 new[of "q - 256"] pc by (simp add: fork_entry_def)
  next
    case 3
    then show ?thesis using same b[OF q, of t] by (auto simp: fork_entry_def)
  qed
qed

lemma reserved_start:
  assumes inv: "space_inv m S F" and t: "tables_only m (child_base p c m)"
  shows "reserved (child_base p c m) (child_base p c m) p c (owners S) F 0 []"
  using inv frames_ok_cong[OF tables_only_fields(1)[OF t]] by (simp add: reserved_def space_inv_def)

lemma data_copied_zip:
  assumes fs: "length fs = 20"
    and cp: "\<And>x i. x \<in> set (zip [0..<20] fs) \<Longrightarrow> i < 4096 \<Longrightarrow>
      r' (frame_addr (F (OData c (fst x))) i) = r (frame_addr (F (OData p (fst x))) i)"
    and rest: "\<And>a. a \<notin> (\<Union>x\<in>set (zip [0..<20] fs). frame_bytes (F (OData c (fst x)))) \<Longrightarrow> r' a = r a"
  shows "data_copied p c F r r'"
proof -
  have sz: "fst ` set (zip [0..<20] fs) = {..<20}"
    using map_fst_zip[of "[0..<20]" fs] fs by (simp del: upt_rec_numeral flip: set_map add: atLeast0LessThan)
  have un: "(\<Union>x\<in>set (zip [0..<20] fs). frame_bytes (F (OData c (fst x)))) = (\<Union>j<20. frame_bytes (F (OData c j)))"
    unfolding sz[symmetric] by (simp only: image_image)
  show ?thesis
    unfolding data_copied_def
  proof (intro conjI allI impI)
    fix j i assume "j < (20::nat)" and i: "i < (4096::nat)"
    then have "j \<in> fst ` set (zip [0..<20] fs)" unfolding sz by simp
    then obtain x where "x \<in> set (zip [0..<20] fs)" "j = fst x" by (rule imageE)
    then show "r' (frame_addr (F (OData c j)) i) = r (frame_addr (F (OData p j)) i)" using cp[of x i] i by (simp only:)
  next
    fix a assume "a \<notin> (\<Union>j<20. frame_bytes (F (OData c j)))"
    then show "r' a = r a" using rest[unfolded un] by (simp only: not_False_eq_True)
  qed
qed

lemma fork_memory_result:
  assumes inv: "space_inv m S F" and p: "p \<in> S" and c: "c < NR_TASKS" "c \<notin> S"
    and free: "20 \<le> card (free_pages m p)"
  shows "\<exists>m' F'. fork_memory p (row_addr m p) (row_addr m c) m = Some m' \<and> space_inv m' (insert c S) F' \<and>
    (\<forall>r. r \<notin> range (OData c) \<longrightarrow> F' r = F r) \<and> cr3 m' = Some p \<and> shared_pages m' = shared_pages m \<and>
    (\<forall>t q. t \<noteq> c \<longrightarrow> q < TOTAL_PAGES \<longrightarrow> pt_entry m' t q = pt_entry m t q) \<and>
    data_copied p c F' (ram m) (ram m')"
proof -
  let ?m1 = "child_base p c m"
  have pc: "p < 10" "p \<noteq> c" and S: "S \<subseteq> {..<10}" using inv p c by (auto simp: space_inv_def)
  note b = child_base_result[OF pc(1) c(1) pc(2), where m = m]
  note f1 = tables_only_fields[OF b(1)]
  have free1: "free_pages ?m1 p = free_pages m p" using b(2)[of _ p] pc(2) by (auto simp: free_pages_def)
  have own: "\<And>j. OData c j \<notin> owners S" using c(2) by (simp add: data_in_owners)
  obtain m2 F' fs where m2: "fork_reserve (row_addr m p) (row_addr m c) [0..<20] ?m1 [] = Inr (m2, fs)"
      "reserved ?m1 m2 p c (owners S) F' 20 fs" "\<And>r. r \<notin> range (OData c) \<Longrightarrow> F' r = F r"
    using fork_reserve_result[OF reserved_start[OF inv b(1)] finite_owners[OF S] _ own pc(1) c(1) pc(2)]
      card_owners[OF S] free free1 f1(8) by auto
  let ?m3 = "set_cr3 (Some p) m2"
  have po: "paging_only ?m1 m2" and fr2: "frames_ok m2 (owners S \<union> OData c ` {..<20}) F'"
    and fs: "set fs \<subseteq> free_pages ?m1 p" "length fs = 20"
    using m2(2) by (simp_all add: reserved_def)
  have f3: "row_addr ?m3 p = row_addr m p" "dirs_ok ?m3" "ram ?m3 = ram m" "shared_pages ?m3 = shared_pages m" "cr3 ?m3 = Some p"
    using paging_only_fields[OF po] f1 inv
    by (simp_all add: set_cr3_def space_inv_def tables_ok_def dirs_ok_def row_addr_def cong: if_cong)
  have plan: "copy_plan ?m3 p (zip [0..<20] fs) (\<lambda>j. F' (OData p j)) (\<lambda>j. F' (OData c j))"
    using reserved_copy_plan[OF m2(2) inv p pc(2) c(2) refl m2(3)] b(2)[of _ p] pc(2)
    by (simp add: copy_plan_def set_cr3_def del: upt_rec_numeral)
  have sz: "snd ` set (zip [0..<20] fs) = set fs"
    using map_snd_zip[of "[0..<20]" fs] fs(2) by (simp del: upt_rec_numeral flip: set_map)
  obtain m4 where m4: "fork_copy (row_addr m p) (zip [0..<20] fs) ?m3 = Some m4" "tables_only (?m3\<lparr>ram := ram m4\<rparr>) m4"
      "\<And>t q. q < 1024 \<Longrightarrow> pt_entry m4 t q = (if t = p \<and> q \<in> set fs then 0 else pt_entry ?m3 t q)"
      "\<And>x i. x \<in> set (zip [0..<20] fs) \<Longrightarrow> i < 4096 \<Longrightarrow>
         ram m4 (frame_addr (F' (OData c (fst x))) i) = ram m (frame_addr (F' (OData p (fst x))) i)"
      "\<And>a. a \<notin> (\<Union>x\<in>set (zip [0..<20] fs). frame_bytes (F' (OData c (fst x)))) \<Longrightarrow> ram m4 a = ram m a"
    using fork_copy_result[OF f3(2) pc(1) f3(5) plan] unfolding f3(1,3) sz by blast
  note f4 = tables_only_fields[OF m4(2)]
  have e: "pt_entry m4 t q = fork_entry m p c F' t q" if q: "q < 1024" for t q
  proof -
    have "pt_entry ?m3 t q = pt_entry m2 t q" by (simp add: set_cr3_def)
    then show ?thesis
      unfolding m4(3)[OF q] using fork_reserved_entry[OF m2(2) b(2) pc(2) q, of t] by (simp only:)
  qed
  have data: "data_copied p c F' (ram m) (ram m4)" by (rule data_copied_zip[OF fs(2) m4(4,5)])
  have d4: "dirs_ok m4" "shared_pages m4 = shared_pages m" "cr3 m4 = Some p" "phys_mem m4 = phys_mem m2"
    using f4 f3 by (simp_all add: set_cr3_def dirs_ok_def row_addr_def cong: if_cong)
  have inv4: "space_inv m4 (insert c S) F'"
    by (rule fork_space_inv[OF inv p c e _ m2(3) d4(1,2)])
      (use fr2 frames_ok_cong[OF d4(4)] in \<open>simp_all add: owners_insert\<close>)
  have row4: "row_addr m p = row_addr m4 p" using f4(8) f3(1) by (simp add: row_addr_def)
  have "fork_memory p (row_addr m p) (row_addr m c) m = Some (set_cr3 (Some p) m4)"
    unfolding fork_memory_def child_base_def[symmetric] m2(1) sum.case prod.case m4(1)
    using fork_shared_noop[OF inv4 pc(1) row4] by simp
  moreover have "set_cr3 (Some p) m4 = m4" using d4(3) by (simp add: set_cr3_def)
  moreover have "\<forall>t q. t \<noteq> c \<longrightarrow> q < 1024 \<longrightarrow> pt_entry m4 t q = pt_entry m t q" using e by (simp add: fork_entry_def)
  ultimately show ?thesis using inv4 m2(3) d4 data by (intro exI[of _ m4] exI[of _ F']) simp
qed

subsection \<open>The whole call\<close>

lemma lists_rep_fresh_upd:
  assumes L: "lists_rep h L" and a: "fresh L a"
  shows "lists_rep (h(a := v)) L"
proof -
  have "dlist (h(a := v)) p xs" if p: "L p = Some xs" for p xs
  proof -
    have "a \<notin> set (p # xs)" using a p unfolding fresh_def by blast
    then have "dlist (h(a := v)) p xs = dlist h p xs" by (intro dlist_cong) auto
    then show ?thesis using lists_repD[OF L p] by simp
  qed
  then show ?thesis using L unfolding lists_rep_def by blast
qed

definition orphan :: "(nat \<rightharpoonup> nat list) \<Rightarrow> nat \<Rightarrow> bool" where
  "orphan kids c \<longleftrightarrow> (\<forall>q ks. kids q = Some ks \<longrightarrow> c \<notin> set ks)"

lemma sons_add:
  assumes L: "lists_rep h (family fq rq bq kids)" and p: "kids p = Some ks"
    and c: "orphan kids c"
  shows "\<exists>h'. list_add_tail (Bros c) (Sons p) h = Some h' \<and> lists_rep h' (family fq rq bq (kids(p \<mapsto> ks @ [c])))"
proof -
  have fr: "fresh (family fq rq bq kids) (Bros c)" using c fresh_Bros unfolding orphan_def by blast
  have s: "family fq rq bq kids (Sons p) = Some (map Bros ks)" using p by simp
  have m: "map Bros ks @ [Bros c] = map Bros (ks @ [c])" by simp
  show ?thesis using klists.add_tail_law[OF L s fr] unfolding m family_upd .
qed

text \<open>The list heap through \<^verbatim>\<open>sys_fork\<close>.\<close>

definition copied_heads :: "nat \<Rightarrow> nat \<Rightarrow> anchor list_heap \<Rightarrow> anchor list_heap" where
  "copied_heads p c h = h(Node c := h (Node p), DeadSons c := h (DeadSons p), Sons c := h (Sons p), Bros c := h (Bros p))"

lemma fork_heap:
  assumes L: "lists_rep h (family (c # fq) rq bq kids)" and pc: "p \<noteq> c"
    and c: "c \<notin> set (fq @ rq @ bq)" "kids c = None" "orphan kids c"
    and p: "kids p = Some ks"
  shows "\<exists>h1 h2 h3. list_del (Node c) h = Some h1 \<and>
    list_add_tail (Node c) ReadyQ (copied_heads p c h1) = Some h2 \<and>
    list_add_tail (Bros c) (Sons p) (INIT_LIST_HEAD (Sons c) h2) = Some h3 \<and>
    lists_rep h3 (family fq (rq @ [c]) bq (kids(c \<mapsto> [], p \<mapsto> ks @ [c])))"
proof -
  have "lists_rep h (family ([] @ c # fq) rq bq kids)" using L by simp
  from queue_del(1)[OF this] obtain h1 where h1: "list_del (Node c) h = Some h1"
      "lists_rep h1 (family fq rq bq kids)" by auto
  let ?L = "family fq rq bq kids"
  have fr: "fresh ?L (Node c)" "fresh ?L (DeadSons c)" "fresh ?L (Sons c)" "fresh ?L (Bros c)"
    using fresh_Node c(1) fresh_DeadSons fresh_Sons[where t = c and kids = kids, OF c(2)] fresh_Bros c(3)[unfolded orphan_def] by blast+
  have "lists_rep (copied_heads p c h1) ?L"
    unfolding copied_heads_def
    by (intro lists_rep_fresh_upd[OF lists_rep_fresh_upd[OF lists_rep_fresh_upd[OF lists_rep_fresh_upd[OF h1(2)]]]] fr)
  from queue_add(2)[OF this c(1)] obtain h2 where h2: "list_add_tail (Node c) ReadyQ (copied_heads p c h1) = Some h2"
      "lists_rep h2 (family fq (rq @ [c]) bq kids)" by blast
  have p': "(kids(c \<mapsto> [])) p = Some ks" using p pc by simp
  have c': "orphan (kids(c \<mapsto> [])) c" using c(3) by (simp add: orphan_def)
  from sons_add[OF init_sons[OF h2(2) c(2)] p' c'] h1(1) h2(1) show ?thesis by blast
qed

lemma fork_memory_SomeE:
  assumes "fork_memory p PTp PTc m = Some m'"
  obtains m2 fs m4 where
    "fork_reserve PTp PTc [0..<NUM_PAG_DATA]
        (copy_entries PTp PTc (map ((+) PAG_LOG_INIT_CODE) [0..<NUM_PAG_CODE])
          (copy_entries PTp PTc [0..<NUM_PAG_KERNEL] m)) [] = Inr (m2, fs)"
    "fork_copy PTp (zip [0..<NUM_PAG_DATA] fs) (set_cr3 (Some p) m2) = Some m4"
    "m' = set_cr3 (Some p) (fold (fork_shared_page PTp PTc) [USER_LAST_PAGE..<TOTAL_PAGES] m4)"
  using assms unfolding fork_memory_def
  by (auto split: sum.splits prod.splits simp del: upt_rec_numeral list.map fold_simps)

text \<open>The child's PCB and stack.\<close>

definition child_pcb :: "kstate \<Rightarrow> nat \<Rightarrow> task_struct" where
  "child_pcb k c = (task k (current k))\<lparr>dir_pages_baseAddr := Some c, PID := next_pid k, nr_ticks := 0,
     state := ST_READY, pending_unblocks := 0, kernel_esp0 := KPtr c 1005, parent := Some (current k)\<rparr>"

definition child_stack :: "kstate \<Rightarrow> nat \<Rightarrow> kword" where
  "child_stack k = (stack k (current k))(1006 := K_ret_from_fork, 1005 := KWord 0)"

lemma sys_fork_result:
  assumes L: "lists_rep (heap k) (family (c # fq) rq bq kids)" and pc: "current k \<noteq> c"
    and c: "c \<notin> set (fq @ rq @ bq)" "kids c = None" "orphan kids c"
    and p: "kids (current k) = Some ks" "dir_pages_baseAddr (task k (current k)) = Some (current k)"
    and b: "dirs_ok (mm k)" "current k < NR_TASKS" "c < NR_TASKS"
    and m: "fork_memory (current k) (row_addr (mm k) (current k)) (row_addr (mm k) c) (mm k) = Some m'"
  shows "\<exists>h. sys_fork k = Some (next_pid k, k\<lparr>mm := m', task := (task k)(c := child_pcb k c),
      stack := (stack k)(c := child_stack k), heap := h, next_pid := wrap32 (next_pid k + 1)\<rparr>) \<and>
    lists_rep h (family fq (rq @ [c]) bq (kids(c \<mapsto> [], current k \<mapsto> ks @ [c])))"
proof -
  obtain h1 h2 h3 where h: "list_del (Node c) (heap k) = Some h1"
      "list_add_tail (Node c) ReadyQ (copied_heads (current k) c h1) = Some h2"
      "list_add_tail (Bros c) (Sons (current k)) (INIT_LIST_HEAD (Sons c) h2) = Some h3"
      "lists_rep h3 (family fq (rq @ [c]) bq (kids(c \<mapsto> [], current k \<mapsto> ks @ [c])))"
    using fork_heap[OF L pc c p(1)] by blast
  obtain m2 fs m4 where mm: "fork_reserve (row_addr (mm k) (current k)) (row_addr (mm k) c) [0..<20]
        (copy_entries (row_addr (mm k) (current k)) (row_addr (mm k) c) (map ((+) 276) [0..<8])
          (copy_entries (row_addr (mm k) (current k)) (row_addr (mm k) c) [0..<256] (mm k))) [] = Inr (m2, fs)"
      "fork_copy (row_addr (mm k) (current k)) (zip [0..<20] fs) (set_cr3 (Some (current k)) m2) = Some m4"
      "m' = set_cr3 (Some (current k)) (fold (fork_shared_page (row_addr (mm k) (current k)) (row_addr (mm k) c)) [284..<1024] m4)"
    using fork_memory_SomeE[OF m] by blast
  have pt: "push_bit 12 (pte_pbase_addr (dir_pages (mm k) c 0)) = row_addr (mm k) c"
      "push_bit 12 (pte_pbase_addr (dir_pages (mm k) (current k) 0)) = row_addr (mm k) (current k)"
    using get_PT_row[OF b(1)] b(2,3) by simp_all
  note ev = free_empty[OF L] free_first[OF L] h(1-3) pt p(2) pc
  show ?thesis
    using h(4) ev mm
    by (intro exI[of _ h3]) (simp add: sys_fork_def copy_union_def copied_heads_def[symmetric] allocate_DIR_def
        get_PT_def get_DIR_def on_mm_def Let_def on_heap_def upd_task_def set_stack_def child_pcb_def child_stack_def
        del: upt_rec_numeral list.map fold_simps)
qed

end
