(* ===== verification/Zeos_Kernel.thy ===== *)
theory Zeos_Kernel
  imports Zeos_Fork
begin

text \<open>
  The invariant of the whole kernel: scheduler, process tree, address spaces, keyboard buffer and
  console together, and that the service routines and system calls keep it.
\<close>

subsection \<open>The invariant\<close>

text \<open>The processes that have an address space: all that run, wait or are blocked, but not idle.\<close>

definition users :: "kstate \<Rightarrow> nat list \<Rightarrow> nat list \<Rightarrow> nat \<Rightarrow> nat set" where
  "users k rq bq i = insert (current k) (set (rq @ bq)) - {i}"

definition tree_ok ::
  "kstate \<Rightarrow> nat list \<Rightarrow> nat list \<Rightarrow> nat list \<Rightarrow> (nat \<rightharpoonup> nat list) \<Rightarrow> nat \<Rightarrow> bool" where
  "tree_ok k fq rq bq kids i \<longleftrightarrow> dom kids = insert i (users k rq bq i) \<and>
     (\<forall>p ks. kids p = Some ks \<longrightarrow> set ks \<subseteq> users k rq bq i - {p} \<and> (\<forall>s\<in>set ks. parent (task k s) = Some p)) \<and>
     (\<forall>t\<in>users k rq bq i. PID (task k t) \<noteq> 1 \<longrightarrow> \<not> orphan kids t)"

definition kernel_inv ::
  "kstate \<Rightarrow> nat list \<Rightarrow> nat list \<Rightarrow> nat list \<Rightarrow> (nat \<rightharpoonup> nat list) \<Rightarrow> nat \<Rightarrow> (frame_owner \<Rightarrow> nat) \<Rightarrow> bool" where
  "kernel_inv k fq rq bq kids i F \<longleftrightarrow> sched_inv k fq rq bq kids i \<and> tree_ok k fq rq bq kids i \<and>
     space_inv (mm k) (users k rq bq i) F \<and> next_pid k > 0 \<and> cb_wf (cbuff k) \<and> cursor_ok (io k)"

lemma kernel_invD:
  assumes "kernel_inv k fq rq bq kids i F"
  shows "sched_inv k fq rq bq kids i" "tree_ok k fq rq bq kids i" "space_inv (mm k) (users k rq bq i) F"
    "next_pid k > 0" "cb_wf (cbuff k)" "cursor_ok (io k)"
  using assms by (simp_all add: kernel_inv_def)

lemma sched_invD:
  assumes "sched_inv k fq rq bq kids i"
  shows "lists_rep (heap k) (family fq rq bq kids)" "distinct (i # fq @ rq @ bq)"
    "set (i # fq @ rq @ bq) \<subseteq> {..<NR_TASKS}" "idle_task k = Some i" "PID (task k i) = 0"
    "current k < NR_TASKS" "current k \<notin> set (fq @ rq @ bq)"
    "dir_pages_baseAddr (task k (current k)) = Some (current k)" "cr3 (mm k) = Some (current k)"
  using assms by (auto simp: sched_inv_def queues_ok_def cpu_ok_def running_ok_def split: if_splits)

text \<open>An address space does not depend on which table is active.\<close>

lemma space_inv_cr3: "space_inv (m\<lparr>cr3 := d\<rparr>) S F = space_inv m S F"
proof -
  have e: "pt_entry (m\<lparr>cr3 := d\<rparr>) = pt_entry m" by (simp add: fun_eq_iff)
  have d: "dirs_ok (m\<lparr>cr3 := d\<rparr>) = dirs_ok m" by (simp add: dirs_ok_def row_addr_def cong: if_cong)
  show ?thesis
    by (simp add: space_inv_def frames_ok_def tables_ok_def code_ok_def high_ok_def high_entry_def e d)
qed

lemma space_inv_ram: "space_inv (m\<lparr>ram := r\<rparr>) S F = space_inv m S F"
proof -
  have e: "pt_entry (m\<lparr>ram := r\<rparr>) = pt_entry m" by (simp add: fun_eq_iff)
  have d: "dirs_ok (m\<lparr>ram := r\<rparr>) = dirs_ok m" by (simp add: dirs_ok_def row_addr_def cong: if_cong)
  show ?thesis
    by (simp add: space_inv_def frames_ok_def tables_ok_def code_ok_def high_ok_def high_entry_def e d)
qed

subsection \<open>fork\<close>

lemma users_facts:
  assumes "kernel_inv k fq rq bq kids i F"
  shows "users k rq bq i \<subseteq> {..<NR_TASKS}" "users k rq bq i \<inter> set fq = {}"
    "current k \<noteq> i \<Longrightarrow> current k \<in> users k rq bq i"
  using sched_invD[OF kernel_invD(1)[OF assms]] by (auto simp: users_def)

lemma sched_inv_fork:
  assumes inv: "sched_inv k (c # fq) rq bq kids i" and cur: "current k \<noteq> i" and np: "next_pid k > 0"
    and cr: "cr3 m' = Some (current k)" and L: "lists_rep h (family fq (rq @ [c]) bq kids')"
  defines "k' \<equiv> k\<lparr>mm := m', task := (task k)(c := child_pcb k c),
      stack := (stack k)(c := child_stack k), heap := h, next_pid := wrap32 (next_pid k + 1)\<rparr>"
  shows "sched_inv k' fq (rq @ [c]) bq kids' i"
proof -
  note d = sched_invD[OF inv]
  have cn: "current k' = current k" by (simp add: k'_def current_def)
  have ne: "c \<noteq> current k" "c \<noteq> i" "c \<notin> set (fq @ rq @ bq)" "c < 10" using d(2,3,7) by auto
  have same: "task k' t = task k t" "parked k' t = parked k t" if "t \<noteq> c" for t
  proof -
    show "task k' t = task k t" using that by (simp add: k'_def)
    show "parked k' t = parked k t" by (rule parked_cong) (use that in \<open>simp_all add: k'_def\<close>)
  qed
  have child: "ready_ok k' c"
    using np by (simp add: ready_ok_def parked_def k'_def child_pcb_def child_stack_def)
  have rdy: "ready_ok k' t" if "t \<in> set (rq @ [c])" for t
  proof (cases "t = c")
    case False
    then have "ready_ok k t" using inv that by (auto simp: sched_inv_def queues_ok_def)
    then show ?thesis using False same by (simp add: ready_ok_def)
  qed (use child in simp)
  have blk: "blocked_ok k' t" if "t \<in> set bq" for t
  proof -
    have "t \<noteq> c" "blocked_ok k t" using ne inv that by (auto simp: sched_inv_def queues_ok_def)
    then show ?thesis using same by (simp add: blocked_ok_def)
  qed
  have q: "queues_ok k' fq (rq @ [c]) bq kids' i"
    using d(2-5) L rdy blk ne same(1)[of i] unfolding queues_ok_def by (auto simp: k'_def)
  have "cpu_ok k'" using inv cr cn by (simp add: sched_inv_def cpu_ok_def k'_def)
  moreover have "parked k i" "running_ok k (current k)" using inv cur by (simp_all add: sched_inv_def)
  ultimately show ?thesis
    unfolding sched_inv_def cn using q cur ne d(7) same by (auto simp: running_ok_def)
qed

lemma tree_ok_fork:
  assumes T: "tree_ok k (c # fq) rq bq kids i" and ks: "kids (current k) = Some ks" and cur: "current k \<noteq> i"
    and c: "c \<notin> users k rq bq i" "c \<noteq> i" and t: "\<And>t. t \<noteq> c \<Longrightarrow> task k' t = task k t"
    and cp: "parent (task k' c) = Some (current k)" and cn: "current k' = current k"
  shows "tree_ok k' fq (rq @ [c]) bq (kids(c \<mapsto> [], current k \<mapsto> ks @ [c])) i"
proof -
  let ?kids = "kids(c \<mapsto> [], current k \<mapsto> ks @ [c])"
  have u: "users k' (rq @ [c]) bq i = insert c (users k rq bq i)" using c cn by (auto simp: users_def)
  have cu: "current k \<in> users k rq bq i" "c \<noteq> current k" using cur c by (auto simp: users_def)
  have k: "dom kids = insert i (users k rq bq i)"
      "\<And>p ks. kids p = Some ks \<Longrightarrow> set ks \<subseteq> users k rq bq i - {p}"
      "\<And>p ks s. kids p = Some ks \<Longrightarrow> s \<in> set ks \<Longrightarrow> parent (task k s) = Some p"
      "\<And>t. t \<in> users k rq bq i \<Longrightarrow> PID (task k t) \<noteq> 1 \<Longrightarrow> \<not> orphan kids t"
    using T by (auto simp: tree_ok_def)
  have pk: "parent (task k' s) = Some p" if "kids p = Some l" "s \<in> set l" for p l s
  proof -
    have "s \<noteq> c" using k(2)[OF that(1)] that(2) c(1) by auto
    then show ?thesis using k(3)[OF that] t by simp
  qed
  have sub: "set ks' \<subseteq> insert c (users k rq bq i) - {p} \<and> (\<forall>s\<in>set ks'. parent (task k' s) = Some p)"
    if kp: "?kids p = Some ks'" for p ks'
  proof (cases "p = current k")
    case True
    then have "ks' = ks @ [c]" using kp by simp
    then show ?thesis using k(2)[OF ks] pk[OF ks] True cu(2) cp by auto
  next
    case False
    then consider "p = c" "ks' = []" | "p \<noteq> c" "kids p = Some ks'" using kp by (auto split: if_splits)
    then show ?thesis
    proof cases
      case 2
      then show ?thesis using k(2)[OF 2(2)] pk[OF 2(2)] by auto
    qed simp
  qed
  have orph: "\<not> orphan ?kids s" if s: "s \<in> insert c (users k rq bq i)" "PID (task k' s) \<noteq> 1" for s
  proof (cases "s = c")
    case True
    then show ?thesis unfolding orphan_def by (auto intro!: exI[of _ "current k"])
  next
    case False
    then have "\<not> orphan kids s" using s t k(4) by simp
    then obtain q l where q: "kids q = Some l" "s \<in> set l" by (auto simp: orphan_def)
    have "q \<noteq> c" using q(1) k(1) c by auto
    then show ?thesis using q ks unfolding orphan_def
      by (cases "q = current k") (auto intro!: exI[of _ q])
  qed
  show ?thesis
    unfolding tree_ok_def u using k(1) cu(1) sub orph by auto
qed

lemma fork_kernel:
  assumes inv: "kernel_inv k (c # fq) rq bq kids i F" and cur: "current k \<noteq> i"
    and pid: "next_pid k < 2 ^ 31 - 1" and free: "20 \<le> card (free_pages (mm k) (current k))"
  shows "\<exists>k' ks F'. kids (current k) = Some ks \<and> sys_fork k = Some (next_pid k, k') \<and>
    kernel_inv k' fq (rq @ [c]) bq (kids(c \<mapsto> [], current k \<mapsto> ks @ [c])) i F' \<and>
    current k' = current k \<and> esp k' = esp k \<and> next_pid k' = next_pid k + 1 \<and>
    ticks_since_last_switch k' = ticks_since_last_switch k \<and> task k' = (task k)(c := child_pcb k c) \<and>
    stack k' = (stack k)(c := child_stack k) \<and>
    data_copied (current k) c F' (ram (mm k)) (ram (mm k')) \<and>
    (\<forall>r. r \<notin> range (OData c) \<longrightarrow> F' r = F r) \<and>
    (\<forall>t q. t \<noteq> c \<longrightarrow> q < TOTAL_PAGES \<longrightarrow> pt_entry (mm k') t q = pt_entry (mm k) t q)"
proof -
  note D = kernel_invD[OF inv] and S = sched_invD[OF kernel_invD(1)[OF inv]] and U = users_facts[OF inv]
  have c: "c < 10" "c \<notin> users k rq bq i" "c \<noteq> i" "c \<noteq> current k" "c \<notin> set (fq @ rq @ bq)"
    using S(2,3,7) by (auto simp: users_def)
  note cu = U(3)[OF cur]
  have "current k \<in> dom kids" using D(2) cu by (simp add: tree_ok_def)
  then obtain ks where ks: "kids (current k) = Some ks" by blast
  have kc: "kids c = None" "orphan kids c"
    using D(2) c unfolding tree_ok_def orphan_def by blast+
  obtain m' F' where m: "fork_memory (current k) (row_addr (mm k) (current k)) (row_addr (mm k) c) (mm k) = Some m'"
      "space_inv m' (insert c (users k rq bq i)) F'" "\<forall>r. r \<notin> range (OData c) \<longrightarrow> F' r = F r"
      "cr3 m' = Some (current k)"
      "\<forall>t q. t \<noteq> c \<longrightarrow> q < TOTAL_PAGES \<longrightarrow> pt_entry m' t q = pt_entry (mm k) t q"
      "data_copied (current k) c F' (ram (mm k)) (ram m')"
    using fork_memory_result[OF D(3) cu c(1,2) free] by blast
  have do: "dirs_ok (mm k)" using D(3) by (simp add: space_inv_def tables_ok_def)
  let ?kids = "kids(c \<mapsto> [], current k \<mapsto> ks @ [c])"
  obtain h where h: "sys_fork k = Some (next_pid k, k\<lparr>mm := m', task := (task k)(c := child_pcb k c),
      stack := (stack k)(c := child_stack k), heap := h, next_pid := wrap32 (next_pid k + 1)\<rparr>)"
    "lists_rep h (family fq (rq @ [c]) bq ?kids)"
    using sys_fork_result[OF S(1) c(4)[symmetric] c(5) kc ks S(8) do S(6) c(1) m(1)] by blast
  let ?k = "k\<lparr>mm := m', task := (task k)(c := child_pcb k c),
      stack := (stack k)(c := child_stack k), heap := h, next_pid := wrap32 (next_pid k + 1)\<rparr>"
  have cn: "current ?k = current k" by (simp add: current_def)
  have u: "users ?k (rq @ [c]) bq i = insert c (users k rq bq i)" using c cn by (auto simp: users_def)
  have "tree_ok ?k fq (rq @ [c]) bq ?kids i"
    by (rule tree_ok_fork[OF D(2) ks cur c(2,3) _ _ cn]) (simp_all add: child_pcb_def)
  moreover have np: "wrap32 (next_pid k + 1) = next_pid k + 1" by (rule wrap32_id) (use D(4) pid in auto)
  ultimately have "kernel_inv ?k fq (rq @ [c]) bq ?kids i F'"
    using sched_inv_fork[OF D(1) cur D(4) m(4) h(2)] m(2) D(4-6) unfolding kernel_inv_def u by simp
  then show ?thesis using h(1) cn m(3,5,6) ks np by (intro exI[of _ ?k] exI[of _ ks] exI[of _ F']) simp
qed

subsection \<open>Scheduling steps\<close>

text \<open>A step that only moves processes between the CPU and the queues keeps the rest.\<close>

lemma tree_ok_cong:
  assumes "tree_ok k fq rq bq kids i" "users k' rq' bq' i = users k rq bq i"
    "\<And>t. PID (task k' t) = PID (task k t)" "\<And>t. parent (task k' t) = parent (task k t)"
  shows "tree_ok k' fq rq' bq' kids i"
  using assms by (simp add: tree_ok_def)

lemma kernel_inv_proc_frame:
  assumes inv: "kernel_inv k fq rq bq kids i F" and s: "sched_inv k' fq rq' bq' kids i"
    and u: "users k' rq' bq' i = users k rq bq i" and f: "proc_frame k k'"
  shows "kernel_inv k' fq rq' bq' kids i F"
proof -
  note D = kernel_invD[OF inv]
  have m: "mm k' = (mm k)\<lparr>cr3 := cr3 (mm k')\<rparr>" using f by (simp add: proc_frame_def)
  have "space_inv (mm k') (users k rq bq i) F" using D(3) by (subst m) (simp only: space_inv_cr3)
  moreover have "tree_ok k' fq rq' bq' kids i"
    by (rule tree_ok_cong[OF D(2) u]) (use f in \<open>simp_all add: proc_frame_def\<close>)
  ultimately show ?thesis using s D(4-6) f unfolding kernel_inv_def u by (simp add: proc_frame_def)
qed

lemma pick_users:
  assumes "rq \<noteq> []" "r = (c \<noteq> i)"
  shows "insert (fst (pick i r c rq)) (set (snd (pick i r c rq) @ bq)) - {i} = insert c (set (rq @ bq)) - {i}"
  using assms by (cases rq) (auto simp: pick_def)

lemma clock_tick_kernel:
  assumes inv: "kernel_inv k fq rq bq kids i F" and e: "slot_ok e"
  shows "\<exists>k' rq'. clock_tick e k = Some k' \<and> kernel_inv k' fq rq' bq kids i F \<and>
    (current k', rq', ticks_since_last_switch k') =
      rr_tick i (quanta k) (current k, rq, ticks_since_last_switch k) \<and> proc_frame k k'"
proof -
  obtain k' rq' where k': "clock_tick e k = Some k'" "sched_inv k' fq rq' bq kids i"
    "(current k', rq', ticks_since_last_switch k') =
      rr_tick i (quanta k) (current k, rq, ticks_since_last_switch k)" "proc_frame k k'"
    using clock_tick_refines[OF kernel_invD(1)[OF inv] e] by blast
  have "users k' rq' bq i = users k rq bq i"
    using k'(3) pick_users[of rq "current k \<noteq> i" "current k" i bq]
    by (auto simp: users_def split: if_splits)
  then show ?thesis using kernel_inv_proc_frame[OF inv k'(2) _ k'(4)] k'(1,3,4) by blast
qed

lemma kbd_kernel:
  assumes inv: "kernel_inv k fq rq bq kids i F"
  shows "kernel_inv (kbd_routine behind key k) fq rq bq kids i F"
proof -
  obtain cb where cb: "kbd_routine behind key k = k\<lparr>cbuff := cb\<rparr>" "cb_wf cb"
    using kernel_invD(5)[OF inv] kbd_queue.enq_invar[OF kernel_invD(5)[OF inv]]
    by (cases "key AND 0x80 \<noteq> 0") (auto simp: kbd_routine_def Let_def, metis kstate.surjective kstate.update_convs(6))
  let ?k = "k\<lparr>cbuff := cb\<rparr>"
  have c: "current ?k = current k" "users ?k rq bq i = users k rq bq i" by (simp_all add: current_def users_def)
  have "sched_inv ?k fq rq bq kids i"
    by (rule sched_inv_cong[OF kernel_invD(1)[OF inv]]) (simp_all add: same_view_def c)
  moreover have "tree_ok ?k fq rq bq kids i"
    by (rule tree_ok_cong[OF kernel_invD(2)[OF inv] c(2)]) simp_all
  ultimately show ?thesis using kernel_invD(3-6)[OF inv] cb c(2) by (simp add: kernel_inv_def)
qed

lemma block_kernel:
  assumes inv: "kernel_inv k fq rq bq kids i F" and c: "current k \<noteq> i"
    and e: "7 \<le> snd (esp k)" "snd (esp k) \<le> KERNEL_STACK_SIZE"
    and z: "pending_unblocks (task k (current k)) = 0" and x: "\<not> (expired k \<and> rq = [])"
  shows "\<exists>k'. sys_block k = Some (0, k') \<and> kernel_inv k' fq (tl rq) (bq @ [current k]) kids i F \<and>
    current k' = (if rq = [] then i else hd rq) \<and> ticks_since_last_switch k' = 0 \<and> proc_frame k k'"
proof -
  obtain k' where k': "sys_block k = Some (0, k')" "sched_inv k' fq (tl rq) (bq @ [current k]) kids i"
    "current k' = (if rq = [] then i else hd rq)" "tick_frame k k'" "ticks_since_last_switch k' = 0"
    using sys_block_switches[OF kernel_invD(1)[OF inv] c e z x] by blast
  have "users k' (tl rq) (bq @ [current k]) i = users k rq bq i"
    using k'(3) c by (cases rq) (auto simp: users_def)
  from kernel_inv_proc_frame[OF inv k'(2) this tick_frame_proc[OF k'(4)]]
  show ?thesis using k'(1,3,5) tick_frame_proc[OF k'(4)] by blast
qed

lemma unblock_kernel:
  assumes inv: "kernel_inv k fq rq bq kids i F" and ks: "kids (current k) = Some ks"
    and f: "List.find (\<lambda>s. PID (task k s) = pid) ks = Some s" and b: "state (task k s) = ST_BLOCKED"
  shows "\<exists>k' xs ys. bq = xs @ s # ys \<and> sys_unblock pid k = Some (0, k') \<and>
    kernel_inv k' fq (rq @ [s]) (xs @ ys) kids i F \<and> current k' = current k \<and>
    task k' = (task k)(s := (task k s)\<lparr>state := ST_READY, pending_unblocks := 0\<rparr>) \<and>
    next_pid k' = next_pid k \<and> ticks_since_last_switch k' = ticks_since_last_switch k"
proof -
  note D = kernel_invD[OF inv]
  have "s \<in> set ks" using f by (auto simp: find_Some_iff)
  then have "s \<in> users k rq bq i" "s \<noteq> current k" using D(2) ks unfolding tree_ok_def by blast+
  then have "s \<in> set (rq @ bq)" by (auto simp: users_def)
  moreover have "s \<notin> set rq" using D(1) b by (auto simp: sched_inv_def queues_ok_def ready_ok_def)
  ultimately obtain xs ys where bq: "bq = xs @ s # ys" using split_list[of s bq] by auto
  obtain k' where k': "sys_unblock pid k = Some (0, k')" "sched_inv k' fq (rq @ [s]) (xs @ ys) kids i"
      "current k' = current k" "task k' = (task k)(s := (task k s)\<lparr>state := ST_READY, pending_unblocks := 0\<rparr>)" "mm k' = mm k"
      "cbuff k' = cbuff k" "next_pid k' = next_pid k" "io k' = io k" "ticks_since_last_switch k' = ticks_since_last_switch k"
    using sys_unblock_blocked[OF D(1)[unfolded bq] ks f] by blast
  have u: "users k' (rq @ [s]) (xs @ ys) i = users k rq bq i" using k'(3) bq by (auto simp: users_def)
  have "tree_ok k' fq (rq @ [s]) (xs @ ys) kids i"
    by (rule tree_ok_cong[OF D(2) u]) (simp_all add: k'(4))
  then have "kernel_inv k' fq (rq @ [s]) (xs @ ys) kids i F"
    using k' D(3-6) unfolding kernel_inv_def u by simp
  then show ?thesis using bq k'(1,3,4,7,9) by blast
qed

subsection \<open>What the processes see after fork\<close>

lemma user_byte_not_child:
  assumes fr: "frames_ok m (owners (insert c S)) F" and o: "r \<in> owners (insert c S)" "r \<notin> range (OData c)" and i: "i < 4096"
  shows "frame_addr (F r) i \<notin> (\<Union>j<NUM_PAG_DATA. frame_bytes (F (OData c j)))"
proof
  assume "frame_addr (F r) i \<in> (\<Union>j<NUM_PAG_DATA. frame_bytes (F (OData c j)))"
  then obtain j where j: "j < 20" "frame_addr (F r) i \<in> frame_bytes (F (OData c j))" by auto
  have d: "OData c j \<in> owners (insert c S)" using j(1) by (simp add: data_in_owners)
  have "F r \<noteq> F (OData c j)" using owner_frame_eq[OF fr o(1) d] o(2) by auto
  then have "frame_bytes (F r) \<inter> frame_bytes (F (OData c j)) = {}"
    by (rule frame_bytes_disjoint[OF owner_frame(1)[OF fr o(1)] owner_frame(1)[OF fr d]])
  moreover have "frame_addr (F r) i \<in> frame_bytes (F r)" using i by (simp add: frame_bytes_def)
  ultimately show False using j(2) by blast
qed

lemma fork_user_bytes:
  assumes cp: "data_copied p c F' r r'" and fr: "frames_ok m (owners (insert c S)) F'"
    and F: "\<forall>x. x \<notin> range (OData c) \<longrightarrow> F' x = F x" and pc: "p \<in> S" "c \<notin> S" and j: "j < 28 * 4096"
  shows "t \<in> S \<Longrightarrow> r' (user_byte F' t j) = r (user_byte F t j)"
    and "r' (user_byte F' c j) = r (user_byte F p j)"
proof -
  have q: "j div 4096 < 28" "j mod 4096 < 4096" using j by auto
  have keep: "r' (frame_addr (F' o1) i) = r (frame_addr (F o1) i)"
    if "o1 \<in> owners (insert c S)" "o1 \<notin> range (OData c)" "i < 4096" for o1 i
    using cp user_byte_not_child[OF fr that] F that(2) by (simp add: data_copied_def)
  show "r' (user_byte F' t j) = r (user_byte F t j)" if t: "t \<in> S"
  proof -
    have "user_owner t (j div 4096) \<in> owners (insert c S)" using user_owner_in[of t _ "j div 4096"] t q(1) by auto
    moreover have "user_owner t (j div 4096) \<notin> range (OData c)" using t pc(2) by (auto simp: user_owner_def)
    ultimately show ?thesis unfolding user_byte_def using keep q(2) by blast
  qed
  show "r' (user_byte F' c j) = r (user_byte F p j)"
  proof (cases "j div 4096 < 20")
    case True
    have "p \<noteq> c" using pc by auto
    then have "F' (OData p (j div 4096)) = F (OData p (j div 4096))" using F by auto
    then show ?thesis using cp True q(2) by (simp add: data_copied_def user_byte_def user_owner_def)
  next
    case False
    then have "OCode (j div 4096 - 20) \<in> owners (insert c S)" using q(1) by (auto simp: fixed_in_owners)
    moreover have "OCode (j div 4096 - 20) \<notin> range (OData c)" by auto
    ultimately have "r' (frame_addr (F' (OCode (j div 4096 - 20))) (j mod 4096)) =
        r (frame_addr (F (OCode (j div 4096 - 20))) (j mod 4096))" using keep q(2) by blast
    then show ?thesis using False by (simp add: user_byte_def user_owner_def)
  qed
qed

subsection \<open>Resuming the child\<close>

lemma resume_forked_child:
  assumes e: "7 \<le> snd (esp k)" and c: "c \<noteq> current k" and esp: "kernel_esp0 (task k c) = KPtr c 1005"
    and st: "stack k c 1006 = K_ret_from_fork" "stack k c 1005 = KWord 0"
  shows "\<exists>k'. task_switch (Some c) k = Some k' \<and> eax k' = KWord 0 \<and> eip k' = stack k c 1007 \<and>
    esp k' = (c, 1008) \<and> stack k' c = stack k c"
proof -
  obtain t d where te: "esp k = (t, d + 7)" using e by (metis le_iff_add add.commute prod.collapse)
  have tc: "t \<noteq> c" using c te by (simp add: current_def)
  let ?k = "switch_frame c k"
  have f: "esp ?k = (t, d + 1)" "kernel_esp0 (task ?k c) = KPtr c 1005" using te esp by (simp_all add: switch_frame_def)
  have s: "stack ?k c = stack k c" using te tc by (simp add: switch_frame_def)
  obtain st' b ip where r: "inner_task_switch c ?k = Some (?k\<lparr>stack := st', ebp := b, eip := ip,
      esp := (c, 1005 + 2), tss_esp0 := (c, 1024), msr_esp := (c, 1024),
      mm := (mm ?k)\<lparr>cr3 := dir_pages_baseAddr (task ?k c)\<rparr>,
      task := (task ?k)(t := (task ?k t)\<lparr>kernel_esp0 := KPtr t (d + 1 - 1)\<rparr>)\<rparr>)"
      "st' = (stack ?k)(t := (stack ?k t)(d + 1 - 1 := ebp ?k))" "ip = st' c (1005 + 1)"
    using inner_task_switch_result[OF f] by blast
  have "st' c = stack k c" using r(2) tc s by simp
  then show ?thesis unfolding task_switch_frame r(1) using r(3) st by (simp add: resume_def)
qed

subsection \<open>Isolation of address spaces\<close>

lemma user_entry_owner:
  assumes "space_inv m S F" "v \<in> S" "256 \<le> x" "x < 1024" "pt_entry m v x \<noteq> 0"
  shows "\<exists>r fl. r \<in> owners S \<and> pt_entry m v x = mk_pte (of_nat (F r)) fl \<and>
    (r \<in> OData v ` {..<20} \<or> r \<in> OCode ` {..<8} \<and> fl = 5 \<or> r \<in> OShared ` {..<10})"
  using user_page_owner[OF assms]
proof (elim disjE exE conjE)
  fix j assume "j < 20" "pt_entry m v x = mk_pte (of_nat (F (OData v j))) 7"
  then show ?thesis using assms(2) by (intro exI[of _ "OData v j"] exI[of _ 7]) (simp add: data_in_owners)
next
  fix j assume "j < 8" "pt_entry m v x = mk_pte (of_nat (F (OCode j))) 5"
  then show ?thesis by (intro exI[of _ "OCode j"] exI[of _ 5]) (simp add: fixed_in_owners)
next
  fix j assume "j < 10" "pt_entry m v x = mk_pte (of_nat (F (OShared j))) 7"
  then show ?thesis by (intro exI[of _ "OShared j"] exI[of _ 7]) (simp add: fixed_in_owners)
qed

end
