(* ===== verification/Zeos_Exit.thy ===== *)
theory Zeos_Exit
  imports Zeos_Kernel
begin

text \<open>
  The end of a process: \<^verbatim>\<open>sys_exit\<close> (\<^verbatim>\<open>sys.c\<close>) takes the caller out of its parent's list, gives its children to
  idle, frees its data frames and its PCB and hands the CPU over. The lemmas follow the call through the
  process tree, the page tables and the scheduler; \<open>exit_kernel\<close> shows that the kernel's invariant is kept.
  The hypothesis on the \<^verbatim>\<open>parent\<close> fields is needed: a child that has ended keeps its \<^verbatim>\<open>parent\<close> field and its
  cleared list entry, which the loop over the children would follow; \<open>exit_stale_child\<close> shows the fault.
\<close>

subsection \<open>Releasing the data pages\<close>

text \<open>After \<open>n\<close> rounds of \<^verbatim>\<open>free_user_pages\<close>: the first \<open>n\<close> data pages are unmapped, their frames free.\<close>

definition released :: "mm_state \<Rightarrow> nat \<Rightarrow> (frame_owner \<Rightarrow> nat) \<Rightarrow> nat \<Rightarrow> mm_state \<Rightarrow> bool" where
  "released m t F n m' \<longleftrightarrow> paging_only m m' \<and>
     (\<forall>f. phys_mem m' f = (if f \<in> F ` OData t ` {..<n} then 0 else phys_mem m f)) \<and>
     (\<forall>u q. q < TOTAL_PAGES \<longrightarrow>
        pt_entry m' u q = (if u = t \<and> 256 \<le> q \<and> q < 256 + n then 0 else pt_entry m u q))"

lemma released_step:
  assumes inv: "space_inv m S F" and t: "t \<in> S" and n: "n < 20" and r: "released m t F n m'"
  shows "released m t F (Suc n) (pt_set (free_frame (pte_pbase_addr (pt_get m' (row_addr m t) (256 + n))) m')
    (row_addr m t) (256 + n) 0)"
proof -
  let ?f = "F (OData t n)"
  have t10: "t < 10" and fr: "frames_ok m (owners S) F" and tb: "tables_ok m (owners S) F" and sh: "F (OShared 0) = 256"
    using inv t by (auto simp: space_inv_def)
  have own: "OData t j \<in> owners S" if "j < 20" for j using t that by (simp add: data_in_owners)
  have f: "256 \<le> ?f" "?f < 1024" using owner_frame[OF fr own[OF n]] by auto
  have "OShared 0 \<in> owners S" by (simp add: owners_def fixed_owners_def)
  then have ne: "?f \<noteq> 256" using owner_frame_eq[OF fr own[OF n], of "OShared 0"] sh by auto
  have row: "row_addr m' t = row_addr m t" using paging_only_fields(2) r by (auto simp: released_def)
  have "pt_get m' (row_addr m t) (256 + n) = mk_pte (of_nat ?f) 7"
    using pt_get_row[OF t10, of m'] row r tb t10 own n by (simp add: released_def tables_ok_def)
  then have pb: "pte_pbase_addr (pt_get m' (row_addr m t) (256 + n)) = of_nat ?f"
    using pbase_mk_pte_of_nat[of ?f 7] f by simp
  have new: "?f \<notin> F ` OData t ` {..<n}"
    using owner_frame_eq[OF fr own[OF n] own] n by (auto simp: image_iff)
  have one: "phys_mem m ?f = 1"
    using fr f own[OF n] owner_frame(1)[OF fr own[OF n]] by (auto simp: frames_ok_def)
  have ff: "free_frame (of_nat ?f) m' = m'\<lparr>phys_mem := (phys_mem m')(?f := 0)\<rparr>"
    using f ne new one r by (simp add: free_frame_def released_def word_less_nat_alt unat_of_nat_DWord)
  let ?m = "m'\<lparr>phys_mem := (phys_mem m')(?f := 0)\<rparr>"
  have e: "pt_entry (pt_set ?m (row_addr m t) (256 + n) 0) u q = (if u = t \<and> q = 256 + n then 0 else pt_entry m' u q)"
    if "q < 1024" for u q
    using pt_entry_pt_set[OF t10, of "256 + n" q ?m 0 u] that n row by simp
  have "F ` OData t ` {..<Suc n} = insert ?f (F ` OData t ` {..<n})" by (auto simp: lessThan_Suc)
  moreover have "paging_only m (pt_set ?m (row_addr m t) (256 + n) 0)"
    using r by (simp add: released_def paging_only_def)
  ultimately show ?thesis
    using r unfolding pb ff released_def by (auto simp: e)
qed

lemma free_user_pages_released:
  assumes inv: "space_inv m S F" and t: "t \<in> S"
  shows "released m t F 20 (free_user_pages (row_addr m t) m)"
proof -
  let ?s = "\<lambda>pag m'. pt_set (free_frame (pte_pbase_addr (pt_get m' (row_addr m t) (256 + pag))) m') (row_addr m t) (256 + pag) 0"
  have "released m t F n (fold ?s [0..<n] m)" if "n \<le> 20" for n
    using that
  proof (induction n)
    case 0
    show ?case by (auto simp: released_def)
  next
    case (Suc n)
    then show ?case using released_step[OF inv t, of n "fold ?s [0..<n] m"] by simp
  qed
  from this[of 20] show ?thesis by (simp add: free_user_pages_def)
qed

lemma owners_remove: "t \<in> S \<Longrightarrow> owners S = owners (S - {t}) \<union> OData t ` {..<20}"
  by (auto simp: owners_def)

lemma free_user_pages_space:
  assumes inv: "space_inv m S F" and t: "t \<in> S"
  shows "space_inv (free_user_pages (row_addr m t) m) (S - {t}) F"
    "paging_only m (free_user_pages (row_addr m t) m)"
proof -
  let ?m = "free_user_pages (row_addr m t) m"
  note r = free_user_pages_released[OF inv t, unfolded released_def]
  show po: "paging_only m ?m" using r by blast
  note pf = paging_only_fields[OF po]
  have fr: "frames_ok m (owners S) F" and tb: "tables_ok m (owners S) F" and co: "code_ok m S F" and hi: "high_ok m F"
    and S: "S \<subseteq> {..<10}" and sh: "F (OShared 0) = 256"
    using inv by (auto simp: space_inv_def)
  have im: "F ` owners (S - {t}) = F ` owners S - F ` OData t ` {..<20}"
  proof -
    have "r \<in> owners (S - {t}) \<Longrightarrow> F r \<notin> F ` OData t ` {..<20}" for r
    proof
      assume a: "r \<in> owners (S - {t})" "F r \<in> F ` OData t ` {..<20}"
      then obtain j where j: "j < 20" "F r = F (OData t j)" by auto
      then have "r = OData t j" using owner_frame_eq[OF fr, of r "OData t j"] a(1) owners_remove[OF t] by auto
      then show False using a(1) by (auto simp: owners_def fixed_owners_def)
    qed
    then show ?thesis using owners_remove[OF t] by auto
  qed
  have sub: "owners (S - {t}) \<subseteq> owners S" using owners_remove[OF t] by blast
  have "frames_ok ?m (owners (S - {t})) F"
    unfolding frames_ok_def im using fr r sub inj_on_subset[OF _ sub, of F] by (auto simp: frames_ok_def)
  moreover have "tables_ok ?m (owners (S - {t})) F"
    using tb r pf unfolding tables_ok_def by (auto simp: data_in_owners)
  moreover have "code_ok ?m (S - {t}) F" using co r by (simp add: code_ok_def)
  moreover have "high_ok ?m F" using hi r by (auto simp: high_ok_def high_entry_def)
  ultimately show "space_inv ?m (S - {t}) F" using S sh by (auto simp: space_inv_def)
qed

subsection \<open>Handing the children to idle\<close>

lemma sons_del:
  assumes "lists_rep h (family fq rq bq kids)" "kids p = Some (xs @ t # ys)"
  shows "\<exists>h'. list_del (Bros t) h = Some h' \<and> lists_rep h' (family fq rq bq (kids(p \<mapsto> xs @ ys)))"
  using del_map[OF assms(1), of "Sons p" Bros xs t ys] assms(2) unfolding family_upd by simp

lemma sons_distinct:
  assumes "lists_rep h (family fq rq bq kids)" "kids p = Some l"
  shows "distinct l"
proof -
  have "dlist h (Sons p) (map Bros l)" using lists_repD[OF assms(1), of "Sons p"] assms(2) by simp
  then have "distinct (map Bros l)" by (auto simp: dlist_def)
  then show ?thesis by (simp add: distinct_map)
qed

lemma orphan_fresh: "orphan kids y \<Longrightarrow> fresh (family fq rq bq kids) (Bros y)"
  using fresh_Bros unfolding orphan_def by blast

lemma sons_del_frame:
  assumes "lists_rep h (family fq rq bq kids)" "kids p = Some (xs @ n # ys)" "orphan kids y" "list_del (Bros n) h = Some h'"
  shows "h' (Bros y) = h (Bros y)"
  by (rule del_frame[OF assms(1) _ orphan_fresh[OF assms(3)] assms(4), of "Sons p" "map Bros xs" "map Bros ys"])
    (use assms(2) in simp)

lemma sons_add_frame:
  assumes "lists_rep h (family fq rq bq kids)" "kids p = Some ks" "orphan kids c" "orphan kids y" "y \<noteq> c"
    and "list_add_tail (Bros c) (Sons p) h = Some h'"
  shows "h' (Bros y) = h (Bros y)"
  by (rule add_tail_frame[OF assms(1) _ orphan_fresh[OF assms(3)] orphan_fresh[OF assms(4)] _ assms(6), of "map Bros ks"])
    (use assms(2,5) in simp_all)

text \<open>After \<open>n\<close> rounds of the loop over the PCBs: the state and the lists of children.\<close>

definition adopted :: "nat \<Rightarrow> nat list \<Rightarrow> nat \<Rightarrow> kstate \<Rightarrow> anchor list_heap \<Rightarrow> kstate" where
  "adopted i ks n k h = k\<lparr>heap := h,
     task := \<lambda>t. if t \<in> set ks \<and> t < n then (task k t)\<lparr>parent := Some i\<rparr> else task k t\<rparr>"

definition adoption :: "(nat \<rightharpoonup> nat list) \<Rightarrow> nat \<Rightarrow> nat list \<Rightarrow> nat \<Rightarrow> nat list \<Rightarrow> nat \<Rightarrow> (nat \<rightharpoonup> nat list)" where
  "adoption kids c ks i is n = kids(c \<mapsto> filter (\<lambda>t. n \<le> t) ks, i \<mapsto> is @ filter (\<lambda>t. t \<in> set ks) [0..<n])"

lemma adoption_Suc_other: "n \<notin> set ks \<Longrightarrow> adoption kids c ks i is (Suc n) = adoption kids c ks i is n"
proof -
  assume n: "n \<notin> set ks"
  have "filter (\<lambda>t. Suc n \<le> t) ks = filter (\<lambda>t. n \<le> t) ks"
    by (rule filter_cong) (use n in \<open>auto simp: Suc_le_eq le_less\<close>)
  then show ?thesis using n by (simp add: adoption_def)
qed

lemma adopted_Suc:
  assumes "n \<in> set ks"
  shows "upd_task n (\<lambda>p. p\<lparr>parent := Some i\<rparr>) (adopted i ks n k h) = adopted i ks (Suc n) k h"
proof -
  have "(\<lambda>t. if t \<in> set ks \<and> t < n then task k t\<lparr>parent := Some i\<rparr> else task k t)(n := (task k n)\<lparr>parent := Some i\<rparr>) =
      (\<lambda>t. if t \<in> set ks \<and> t < Suc n then task k t\<lparr>parent := Some i\<rparr> else task k t)"
    using assms by (auto simp: less_Suc_eq)
  then show ?thesis by (simp add: adopted_def upd_task_def)
qed

lemma adopted_fields [simp]:
  "current (adopted i ks n k h) = current k" "idle_task (adopted i ks n k h) = idle_task k"
  "heap (adopted i ks n k h) = h" "mm (adopted i ks n k h) = mm k" "(adopted i ks n k h)\<lparr>heap := h'\<rparr> = adopted i ks n k h'"
  "task (adopted i ks n k h) t = (if t \<in> set ks \<and> t < n then (task k t)\<lparr>parent := Some i\<rparr> else task k t)"
  by (simp_all add: adopted_def current_def)

text \<open>While the sons of \<open>c\<close> are handed over, one that is still to come is in no other list of sons.\<close>

lemma adoption_unique:
  assumes ks: "kids c = Some ks" "kids i = Some is" "c \<noteq> i" and n: "n \<in> set ks"
    and uniq: "\<And>p l s. kids p = Some l \<Longrightarrow> s \<in> set l \<Longrightarrow> parent (task k s) = Some p"
    and p: "adoption kids c ks i is n p = Some ls" "n \<in> set ls"
  shows "p = c"
proof (rule ccontr)
  assume pc: "p \<noteq> c"
  have pn: "parent (task k n) = Some c" by (rule uniq[OF ks(1) n])
  show False
  proof (cases "p = i")
    case True
    then have "n \<in> set is" using p ks(3) by (auto simp: adoption_def)
    then show False using uniq[OF ks(2)] pn ks(3) by auto
  next
    case False
    then have "kids p = Some ls" using p pc by (simp add: adoption_def)
    then show False using uniq p(2) pn pc by auto
  qed
qed

lemma exit_orphan_lists:
  assumes "exit_orphan n k = Some k'" "parent (task k n) = Some (current k)" "idle_task k = Some i"
  obtains h1 where "list_del (Bros n) (heap k) = Some h1" "list_add_tail (Bros n) (Sons i) h1 = Some (heap k')"
proof -
  from assms have "Option.bind (on_heap (list_del (Bros n)) (upd_task n (\<lambda>p. p\<lparr>parent := Some i\<rparr>) k))
      (on_heap (list_add_tail (Bros n) (Sons i))) = Some k'" by (simp add: exit_orphan_def)
  then obtain ka where ka: "on_heap (list_del (Bros n)) (upd_task n (\<lambda>p. p\<lparr>parent := Some i\<rparr>) k) = Some ka"
      "on_heap (list_add_tail (Bros n) (Sons i)) ka = Some k'" by (auto simp: bind_eq_Some_conv)
  from ka(1) obtain h1 where h1: "list_del (Bros n) (heap k) = Some h1" "heap ka = h1" by (auto simp: on_heap_def)
  from ka(2) h1(2) have "list_add_tail (Bros n) (Sons i) h1 = Some (heap k')" by (auto simp: on_heap_def)
  with h1(1) show thesis by (rule that)
qed

lemma exit_orphan_step:
  assumes L: "lists_rep h (family fq rq bq (adoption kids c ks i is n))"
    and i: "idle_task k = Some i" "current k = c" "c \<noteq> i" and ks: "kids c = Some ks" "kids i = Some is"
    and uniq: "\<And>p l s. kids p = Some l \<Longrightarrow> s \<in> set l \<Longrightarrow> parent (task k s) = Some p"
    and own: "parent (task k n) = Some c \<longrightarrow> n \<in> set ks"
    and d: "distinct ks"
  shows "\<exists>h'. exit_orphan n (adopted i ks n k h) = Some (adopted i ks (Suc n) k h') \<and>
    lists_rep h' (family fq rq bq (adoption kids c ks i is (Suc n)))"
proof (cases "n \<in> set ks")
  case False
  then have "parent (task k n) \<noteq> Some c" using own by auto
  moreover have "adopted i ks (Suc n) k h = adopted i ks n k h"
    unfolding adopted_def by (rule arg_cong[of _ _ "\<lambda>f. k\<lparr>heap := h, task := f\<rparr>"]) (use False in \<open>auto simp: less_Suc_eq\<close>)
  ultimately have "exit_orphan n (adopted i ks n k h) = Some (adopted i ks (Suc n) k h)"
    using False i(2) by (simp add: exit_orphan_def)
  then show ?thesis using L adoption_Suc_other[OF False] by auto
next
  case True
  let ?K = "adoption kids c ks i is n"
  have pn: "parent (task k n) = Some c" using uniq[OF ks(1) True] .
  have "n \<in> set (filter (\<lambda>t. n \<le> t) ks)" using True by simp
  from split_list[OF this] obtain xs ys where xy: "filter (\<lambda>t. n \<le> t) ks = xs @ n # ys" by blast
  have dn: "distinct (xs @ n # ys)" using d distinct_filter[of ks "\<lambda>t. n \<le> t"] xy by simp
  have ne: "filter (\<lambda>t. t \<noteq> n) xs = xs" "filter (\<lambda>t. t \<noteq> n) ys = ys" using dn by (auto simp: filter_id_conv)
  have "filter (\<lambda>t. Suc n \<le> t) ks = filter (\<lambda>t. t \<noteq> n) (filter (\<lambda>t. n \<le> t) ks)"
    unfolding filter_filter by (rule filter_cong) auto
  also have "\<dots> = xs @ ys" unfolding xy using ne by simp
  finally have xy': "filter (\<lambda>t. Suc n \<le> t) ks = xs @ ys" .
  have "?K c = Some (xs @ n # ys)" using i(3) xy by (simp add: adoption_def)
  from sons_del[OF L this] obtain h1 where h1: "list_del (Bros n) h = Some h1"
    "lists_rep h1 (family fq rq bq (?K(c \<mapsto> xs @ ys)))" by blast
  have ki: "(?K(c \<mapsto> xs @ ys)) i = Some (is @ filter (\<lambda>t. t \<in> set ks) [0..<n])"
    using i(3) by (simp add: adoption_def)
  have "n \<notin> set l" if kq: "(?K(c \<mapsto> xs @ ys)) q = Some l" for q l
  proof (cases "q = c")
    case True
    then show ?thesis using kq dn by auto
  next
    case False
    then have kq: "?K q = Some l" using kq by simp
    have "q = c" if "n \<in> set l" by (rule adoption_unique[OF ks i(3) \<open>n \<in> set ks\<close>, where k = k]) (use uniq that kq in blast)+
    then show ?thesis using False by blast
  qed
  then have "orphan (?K(c \<mapsto> xs @ ys)) n" by (auto simp: orphan_def)
  from sons_add[OF h1(2) ki this] obtain h2 where h2: "list_add_tail (Bros n) (Sons i) h1 = Some h2"
    "lists_rep h2 (family fq rq bq (?K(c \<mapsto> xs @ ys, i \<mapsto> (is @ filter (\<lambda>t. t \<in> set ks) [0..<n]) @ [n])))" by blast
  have "?K(c \<mapsto> xs @ ys, i \<mapsto> (is @ filter (\<lambda>t. t \<in> set ks) [0..<n]) @ [n]) = adoption kids c ks i is (Suc n)"
    unfolding adoption_def xy' using True i(3) by (simp add: fun_upd_twist)
  moreover have "exit_orphan n (adopted i ks n k h) = Some (adopted i ks (Suc n) k h2)"
    unfolding exit_orphan_def using pn i h1(1) h2(1) True
    by (simp add: adopted_Suc on_heap_def)
  ultimately show ?thesis using h2(2) by auto
qed

text \<open>Handing one child over leaves the entries of every slot without a parent list alone.\<close>

lemma exit_orphan_frame:
  assumes L: "lists_rep h (family fq rq bq K)" and c: "K c = Some l" "c \<noteq> i" and i: "K i = Some is"
    and n: "n \<in> set l" and u: "\<And>p ls. K p = Some ls \<Longrightarrow> n \<in> set ls \<Longrightarrow> p = c"
    and y: "orphan K y" and h1: "list_del (Bros n) h = Some h1" and h2: "list_add_tail (Bros n) (Sons i) h1 = Some h2"
  shows "h2 (Bros y) = h (Bros y)"
proof -
  obtain xs ys where l: "l = xs @ n # ys" "n \<notin> set xs" using split_list_first[OF n] by blast
  have d: "distinct l" by (rule sons_distinct[OF L c(1)])
  obtain h' where h': "list_del (Bros n) h = Some h'" "lists_rep h' (family fq rq bq (K(c \<mapsto> xs @ ys)))"
    using sons_del[OF L, of c xs n ys] c(1) l(1) by blast
  then have L1: "lists_rep h1 (family fq rq bq (K(c \<mapsto> xs @ ys)))" using h1 by simp
  have "y \<notin> set l" using y c(1) unfolding orphan_def by blast
  then have o: "orphan (K(c \<mapsto> xs @ ys)) y" "y \<noteq> n" using y l(1) n unfolding orphan_def by (auto split: if_splits)
  have n1: "orphan (K(c \<mapsto> xs @ ys)) n" using u d l unfolding orphan_def by (auto split: if_splits)
  have "h2 (Bros y) = h1 (Bros y)" by (rule sons_add_frame[OF L1 _ n1 o h2]) (use c(2) i in simp)
  also have "\<dots> = h (Bros y)" using sons_del_frame[OF L _ y h1] c(1) l(1) by blast
  finally show ?thesis .
qed

lemma exit_orphans:
  assumes L: "lists_rep (heap k) (family fq rq bq kids)"
    and i: "idle_task k = Some i" "current k = c" "c \<noteq> i" and ks: "kids c = Some ks" "kids i = Some is"
    and uniq: "\<And>p l s. kids p = Some l \<Longrightarrow> s \<in> set l \<Longrightarrow> parent (task k s) = Some p"
    and own: "\<And>s. s < n \<Longrightarrow> parent (task k s) = Some c \<Longrightarrow> s \<in> set ks"
  shows "\<exists>h. fold_option exit_orphan [0..<n] k = Some (adopted i ks n k h) \<and>
    lists_rep h (family fq rq bq (adoption kids c ks i is n)) \<and>
    (\<forall>y. orphan kids y \<longrightarrow> h (Bros y) = heap k (Bros y))"
  using own
proof (induction n)
  case 0
  have "adopted i ks 0 k (heap k) = k" by (simp add: adopted_def)
  moreover have "adoption kids c ks i is 0 = kids" using ks by (auto simp: adoption_def fun_eq_iff)
  ultimately show ?case using L by (intro exI[of _ "heap k"]) simp
next
  case (Suc n)
  let ?K = "adoption kids c ks i is n"
  obtain h where h: "fold_option exit_orphan [0..<n] k = Some (adopted i ks n k h)"
      "lists_rep h (family fq rq bq ?K)" "\<And>y. orphan kids y \<Longrightarrow> h (Bros y) = heap k (Bros y)" using Suc by auto
  obtain h' where h': "exit_orphan n (adopted i ks n k h) = Some (adopted i ks (Suc n) k h')"
      "lists_rep h' (family fq rq bq (adoption kids c ks i is (Suc n)))"
  proof -
    have "\<exists>h'. exit_orphan n (adopted i ks n k h) = Some (adopted i ks (Suc n) k h') \<and>
        lists_rep h' (family fq rq bq (adoption kids c ks i is (Suc n)))"
      by (rule exit_orphan_step[OF h(2) i ks _ _ sons_distinct[OF L ks(1)]]) (use uniq Suc.prems[of n] in auto)
    then show thesis using that by blast
  qed
  have "h' (Bros y) = h (Bros y)" if y: "orphan kids y" for y
  proof (cases "n \<in> set ks")
    case False
    then have "parent (task k n) \<noteq> Some c" using Suc.prems[of n] by auto
    then have "exit_orphan n (adopted i ks n k h) = Some (adopted i ks n k h)"
      using False i(2) by (simp add: exit_orphan_def adopted_def)
    then show ?thesis using h'(1) by (auto simp: adopted_def dest: arg_cong[of _ _ heap])
  next
    case True
    have pn: "parent (task k n) = Some c" by (rule uniq[OF ks(1) True])
    have yK: "orphan ?K y" using y ks by (auto simp: orphan_def adoption_def split: if_splits)
    have u: "p = c" if "?K p = Some ls" "n \<in> set ls" for p ls
      by (rule adoption_unique[OF ks i(3) True, where k = k]) (use uniq that in blast)+
    have nl: "?K c = Some (filter (\<lambda>t. n \<le> t) ks)" "n \<in> set (filter (\<lambda>t. n \<le> t) ks)" using True i(3) by (simp_all add: adoption_def)
    have ki: "?K i = Some (is @ filter (\<lambda>t. t \<in> set ks) [0..<n])" by (simp add: adoption_def)
    obtain h1 where h1: "list_del (Bros n) h = Some h1" "list_add_tail (Bros n) (Sons i) h1 = Some h'"
      by (rule exit_orphan_lists[OF h'(1), of i]) (use pn i in \<open>simp_all add: adopted_def\<close>)
    from exit_orphan_frame[OF h(2) nl(1) i(3) ki nl(2) u yK h1] show ?thesis .
  qed
  then have "\<forall>y. orphan kids y \<longrightarrow> h' (Bros y) = heap k (Bros y)" using h(3) by simp
  then show ?case using h(1) h' by (intro exI[of _ h']) simp
qed

subsection \<open>The shared pages\<close>

lemma get_PT_Some:
  "dir_pages_baseAddr (task k t) = Some t \<Longrightarrow> dirs_ok (mm k) \<Longrightarrow> t < NR_TASKS \<Longrightarrow> get_PT k t = Some (row_addr (mm k) t)"
  by (simp add: get_PT_def get_PT_row)

text \<open>As in fork, the loop over the shared pages finds none.\<close>

lemma exit_shared_noop:
  assumes inv: "space_inv (mm k) S F" and p: "p < NR_TASKS" and d: "dir_pages_baseAddr (task k p) = Some p"
  shows "fold_option (exit_shared_page p) [USER_LAST_PAGE..<TOTAL_PAGES] k = Some k"
proof -
  have fr: "frames_ok (mm k) (owners S) F" "tables_ok (mm k) (owners S) F" using inv by (simp_all add: space_inv_def)
  have pt: "get_PT k p = Some (row_addr (mm k) p)"
    using get_PT_Some[OF d _ p] fr(2) by (simp add: tables_ok_def)
  have one: "exit_shared_page p pag k = Some k" if pag: "284 \<le> pag" "pag < 1024" for pag
  proof (cases "pt_entry (mm k) p pag = 0")
    case True
    then show ?thesis by (simp add: exit_shared_page_def is_logic_page_free_def pt pt_get_row[OF p])
  next
    case False
    have "high_entry (mm k) F (pt_entry (mm k) p pag)" using inv p pag by (auto simp: space_inv_def high_ok_def)
    then obtain idx where idx: "idx < 10" "pt_entry (mm k) p pag = mk_pte (of_nat (F (OShared idx))) 7"
      using False by (auto simp: high_entry_def)
    have "is_frame_shared (mm k) (push_bit 12 (pte_pbase_addr (pt_entry (mm k) p pag))) = 0"
      unfolding idx(2) using shifted_frame_not_shared[of "mm k" F "F (OShared idx)"]
        shared_frame_range[OF fr] idx(1) by blast
    then show ?thesis using False
      by (simp add: exit_shared_page_def is_logic_page_free_def pt pt_get_row[OF p] Let_def)
  qed
  have "fold_option (exit_shared_page p) ps k = Some k" if "\<forall>x\<in>set ps. 284 \<le> x \<and> x < 1024" for ps
    using that by (induction ps rule: rev_induct) (simp_all add: one)
  moreover have "\<forall>x\<in>set [284..<1024]. 284 \<le> x \<and> x < (1024::nat)" unfolding set_upt by simp
  ultimately show ?thesis by blast
qed

subsection \<open>The family after an exit\<close>

text \<open>The process leaves its parent's list, its children join the list of idle in the order of their
  PCBs.\<close>

definition exit_kids :: "(nat \<rightharpoonup> nat list) \<Rightarrow> nat \<Rightarrow> nat \<Rightarrow> (nat \<rightharpoonup> nat list)" where
  "exit_kids kids c i = (\<lambda>p. map_option (remove1 c) (kids p))
     (c := None, i \<mapsto> remove1 c (the (kids i)) @ filter (\<lambda>t. t \<in> set (the (kids c))) [0..<NR_TASKS])"

lemma lists_rep_drop:
  "lists_rep h (family fq rq bq kids) \<Longrightarrow> lists_rep h (family fq rq bq (kids(c := None)))"
proof -
  assume L: "lists_rep h (family fq rq bq kids)"
  have "family fq rq bq kids a = Some xs" if "family fq rq bq (kids(c := None)) a = Some xs" for a xs
    using that by (auto simp: family_def split: anchor.splits if_splits)
  then show ?thesis using L unfolding lists_rep_def by blast
qed

lemma exit_detach:
  assumes L: "lists_rep h (family fq rq bq kids)" and T: "tree_ok k fq rq bq kids i" and c: "c \<in> users k rq bq i"
    and one: "PID (task k c) = 1 \<longrightarrow> orphan kids c"
  shows "\<exists>h'. (if PID (task k c) \<noteq> 1 then list_del (Bros c) h else Some h) = Some h' \<and>
    lists_rep h' (family fq rq bq (\<lambda>p. map_option (remove1 c) (kids p)))"
proof (cases "PID (task k c) = 1")
  case True
  then have "c \<notin> set l" if "kids p = Some l" for p l using one that by (auto simp: orphan_def)
  then have "map_option (remove1 c) (kids p) = kids p" for p by (cases "kids p") (simp_all add: remove1_idem)
  then show ?thesis using True L by simp
next
  case False
  then have "\<not> orphan kids c" using T c by (simp add: tree_ok_def)
  then obtain q l where q: "kids q = Some l" "c \<in> set l" by (auto simp: orphan_def)
  from split_list_first[OF q(2)] obtain xs ys where l: "l = xs @ c # ys" "c \<notin> set xs" by blast
  have par: "parent (task k c) = Some q" using T q by (auto simp: tree_ok_def)
  have "map_option (remove1 c) (kids p) = kids p" if "p \<noteq> q" for p
  proof (cases "kids p")
    case (Some l')
    then have "c \<notin> set l'" using T par that by (auto simp: tree_ok_def)
    then show ?thesis using Some by (simp add: remove1_idem)
  qed simp
  moreover have "remove1 c l = xs @ ys" using l by (simp add: remove1_append)
  ultimately have "(\<lambda>p. map_option (remove1 c) (kids p)) = kids(q \<mapsto> xs @ ys)" using q(1) by (auto simp: fun_eq_iff)
  then show ?thesis using sons_del[OF L, of q xs c ys] q(1) l False by simp
qed

lemma exit_detach_frame:
  assumes L: "lists_rep h (family fq rq bq kids)" and T: "tree_ok k fq rq bq kids i" and c: "c \<in> users k rq bq i"
    and h': "(if PID (task k c) \<noteq> 1 then list_del (Bros c) h else Some h) = Some h'" and y: "orphan kids y"
  shows "h' (Bros y) = h (Bros y)"
proof (cases "PID (task k c) = 1")
  case False
  then have "\<not> orphan kids c" using T c by (simp add: tree_ok_def)
  then obtain q l where q: "kids q = Some l" "c \<in> set l" by (auto simp: orphan_def)
  from split_list[OF q(2)] obtain xs ys where l: "l = xs @ c # ys" by blast
  show ?thesis using sons_del_frame[OF L _ y, of q xs c ys h'] q(1) l h' False by simp
qed (use h' in simp)

lemma orphan_exit_kids:
  assumes "kids i = Some l" "kids c = Some ks" "c \<notin> set ks" and d: "\<And>p l. kids p = Some l \<Longrightarrow> distinct l"
  shows "orphan (exit_kids kids c i) c"
  unfolding orphan_def
proof (intro allI impI)
  fix q xs assume q: "exit_kids kids c i q = Some xs"
  show "c \<notin> set xs"
  proof (cases "q = i")
    case True
    then have "xs = remove1 c l @ filter (\<lambda>t. t \<in> set ks) [0..<10]" using q assms(1,2) by (simp add: exit_kids_def)
    then show ?thesis using assms(3) d[OF assms(1)] by auto
  next
    case False
    then obtain l' where "kids q = Some l'" "xs = remove1 c l'" using q by (auto simp: exit_kids_def split: if_splits)
    then show ?thesis using d by simp
  qed
qed

lemma exit_kids_val:
  assumes "kids i = Some ki" "kids c = Some ks"
  shows "exit_kids kids c i i = Some (remove1 c ki @ filter (\<lambda>t. t \<in> set ks) [0..<10])"
    "q \<noteq> i \<Longrightarrow> exit_kids kids c i q = (if q = c then None else map_option (remove1 c) (kids q))"
  using assms by (simp_all add: exit_kids_def)

text \<open>Everybody but \<open>c\<close> who was a son still is one.\<close>

lemma exit_kids_cover:
  assumes "kids i = Some ki" "kids c = Some ks" "set ks \<subseteq> {..<10}" "\<And>p l. kids p = Some l \<Longrightarrow> distinct l"
    and "\<not> orphan kids t" "t \<noteq> c"
  shows "\<not> orphan (exit_kids kids c i) t"
proof -
  obtain q l where q: "kids q = Some l" "t \<in> set l" using assms(5) by (auto simp: orphan_def)
  have "\<exists>q' l'. exit_kids kids c i q' = Some l' \<and> t \<in> set l'"
  proof (cases "q = c \<or> q = i")
    case True
    then have "t \<in> set (remove1 c ki @ filter (\<lambda>t. t \<in> set ks) [0..<10])"
      using q assms(1-3,6) assms(4)[OF assms(1)] by auto
    then show ?thesis using exit_kids_val(1)[OF assms(1,2)] by blast
  next
    case False
    then have "exit_kids kids c i q = Some (remove1 c l)" "t \<in> set (remove1 c l)"
      using q exit_kids_val(2)[OF assms(1,2), of q] assms(4)[OF q(1)] assms(6) by simp_all
    then show ?thesis by blast
  qed
  then show ?thesis by (auto simp: orphan_def)
qed

lemma tree_ok_exit:
  assumes T: "tree_ok k fq rq bq kids i" and c: "c \<in> users k rq bq i" and b: "users k rq bq i \<subseteq> {..<NR_TASKS}"
    and ds: "\<And>p l. kids p = Some l \<Longrightarrow> distinct l" and ks: "kids c = Some ks" and u: "users k' rq' bq' i = users k rq bq i - {c}"
    and p: "\<And>t. t \<noteq> c \<Longrightarrow> PID (task k' t) = PID (task k t)"
    and par: "\<And>t. t \<noteq> c \<Longrightarrow> parent (task k' t) = (if t \<in> set ks then Some i else parent (task k t))"
  shows "tree_ok k' fq' rq' bq' (exit_kids kids c i) i"
proof -
  have ci: "c \<noteq> i" using c by (simp add: users_def)
  have K: "dom kids = insert i (users k rq bq i)"
      "\<And>p l. kids p = Some l \<Longrightarrow> set l \<subseteq> users k rq bq i - {p}"
      "\<And>p l s. kids p = Some l \<Longrightarrow> s \<in> set l \<Longrightarrow> parent (task k s) = Some p"
      "\<And>t. t \<in> users k rq bq i \<Longrightarrow> PID (task k t) \<noteq> 1 \<Longrightarrow> \<not> orphan kids t"
    using T by (auto simp: tree_ok_def)
  obtain ki where ki: "kids i = Some ki" using K(1) by blast
  have i': "i \<notin> users k rq bq i" by (simp add: users_def)
  note val = exit_kids_val[OF ki ks]
  have dm: "dom (exit_kids kids c i) = insert i (users k rq bq i - {c})"
    using K(1) ci ki by (auto simp: exit_kids_def dom_def)
  have rm: "set (remove1 c l) = set l - {c}" if "kids q = Some l" for q l
    using ds[OF that] by simp
  have up: "t < 10" if "t \<in> set ks" for t using K(2)[OF ks] b that by auto
  have "set l \<subseteq> users k rq bq i - {c} - {q} \<and> (\<forall>s\<in>set l. parent (task k' s) = Some q)"
    if l: "exit_kids kids c i q = Some l" for q l
  proof (cases "q = i")
    case True
    then have "set l = (set ki - {c}) \<union> set ks" using l val(1) rm[OF ki] up by auto
    moreover have "parent (task k' s) = Some i" if "s \<in> set ki - {c} \<or> s \<in> set ks" for s
    proof -
      have "s \<noteq> c" using that K(2)[OF ks] by auto
      then show ?thesis using that K(3)[OF ki] par[of s] by auto
    qed
    ultimately show ?thesis using True K(2)[OF ki] K(2)[OF ks] i' by auto
  next
    case False
    then obtain l' where l': "q \<noteq> c" "kids q = Some l'" "l = remove1 c l'" using l val(2)[of q] by (auto split: if_splits)
    have "parent (task k' s) = Some q" if s: "s \<in> set l' - {c}" for s
    proof -
      have "s \<notin> set ks" using K(3)[OF l'(2)] K(3)[OF ks] s l'(1) by force
      then show ?thesis using par[of s] K(3)[OF l'(2)] s by auto
    qed
    then show ?thesis using rm[OF l'(2)] l'(3) K(2)[OF l'(2)] by auto
  qed
  moreover have "\<not> orphan (exit_kids kids c i) t" if t: "t \<in> users k rq bq i - {c}" "PID (task k' t) \<noteq> 1" for t
    by (rule exit_kids_cover[OF ki ks]) (use K(4)[of t] t p[of t] up ds in auto)
  ultimately show ?thesis unfolding tree_ok_def u using dm by auto
qed

subsection \<open>The whole call\<close>

text \<open>The state in which \<^verbatim>\<open>sys_exit\<close> calls the scheduler.\<close>

definition exited :: "nat \<Rightarrow> nat list \<Rightarrow> kstate \<Rightarrow> anchor list_heap \<Rightarrow> kstate" where
  "exited i ks k h = (let c = current k in
     k\<lparr>heap := h, mm := free_user_pages (row_addr (mm k) c) (mm k),
       task := (\<lambda>t. if t = c then (task k c)\<lparr>PID := -1, state := ST_ZOMBIE, dir_pages_baseAddr := None\<rparr>
                    else if t \<in> set ks then (task k t)\<lparr>parent := Some i\<rparr> else task k t)\<rparr>)"

lemma current_upd [simp]:
  "current (k\<lparr>heap := h, mm := m, task := ts\<rparr>) = current k" "current (k\<lparr>mm := m\<rparr>) = current k"
  by (simp_all add: current_def)

text \<open>The call up to round \<open>n\<close> of the loop over the PCBs, as long as the slots that name the caller as
  their parent are its children.\<close>

abbreviation (input) exiting :: "kstate \<Rightarrow> anchor list_heap \<Rightarrow> kstate" where
  "exiting k h \<equiv> upd_task (current k) (\<lambda>p. p\<lparr>PID := -1\<rparr>) (k\<lparr>heap := h\<rparr>)"

lemma exit_begin:
  assumes inv: "kernel_inv k fq rq bq kids i F" and cur: "current k \<noteq> i" and ks: "kids (current k) = Some ks"
    and one: "PID (task k (current k)) = 1 \<longrightarrow> orphan kids (current k)"
    and own: "\<And>s. s < n \<Longrightarrow> parent (task k s) = Some (current k) \<Longrightarrow> s \<in> set ks"
  shows "\<exists>h1 h. (if PID (task k (current k)) \<noteq> 1 then on_heap (list_del (Bros (current k))) k else Some k) = Some (k\<lparr>heap := h1\<rparr>) \<and>
    fold_option exit_orphan [0..<n] (exiting k h1) = Some (adopted i ks n (exiting k h1) h) \<and>
    lists_rep h (family fq rq bq (adoption (\<lambda>p. map_option (remove1 (current k)) (kids p)) (current k) ks i
      (remove1 (current k) (the (kids i))) n)) \<and>
    (\<forall>y. orphan kids y \<longrightarrow> h (Bros y) = heap k (Bros y)) \<and>
    (PID (task k (current k)) \<noteq> 1 \<longrightarrow> unlinked h (Bros (current k)))"
proof -
  note D = kernel_invD[OF inv] and S = sched_invD[OF kernel_invD(1)[OF inv]] and c = users_facts(3)[OF inv cur]
  let ?c = "current k"
  have T: "\<And>p l s. kids p = Some l \<Longrightarrow> s \<in> set l \<Longrightarrow> parent (task k s) = Some p"
    "set ks \<subseteq> users k rq bq i - {?c}" "i \<in> dom kids"
    using D(2) ks by (auto simp: tree_ok_def)
  obtain ki where ki: "kids i = Some ki" using T(3) by blast
  define K where "K = (\<lambda>p. map_option (remove1 ?c) (kids p))"
  obtain h1 where h1: "(if PID (task k ?c) \<noteq> 1 then list_del (Bros ?c) (heap k) else Some (heap k)) = Some h1"
      "lists_rep h1 (family fq rq bq K)"
    using exit_detach[OF S(1) D(2) c one] unfolding K_def by blast
  let ?k1 = "exiting k h1"
  have k1: "idle_task ?k1 = Some i" "current ?k1 = ?c" "heap ?k1 = h1" "\<And>t. parent (task ?k1 t) = parent (task k t)"
    using S(4) by (simp_all add: upd_task_def)
  have rc: "remove1 ?c ks = ks" by (rule remove1_idem) (use T(2) in auto)
  have K: "K ?c = Some ks" "K i = Some (remove1 ?c ki)" using ks ki rc by (simp_all add: K_def)
  have uniq: "parent (task ?k1 s) = Some p" if kp: "K p = Some l" "s \<in> set l" for p l s
  proof -
    obtain l' where "kids p = Some l'" "l = remove1 ?c l'" using kp(1) by (auto simp: K_def)
    then show ?thesis using kp(2) set_remove1_subset[of ?c l'] T(1)[of p l' s] k1(4) by auto
  qed
  have "\<exists>h. fold_option exit_orphan [0..<n] ?k1 = Some (adopted i ks n ?k1 h) \<and>
      lists_rep h (family fq rq bq (adoption K ?c ks i (remove1 ?c ki) n)) \<and>
      (\<forall>y. orphan K y \<longrightarrow> h (Bros y) = heap ?k1 (Bros y))"
    by (rule exit_orphans[OF _ k1(1,2) cur K]) (use h1(2) k1 own uniq in auto)
  then obtain h where h: "fold_option exit_orphan [0..<n] ?k1 = Some (adopted i ks n ?k1 h)"
      "lists_rep h (family fq rq bq (adoption K ?c ks i (remove1 ?c ki) n))"
      "\<And>y. orphan K y \<Longrightarrow> h (Bros y) = h1 (Bros y)" using k1(3) by auto
  have oK: "orphan K y" if "orphan kids y" for y using that unfolding orphan_def K_def by (auto simp: notin_set_remove1)
  have "h (Bros y) = heap k (Bros y)" if "orphan kids y" for y
    using h(3)[OF oK[OF that]] exit_detach_frame[OF S(1) D(2) c h1(1) that] by simp
  moreover have "unlinked h (Bros ?c)" if p: "PID (task k ?c) \<noteq> 1"
  proof -
    have "list_del (Bros ?c) (heap k) = Some h1" using h1(1) p by simp
    then have "unlinked h1 (Bros ?c)"
      by (auto simp: list_del_def set_next_def set_prev_def unlinked_def bind_eq_Some_conv)
    moreover have "orphan K ?c"
    proof -
      have "?c \<notin> set (remove1 ?c l)" if "kids q = Some l" for q l using sons_distinct[OF S(1) that] by simp
      then show ?thesis by (auto simp: orphan_def K_def)
    qed
    ultimately show ?thesis using h(3)[of ?c] by (simp add: unlinked_def)
  qed
  moreover have "(if PID (task k ?c) \<noteq> 1 then on_heap (list_del (Bros ?c)) k else Some k) = Some (k\<lparr>heap := h1\<rparr>)"
    using h1(1) by (auto simp: on_heap_def split: if_splits)
  ultimately show ?thesis using h(1,2) ki unfolding K_def by auto
qed

text \<open>The steps of \<^verbatim>\<open>sys_exit\<close> on the process control block and the frames, put together.\<close>

lemma exited_eq:
  fixes k :: kstate and h1 h2 :: "anchor list_heap"
  assumes "set ks \<subseteq> {..<10} - {current k}"
  shows "upd_task (current k) (\<lambda>p. p\<lparr>dir_pages_baseAddr := None\<rparr>) (on_mm (free_user_pages (row_addr (mm k) (current k)))
      (upd_task (current k) (\<lambda>p. p\<lparr>state := ST_ZOMBIE\<rparr>) (adopted i ks 10 (exiting k h1) h2))) = exited i ks k h2"
    (is "?k5 = _")
proof -
  have "task ?k5 = (\<lambda>t. if t = current k then (task k (current k))\<lparr>PID := -1, state := ST_ZOMBIE, dir_pages_baseAddr := None\<rparr>
          else if t \<in> set ks then (task k t)\<lparr>parent := Some i\<rparr> else task k t)"
    by (rule ext) (use assms in \<open>auto simp: on_mm_def\<close>)
  moreover have "?k5 = k\<lparr>heap := h2, mm := free_user_pages (row_addr (mm k) (current k)) (mm k), task := task ?k5\<rparr>"
    by (simp add: on_mm_def upd_task_def adopted_def)
  ultimately show ?thesis by (simp add: exited_def Let_def)
qed

text \<open>Putting the block of a process into the free queue does not touch the entry by which it was a son.\<close>

lemma free_keeps_bros:
  assumes L: "lists_rep h (family fq rq bq K)" and o: "orphan K c" and c: "c \<notin> set (fq @ rq @ bq)"
    and h': "list_add_tail (Node c) FreeQ h = Some h'"
  shows "h' (Bros c) = h (Bros c)"
  by (rule add_tail_frame[OF L _ _ orphan_fresh[OF o] _ h', where xs = "map Node fq"]) (use c in \<open>simp_all add: fresh_Node\<close>)

lemma exit_upto_switch:
  assumes inv: "kernel_inv k fq rq bq kids i F" and cur: "current k \<noteq> i" and ks: "kids (current k) = Some ks"
    and one: "PID (task k (current k)) = 1 \<longrightarrow> orphan kids (current k)"
    and own: "\<And>t. t < 10 \<Longrightarrow> parent (task k t) = Some (current k) \<Longrightarrow> t \<in> set ks"
  shows "\<exists>h. sys_exit k = sched_next_rr (exited i ks k h) \<and>
    lists_rep h (family (fq @ [current k]) rq bq (exit_kids kids (current k) i)) \<and>
    (PID (task k (current k)) \<noteq> 1 \<longrightarrow> unlinked h (Bros (current k)))"
proof -
  note D = kernel_invD[OF inv] and S = sched_invD[OF kernel_invD(1)[OF inv]] and U = users_facts[OF inv]
  let ?c = "current k"
  let ?K = "\<lambda>p. map_option (remove1 ?c) (kids p)" and ?ki = "remove1 ?c (the (kids i))"
  have T: "set ks \<subseteq> users k rq bq i - {?c}" "i \<in> dom kids" using D(2) ks by (auto simp: tree_ok_def)
  have up: "set ks \<subseteq> {..<10}" using T(1) U(1) by auto
  have "filter (\<lambda>t. 10 \<le> t) ks = []" using up by (auto simp: filter_empty_conv)
  then have "adoption ?K ?c ks i ?ki 10 = ?K(?c \<mapsto> [], i \<mapsto> ?ki @ filter (\<lambda>t. t \<in> set ks) [0..<10])"
    by (simp add: adoption_def)
  then obtain h1 h2 where h1: "(if PID (task k ?c) \<noteq> 1 then on_heap (list_del (Bros ?c)) k else Some k) = Some (k\<lparr>heap := h1\<rparr>)"
    and h2: "fold_option exit_orphan [0..<10] (exiting k h1) = Some (adopted i ks 10 (exiting k h1) h2)"
      "lists_rep h2 (family fq rq bq (?K(?c \<mapsto> [], i \<mapsto> ?ki @ filter (\<lambda>t. t \<in> set ks) [0..<10])))"
      "PID (task k ?c) \<noteq> 1 \<longrightarrow> unlinked h2 (Bros ?c)"
    using exit_begin[OF inv cur ks one own, of 10] by auto
  define k1 where "k1 = exiting k h1"
  have k1: "current k1 = ?c" "mm k1 = mm k" "\<And>t. dir_pages_baseAddr (task k1 t) = dir_pages_baseAddr (task k t)"
    by (simp_all add: k1_def upd_task_def)
  let ?k2 = "adopted i ks 10 k1 h2"
  have k2: "dir_pages_baseAddr (task ?k2 ?c) = Some ?c" using k1(3) S(8) T(1) by auto
  have sp: "space_inv (mm ?k2) (users k rq bq i) F" "dirs_ok (mm k)"
    using D(3) k1(2) by (simp_all add: space_inv_def tables_ok_def)
  note h3 = exit_shared_noop[OF sp(1) S(6) k2]
  obtain h4 where h4: "list_add_tail (Node ?c) FreeQ h2 = Some h4"
      "lists_rep h4 (family (fq @ [?c]) rq bq (?K(?c \<mapsto> [], i \<mapsto> ?ki @ filter (\<lambda>t. t \<in> set ks) [0..<10])))"
    using queue_add(1)[OF h2(2) S(7)] by blast
  have b4: "unlinked h4 (Bros ?c)" if "PID (task k ?c) \<noteq> 1"
  proof -
    have "?c \<notin> set (?ki @ filter (\<lambda>t. t \<in> set ks) [0..<10])"
    proof -
      obtain l where "kids i = Some l" using T(2) by blast
      then show ?thesis using T(1) sons_distinct[OF S(1)] by auto
    qed
    moreover have "?c \<notin> set (remove1 ?c l)" if "kids q = Some l" for q l using sons_distinct[OF S(1) that] by simp
    ultimately have o: "orphan (?K(?c \<mapsto> [], i \<mapsto> ?ki @ filter (\<lambda>t. t \<in> set ks) [0..<10])) ?c" by (auto simp: orphan_def)
    have "h4 (Bros ?c) = h2 (Bros ?c)" using free_keeps_bros[OF h2(2) o _ h4(1)] S(7) by simp
    then show ?thesis using h2(3) that by (simp add: unlinked_def)
  qed
  have ek: "exit_kids kids ?c i = (?K(?c \<mapsto> [], i \<mapsto> ?ki @ filter (\<lambda>t. t \<in> set ks) [0..<10]))(?c := None)"
    using cur ks by (simp add: exit_kids_def fun_upd_twist)
  let ?k4 = "upd_task ?c (\<lambda>p. p\<lparr>state := ST_ZOMBIE\<rparr>) (adopted i ks 10 k1 h4)"
  have k4: "update_process_state_rr ?c (Some FreeQ) ST_ZOMBIE ?k2 = Some ?k4"
    using h4(1) k1(1) by (simp add: update_process_state_rr_def on_heap_def)
  have pt: "get_PT ?k4 ?c = Some (row_addr (mm k) ?c)"
    using get_PT_Some[of ?k4 ?c] k2 sp(2) S(6) k1(2) by simp
  have "set ks \<subseteq> {..<10} - {?c}" using T(1) up by auto
  note ex = exited_eq[OF this, of i h1 h4, folded k1_def]
  have "sys_exit k = sched_next_rr (exited i ks k h4)"
    unfolding sys_exit_def Let_def h1 bind.bind_lunit k1_def[symmetric] h2(1)[folded k1_def] h3 k4 pt ex by simp
  then show ?thesis using lists_rep_drop[OF h4(2), of ?c] ek b4 by auto
qed

text \<open>A slot whose \<^verbatim>\<open>parent\<close> field still names the caller but whose list entry is cleared stops the call: the
  loop deletes the entry and follows its null pointers.\<close>

lemma exit_stale_child:
  assumes inv: "kernel_inv k fq rq bq kids i F" and cur: "current k \<noteq> i" and ks: "kids (current k) = Some ks"
    and one: "PID (task k (current k)) = 1 \<longrightarrow> orphan kids (current k)"
    and t: "t < NR_TASKS" "parent (task k t) = Some (current k)" "orphan kids t" "unlinked (heap k) (Bros t)"
    and own: "\<forall>s<t. parent (task k s) = Some (current k) \<longrightarrow> s \<in> set ks"
  shows "sys_exit k = None"
proof -
  let ?c = "current k"
  have own': "\<And>s. s < t \<Longrightarrow> parent (task k s) = Some ?c \<Longrightarrow> s \<in> set ks" using own by blast
  obtain h1 h where h1: "(if PID (task k ?c) \<noteq> 1 then on_heap (list_del (Bros ?c)) k else Some k) = Some (k\<lparr>heap := h1\<rparr>)"
      "fold_option exit_orphan [0..<t] (exiting k h1) = Some (adopted i ks t (exiting k h1) h)" "h (Bros t) = heap k (Bros t)"
    using exit_begin[OF inv cur ks one own'] t(3) by blast
  have tk: "t \<notin> set ks" using t(3) ks by (auto simp: orphan_def)
  have "list_del (Bros t) h = None" by (rule list_del_unlinked) (use t(4) h1(3) in \<open>simp add: unlinked_def\<close>)
  then have "exit_orphan t (adopted i ks t (exiting k h1) h) = None"
    using t(2) sched_invD(4)[OF kernel_invD(1)[OF inv]] tk by (auto simp: exit_orphan_def on_heap_def upd_task_def adopted_def)
  then have "fold_option exit_orphan [0..<Suc t] (exiting k h1) = None" using h1(2) by simp
  then have "fold_option exit_orphan [0..<10] (exiting k h1) = None"
    using fold_option_prefix_None[of exit_orphan "Suc t" "exiting k h1" 10] t(1) by simp
  then show ?thesis unfolding sys_exit_def Let_def h1(1) bind.bind_lunit by simp
qed

lemma switch_stacks_heap: "switch_stacks c sp k = Some k' \<Longrightarrow> heap k' = heap k"
  by (auto simp: switch_stacks_def Let_def upd_task_def split: kword.splits)

lemma inner_task_switch_heap: "inner_task_switch n k = Some k' \<Longrightarrow> heap k' = heap k"
  by (auto simp: inner_task_switch_def Let_def set_stack_def dest: switch_stacks_heap split: prod.splits)

lemma resume_heap: "heap (resume k) = heap k"
  by (simp add: resume_def cpu_idle_def split: prod.split kword.split)

lemma task_switch_heap: "task_switch new k = Some k' \<Longrightarrow> heap k' = heap k"
  by (auto simp: task_switch_def Let_def set_stack_def resume_heap dest: inner_task_switch_heap split: option.splits prod.splits)

lemma sched_next_rr_bros:
  assumes L: "lists_rep (heap k) (family fq rq bq kids)" and nr: "\<not> requeues k" and y: "orphan kids y"
    and k': "sched_next_rr k = Some k'"
  shows "heap k' (Bros y) = heap k (Bros y)"
proof (cases rq)
  case Nil
  then have "list_empty (heap k) ReadyQ" using klists.empty_law[OF L, of ReadyQ "[]"] by simp
  then show ?thesis using k' task_switch_heap[of "idle_task k" "k\<lparr>ticks_since_last_switch := 0\<rparr>" k'] by (simp add: sched_next_rr_def)
next
  case (Cons n rs)
  have q: "family fq rq bq kids ReadyQ = Some (Node n # map Node rs)" using Cons by simp
  have e: "\<not> list_empty (heap k) ReadyQ" "list_first (heap k) ReadyQ = Some (Node n)"
    using klists.empty_law[OF L q] klists.first_law[OF L q] by simp_all
  have "\<not> (PID (task k (current k)) > 0 \<and> state (task k (current k)) \<noteq> ST_BLOCKED)" using nr by (simp add: requeues_def)
  then obtain h where h: "list_del (Node n) (heap k) = Some h" "heap k' = h"
    using k' e task_switch_heap
    by (auto simp: sched_next_rr_def update_process_state_rr_def on_heap_def bind_eq_Some_conv split: if_splits)
  then show ?thesis using del_frame[OF L _ orphan_fresh[OF y] h(1), of ReadyQ "[]"] q by simp
qed

lemma exited_fields [simp]:
  "current (exited i ks k h) = current k" "heap (exited i ks k h) = h" "stack (exited i ks k h) = stack k"
  "esp (exited i ks k h) = esp k" "idle_task (exited i ks k h) = idle_task k" "io (exited i ks k h) = io k"
  "cbuff (exited i ks k h) = cbuff k" "next_pid (exited i ks k h) = next_pid k"
  "mm (exited i ks k h) = free_user_pages (row_addr (mm k) (current k)) (mm k)"
  "task (exited i ks k h) t = (if t = current k then (task k t)\<lparr>PID := -1, state := ST_ZOMBIE, dir_pages_baseAddr := None\<rparr>
     else if t \<in> set ks then (task k t)\<lparr>parent := Some i\<rparr> else task k t)"
  by (simp_all add: exited_def Let_def)

lemma sched_pre_exited:
  assumes inv: "sched_inv k fq rq bq kids i" and c: "current k \<noteq> i"
    and e: "7 \<le> snd (esp k)" "snd (esp k) \<le> KERNEL_STACK_SIZE"
    and L: "lists_rep h (family (fq @ [current k]) rq bq kids')"
  shows "sched_pre (exited i ks k h) (fq @ [current k]) rq bq kids' i" "\<not> requeues (exited i ks k h)"
proof -
  note S = sched_invD[OF inv]
  have pk: "parked (exited i ks k h) t = parked k t" if "t \<noteq> current k" for t
    using that by (simp add: parked_def)
  show nr: "\<not> requeues (exited i ks k h)" by (simp add: requeues_def)
  have "ready_ok (exited i ks k h) t" if "t \<in> set rq" for t
    using inv that S(7) pk[of t] by (auto simp: sched_inv_def queues_ok_def ready_ok_def)
  moreover have "blocked_ok (exited i ks k h) t" if "t \<in> set bq" for t
    using inv that S(7) pk[of t] by (auto simp: sched_inv_def queues_ok_def blocked_ok_def)
  moreover have "parked (exited i ks k h) i" using inv c pk[of i] by (simp add: sched_inv_def)
  ultimately show "sched_pre (exited i ks k h) (fq @ [current k]) rq bq kids' i"
    unfolding sched_pre_def using S c e L nr by auto
qed

lemma exit_kernel:
  assumes inv: "kernel_inv k fq rq bq kids i F" and cur: "current k \<noteq> i"
    and e: "7 \<le> snd (esp k)" "snd (esp k) \<le> KERNEL_STACK_SIZE"
    and one: "PID (task k (current k)) = 1 \<longrightarrow> orphan kids (current k)"
    and own: "\<forall>t<10. parent (task k t) = Some (current k) \<longrightarrow> (\<exists>ks. kids (current k) = Some ks \<and> t \<in> set ks)"
  shows "\<exists>k'. sys_exit k = Some k' \<and>
    kernel_inv k' (fq @ [current k]) (tl rq) bq (exit_kids kids (current k) i) i F \<and>
    current k' = (if rq = [] then i else hd rq) \<and>
    PID (task k' (current k)) = -1 \<and> parent (task k' (current k)) = parent (task k (current k)) \<and>
    (\<forall>t<10. t \<noteq> current k \<longrightarrow> parent (task k' t) = (if parent (task k t) = Some (current k) then Some i else parent (task k t))) \<and>
    (PID (task k (current k)) \<noteq> 1 \<longrightarrow> unlinked (heap k') (Bros (current k))) \<and>
    ticks_since_last_switch k' = 0 \<and> next_pid k' = next_pid k \<and>
    (\<forall>t. quantum (task k' t) = quantum (task k t) \<and> pending_unblocks (task k' t) = pending_unblocks (task k t) \<and>
       (t \<noteq> current k \<longrightarrow> PID (task k' t) = PID (task k t)))"
proof -
  note D = kernel_invD[OF inv] and S = sched_invD[OF kernel_invD(1)[OF inv]] and U = users_facts[OF inv]
  note c = U(3)[OF cur]
  have "current k \<in> dom kids" using D(2) c by (simp add: tree_ok_def)
  then obtain ks where ks: "kids (current k) = Some ks" by blast
  have kk: "set ks \<subseteq> users k rq bq i - {current k}" using D(2) ks by (auto simp: tree_ok_def)
  have "\<exists>h. sys_exit k = sched_next_rr (exited i ks k h) \<and>
      lists_rep h (family (fq @ [current k]) rq bq (exit_kids kids (current k) i)) \<and>
      (PID (task k (current k)) \<noteq> 1 \<longrightarrow> unlinked h (Bros (current k)))"
    by (rule exit_upto_switch[OF inv cur ks one]) (use own ks in auto)
  then obtain h where h: "sys_exit k = sched_next_rr (exited i ks k h)"
    "lists_rep h (family (fq @ [current k]) rq bq (exit_kids kids (current k) i))"
    "PID (task k (current k)) \<noteq> 1 \<longrightarrow> unlinked h (Bros (current k))" by blast
  note pre = sched_pre_exited[OF D(1) cur e h(2)]
  have pick: "pick i False (current k) rq = (if rq = [] then i else hd rq, tl rq)"
    by (cases rq) (simp_all add: pick_def)
  obtain k' where k': "sched_next_rr (exited i ks k h) = Some k'"
      "sched_inv k' (fq @ [current k]) (tl rq) bq (exit_kids kids (current k) i) i"
      "current k' = (if rq = [] then i else hd rq)" "sched_frame (exited i ks k h) k'"
      "ticks_since_last_switch k' = 0"
    using sched_next_rr_pick[OF pre(1)] pre(2) by (auto simp: pick)
  have u: "users k' (tl rq) bq i = users k rq bq i - {current k}"
    using k'(3) S(2,7) by (cases rq) (auto simp: users_def)
  have qt: "quantum (task k' t) = quantum (task k t)" "pending_unblocks (task k' t) = pending_unblocks (task k t)" for t
    using k'(4) by (simp_all add: sched_frame_def same_pcb_def)
  have tk: "PID (task k' t) = PID (task (exited i ks k h) t)" "parent (task k' t) = parent (task (exited i ks k h) t)" for t
    using k'(4) by (simp_all add: sched_frame_def same_pcb_def)
  have "tree_ok k' (fq @ [current k]) (tl rq) bq (exit_kids kids (current k) i) i"
    by (rule tree_ok_exit[OF D(2) c U(1) sons_distinct[OF S(1)] ks u]) (simp_all add: tk)
  moreover have "space_inv (mm k') (users k rq bq i - {current k}) F"
  proof -
    have "mm k' = (free_user_pages (row_addr (mm k) (current k)) (mm k))\<lparr>cr3 := cr3 (mm k')\<rparr>"
      using k'(4) by (simp add: sched_frame_def)
    then show ?thesis using free_user_pages_space(1)[OF D(3) c] by (metis space_inv_cr3)
  qed
  moreover have "next_pid k' = next_pid k" "cbuff k' = cbuff k" "cursor_ok (io k')"
    using k'(4) D(6) by (simp_all add: sched_frame_def)
  ultimately have "kernel_inv k' (fq @ [current k]) (tl rq) bq (exit_kids kids (current k) i) i F"
    using k'(2) D(4,5) unfolding kernel_inv_def u by simp
  moreover have "parent (task k' t) = (if parent (task k t) = Some (current k) then Some i else parent (task k t))"
    if "t < 10" "t \<noteq> current k" for t
  proof -
    have "parent (task k s) = Some (current k)" if "s \<in> set ks" for s using D(2) ks that by (auto simp: tree_ok_def)
    then show ?thesis using own that ks by (auto simp: tk)
  qed
  moreover have "unlinked (heap k') (Bros (current k))" if "PID (task k (current k)) \<noteq> 1"
  proof -
    have "dom kids = insert i (users k rq bq i)" using D(2) by (simp add: tree_ok_def)
    then have "i \<in> dom kids" by blast
    then obtain l where "kids i = Some l" by blast
    then have "orphan (exit_kids kids (current k) i) (current k)"
      by (rule orphan_exit_kids[where kids = kids and c = "current k" and ks = ks]) (use ks kk sons_distinct[OF S(1)] in auto)
    from sched_next_rr_bros[OF _ pre(2) this k'(1)] h(2,3) that show ?thesis by (simp add: unlinked_def)
  qed
  ultimately show ?thesis using h(1) k'(1,3,5) \<open>next_pid k' = next_pid k\<close> qt by (simp add: tk)
qed

lemma exit_frame_free:
  assumes inv: "kernel_inv k fq rq bq kids i F" and cur: "current k \<noteq> i"
    and inv': "kernel_inv k' (fq @ [current k]) (tl rq) bq kids' i F" and c': "current k' = (if rq = [] then i else hd rq)"
    and j: "j < NUM_PAG_DATA"
  shows "phys_mem (mm k') (F (OData (current k) j)) = 0"
proof -
  note S = sched_invD[OF kernel_invD(1)[OF inv]] and c = users_facts(3)[OF inv cur]
  have u: "users k' (tl rq) bq i = users k rq bq i - {current k}"
    using c' S(2,7) by (cases rq) (auto simp: users_def)
  have fr: "frames_ok (mm k) (owners (users k rq bq i)) F" "frames_ok (mm k') (owners (users k rq bq i - {current k})) F"
    using kernel_invD(3)[OF inv] kernel_invD(3)[OF inv'] unfolding u by (simp_all add: space_inv_def)
  have o: "OData (current k) j \<in> owners (users k rq bq i)" "OData (current k) j \<notin> owners (users k rq bq i - {current k})"
    using c j by (simp_all add: data_in_owners)
  have "F (OData (current k) j) \<notin> F ` owners (users k rq bq i - {current k})"
  proof
    assume "F (OData (current k) j) \<in> F ` owners (users k rq bq i - {current k})"
    then obtain r where r: "r \<in> owners (users k rq bq i - {current k})" "F (OData (current k) j) = F r" by blast
    then have "r \<in> owners (users k rq bq i)" by (auto simp: owners_def)
    then show False using owner_frame_eq[OF fr(1) o(1), of r] r o(2) by simp
  qed
  then show ?thesis using fr o(1) by (auto simp: frames_ok_def)
qed

lemma free_slot_orphan:
  assumes "kernel_inv k fq rq bq kids i F" "c \<in> set fq"
  shows "orphan kids c"
proof -
  have "c \<notin> users k rq bq i" using users_facts(2)[OF assms(1)] assms(2) by blast
  moreover have "set ks \<subseteq> users k rq bq i" if "kids q = Some ks" for q ks
    using kernel_invD(2)[OF assms(1)] that by (auto simp: tree_ok_def)
  ultimately show ?thesis by (auto simp: orphan_def)
qed

end
