(* ===== verification/Zeos_Shared.thy ===== *)
theory Zeos_Shared
  imports Zeos_Exit
begin

text \<open>
  Shared pages: \<^verbatim>\<open>sys_shmat\<close> and \<^verbatim>\<open>sys_shmdt\<close> (\<^verbatim>\<open>sys.c\<close>). Attaching maps the page's frame at a free page above the
  user area, detaching unmaps it and clears it after the last reference if it is marked. Both keep the
  kernel's invariant; two processes that have attached the same page see the same bytes.
\<close>

subsection \<open>Calls that leave processes alone\<close>

lemma space_inv_remap:
  assumes inv: "space_inv m S F" and d: "dirs_ok m'" "phys_mem m' = phys_mem m"
    and sh: "\<And>idx. idx < NUM_SHARED_PAGES \<Longrightarrow> sh_frame (shared_pages m' idx) = sh_frame (shared_pages m idx)"
    and e: "\<And>u q. q < TOTAL_PAGES \<Longrightarrow> pt_entry m' u q = (if u = t \<and> q = p then v else pt_entry m u q)"
    and p: "USER_LAST_PAGE \<le> p" and v: "high_entry m F v"
  shows "space_inv m' S F"
proof -
  have "frames_ok m' (owners S) F" using inv frames_ok_cong[OF d(2)] by (simp add: space_inv_def)
  moreover have "tables_ok m' (owners S) F"
    using inv d(1) sh p by (auto simp: space_inv_def tables_ok_def e)
  moreover have "code_ok m' S F" using inv p by (auto simp: space_inv_def code_ok_def e)
  moreover have "high_ok m' F" using inv v by (auto simp: space_inv_def high_ok_def high_entry_def e)
  ultimately show ?thesis using inv by (simp add: space_inv_def)
qed

text \<open>What a call may change without touching processes and address spaces.\<close>

lemma kernel_inv_devices:
  assumes inv: "kernel_inv k fq rq bq kids i F" and s: "space_inv m (users k rq bq i) F" and c: "cr3 m = Some (current k)"
    and cb: "cb_wf cb" and x: "cursor_ok x"
  shows "kernel_inv (k\<lparr>mm := m, cbuff := cb, io := x\<rparr>) fq rq bq kids i F"
proof -
  let ?k = "k\<lparr>mm := m, cbuff := cb, io := x\<rparr>"
  have cu: "current ?k = current k" by (simp add: current_def)
  then have u: "users ?k rq bq i = users k rq bq i" by (simp add: users_def)
  have "sched_inv ?k fq rq bq kids i"
    by (rule sched_inv_cong[OF kernel_invD(1)[OF inv]])
      (use c sched_invD(9)[OF kernel_invD(1)[OF inv]] cu in \<open>simp_all add: same_view_def\<close>)
  moreover have "tree_ok ?k fq rq bq kids i" by (rule tree_ok_cong[OF kernel_invD(2)[OF inv] u]) simp_all
  ultimately show ?thesis using kernel_invD(4)[OF inv] s u cb x by (simp add: kernel_inv_def)
qed

lemma kernel_inv_mm:
  assumes inv: "kernel_inv k fq rq bq kids i F" and s: "space_inv m (users k rq bq i) F" and c: "cr3 m = Some (current k)"
  shows "kernel_inv (k\<lparr>mm := m\<rparr>) fq rq bq kids i F"
  using kernel_inv_devices[OF inv s c kernel_invD(5,6)[OF inv]] by simp

lemma mapped_page:
  assumes inv: "space_inv m S F" and t: "t \<in> S" and q: "0 < q" "q < USER_LAST_PAGE"
  shows "pt_entry m t q \<noteq> 0"
proof -
  have t10: "t < 10" using inv t by (auto simp: space_inv_def)
  consider "q < 256" | "256 \<le> q" "q < 276" | "276 \<le> q" by linarith
  then show ?thesis
  proof cases
    case 1
    then show ?thesis using inv t10 q(1)
      by (simp add: space_inv_def tables_ok_def kernel_entry_of_def mk_pte_nonzero)
  next
    case 2
    then obtain j where "q = 256 + j" "j < 20" using le_Suc_ex[of 256 q] by auto
    then show ?thesis using inv t t10
      by (simp add: space_inv_def tables_ok_def data_in_owners mk_pte_nonzero)
  next
    case 3
    then obtain j where "q = 276 + j" "j < 8" using q(2) le_Suc_ex[of 276 q] by auto
    then show ?thesis using inv t by (simp add: space_inv_def code_ok_def mk_pte_nonzero)
  qed
qed

lemma free_logic_page:
  assumes "space_inv m S F" "t \<in> S" "0 < q" "q < TOTAL_PAGES" "pt_entry m t q = 0"
  shows "q \<in> free_pages m t"
  using mapped_page[OF assms(1-3)] assms(4,5) unfolding free_pages_def by (metis (mono_tags) linorder_not_less mem_Collect_eq)

subsection \<open>Attaching a shared page\<close>

text \<open>The memory after attaching the shared page \<open>idx\<close> at the page \<open>p\<close> of process \<open>t\<close>.\<close>

definition attached :: "nat \<Rightarrow> nat \<Rightarrow> nat \<Rightarrow> mm_state \<Rightarrow> mm_state" where
  "attached t idx p m = (let sp = shared_pages m idx;
       m' = set_ss_pag (row_addr m t) p (word_of_int (sh_frame sp)) m
     in m'\<lparr>cr3 := Some t, shared_pages := (shared_pages m')(idx := sp\<lparr>num_refs := wrap32 (num_refs sp + 1)\<rparr>)\<rparr>)"

lemma attached_entry:
  assumes "t < NR_TASKS" "p < TOTAL_PAGES" "q < TOTAL_PAGES"
  shows "pt_entry (attached t idx p m) u q =
    (if u = t \<and> q = p then mk_pte (word_of_int (sh_frame (shared_pages m idx))) 7 else pt_entry m u q)"
  using pt_entry_ss_pag(1)[OF assms] by (simp add: attached_def Let_def)

lemma attached_space:
  assumes inv: "space_inv m S F" and t: "t < NR_TASKS" and p: "USER_LAST_PAGE \<le> p" "p < TOTAL_PAGES" and idx: "idx < NUM_SHARED_PAGES"
  shows "space_inv (attached t idx p m) S F"
proof (rule space_inv_remap[OF inv, where t = t and p = p and v = "mk_pte (of_nat (F (OShared idx))) 7"])
  have d: "dirs_ok m" and sh: "sh_frame (shared_pages m idx) = int (F (OShared idx))"
    using inv idx by (auto simp: space_inv_def tables_ok_def)
  let ?m = "set_ss_pag (row_addr m t) p (word_of_int (sh_frame (shared_pages m idx))) m"
  note f = tables_only_fields[OF ss_pag_frame(1)[of m "row_addr m t" p "word_of_int (sh_frame (shared_pages m idx))"]]
  show "dirs_ok (attached t idx p m)"
    using d f(9) by (simp add: attached_def Let_def dirs_ok_def row_addr_def cong: if_cong)
  show "phys_mem (attached t idx p m) = phys_mem m" using f(1) by (simp add: attached_def Let_def)
  show "sh_frame (shared_pages (attached t idx p m) j) = sh_frame (shared_pages m j)" for j
    using f(2) by (simp add: attached_def Let_def)
  show "pt_entry (attached t idx p m) u q = (if u = t \<and> q = p then mk_pte (of_nat (F (OShared idx))) 7 else pt_entry m u q)"
    if "q < TOTAL_PAGES" for u q
    using attached_entry[OF t p(2) that, of idx m u] sh by simp
  show "high_entry m F (mk_pte (of_nat (F (OShared idx))) 7)" using idx by (auto simp: high_entry_def)
qed (use p in simp)

lemma shmat_kernel:
  assumes inv: "kernel_inv k fq rq bq kids i F" and cur: "current k \<noteq> i" and id: "0 \<le> sh_id" "sh_id \<le> 9"
    and a: "addr mod 4096 = 0" "unat (drop_bit 12 addr) < TOTAL_PAGES" and fp: "free_pages (mm k) (current k) \<noteq> {}"
  shows "\<exists>p\<in>free_pages (mm k) (current k).
    sys_shmat sh_id addr k = Some (int (4096 * p), k\<lparr>mm := attached (current k) (nat sh_id) p (mm k)\<rparr>) \<and>
    (unat (drop_bit 12 addr) \<in> free_pages (mm k) (current k) \<longrightarrow> p = unat (drop_bit 12 addr))"
proof -
  note D = kernel_invD[OF inv] and S = sched_invD[OF kernel_invD(1)[OF inv]] and c = users_facts(3)[OF inv cur]
  have pt: "get_PT k (current k) = Some (row_addr (mm k) (current k))"
    using get_PT_Some[OF S(8) _ S(6)] D(3) by (simp add: space_inv_def tables_ok_def)
  obtain q where q: "q \<in> free_pages (mm k) (current k)" "get_user_free_page (mm k) (row_addr (mm k) (current k)) = int q"
    using get_user_free_page_free[OF S(6) fp] by blast
  let ?a = "unat (drop_bit 12 addr)"
  define p where "p = (if addr \<noteq> 0 \<and> pt_entry (mm k) (current k) ?a = 0 then ?a else q)"
  have an: "0 < ?a" if "addr \<noteq> 0"
  proof (rule gr0I)
    assume "?a = 0"
    then have "drop_bit 12 addr = 0" by (simp add: unat_eq_zero)
    then have "addr div 4096 = 0" by (simp add: drop_bit_eq_div)
    then have "addr = addr mod 4096" using word_mod_div_equality[of addr 4096] by simp
    then show False using a(1) that by simp
  qed
  have p: "p \<in> free_pages (mm k) (current k)"
    using q(1) free_logic_page[OF D(3) c an a(2)] by (auto simp: p_def)
  then have pb: "p < 1024" by (simp add: free_pages_def)
  have "push_bit 12 (word_of_int (int p) :: DWord) = of_nat (4096 * p)" by (simp add: push_bit_eq_mult)
  moreover have "sint (of_nat (4096 * p) :: DWord) = int (4096 * p)"
  proof -
    have u: "unat (of_nat (4096 * p) :: DWord) = 4096 * p" by (rule unat_of_nat_DWord) (use pb in simp)
    then have "unat (of_nat (4096 * p) :: DWord) < 2 ^ 31" using pb by (simp only:) simp
    from sint_small[OF this] show ?thesis unfolding u .
  qed
  ultimately have sv: "sint (push_bit 12 (word_of_int (int p) :: DWord)) = int (4096 * p)" by simp
  have fin: "Some (sint (push_bit 12 (word_of_int (int p) :: DWord)),
      k\<lparr>mm := (set_cr3 (get_DIR k (current k)) (set_ss_pag (row_addr (mm k) (current k)) (nat (int p))
        (word_of_int (sh_frame (shared_pages (mm k) (nat sh_id)))) (mm k)))
        \<lparr>shared_pages := (shared_pages (set_cr3 (get_DIR k (current k)) (set_ss_pag (row_addr (mm k) (current k)) (nat (int p))
          (word_of_int (sh_frame (shared_pages (mm k) (nat sh_id)))) (mm k))))
          (nat sh_id := (shared_pages (mm k) (nat sh_id))\<lparr>num_refs := wrap32 (num_refs (shared_pages (mm k) (nat sh_id)) + 1)\<rparr>)\<rparr>\<rparr>) =
      Some (int (4096 * p), k\<lparr>mm := attached (current k) (nat sh_id) p (mm k)\<rparr>)"
    using sv S(8) by (simp add: attached_def Let_def set_cr3_def get_DIR_def)
  have u1: "uint (drop_bit 12 addr) \<noteq> - 1" using uint_ge_0[of "drop_bit 12 addr"] by linarith
  have "sys_shmat sh_id addr k = Some (int (4096 * p), k\<lparr>mm := attached (current k) (nat sh_id) p (mm k)\<rparr>)"
    unfolding fin[symmetric] using id a(1) pt q(2) u1
    by (simp add: sys_shmat_def Let_def is_logic_page_free_def pt_get_row[OF S(6)] p_def)
  moreover have "p = ?a" if "?a \<in> free_pages (mm k) (current k)"
  proof -
    have "addr \<noteq> 0" using that by (auto simp: free_pages_def)
    then show ?thesis using that by (simp add: p_def free_pages_def)
  qed
  ultimately show ?thesis using p by blast
qed

subsection \<open>Two processes at one shared page\<close>

lemma shared_index:
  assumes inv: "space_inv m S F" and idx: "idx < NUM_SHARED_PAGES"
  shows "is_frame_shared m (of_nat (F (OShared idx))) = idx"
proof -
  have fr: "frames_ok m (owners S) F" and sh: "\<And>j. j < 10 \<Longrightarrow> sh_frame (shared_pages m j) = int (F (OShared j))"
    using inv by (auto simp: space_inv_def tables_ok_def)
  have own: "OShared j \<in> owners S" if "j < 10" for j using that by (simp add: fixed_in_owners)
  have eq: "word_of_int (sh_frame (shared_pages m j)) = (of_nat (F (OShared idx)) :: DWord) \<longleftrightarrow> j = idx" if "j < 10" for j
  proof -
    have "F (OShared j) < 2 ^ 32" "F (OShared idx) < 2 ^ 32"
      using owner_frame(3)[OF fr own[OF that]] owner_frame(3)[OF fr own[OF idx]] by simp_all
    then have "(of_nat (F (OShared j)) :: DWord) = of_nat (F (OShared idx)) \<longleftrightarrow> F (OShared j) = F (OShared idx)"
      using of_nat_DWord_inj by blast
    then show ?thesis using sh[OF that] owner_frame_eq[OF fr own[OF that] own[OF idx]] by simp
  qed
  have "List.find (\<lambda>j. word_of_int (sh_frame (shared_pages m j)) = (of_nat (F (OShared idx)) :: DWord)) [0..<10] = Some idx"
    unfolding find_upt_Some_iff using eq idx by auto
  then show ?thesis by (simp add: is_frame_shared_def)
qed

lemma shared_translate:
  assumes inv: "space_inv m S F" and t: "t < NR_TASKS" "cr3 m = Some t" and p: "p < TOTAL_PAGES" and idx: "idx < NUM_SHARED_PAGES"
    and e: "pt_entry m t p = mk_pte (of_nat (F (OShared idx))) 7" and j: "j < 4096"
  shows "translate m (of_nat (4096 * p + j)) = Some (frame_addr (F (OShared idx)) j)"
proof -
  have fr: "frames_ok m (owners S) F" and d: "dirs_ok m" using inv by (auto simp: space_inv_def tables_ok_def)
  have "F (OShared idx) < 2 ^ 20" by (rule owner_frame(1)[OF fr]) (use idx in \<open>simp add: fixed_in_owners\<close>)
  then show ?thesis using translate_page[OF d t p j e] by simp
qed

subsection \<open>Detaching\<close>

lemma page_word:
  assumes "q < TOTAL_PAGES"
  shows "unat (drop_bit 12 (of_nat (4096 * q) :: DWord)) = q" "(of_nat (4096 * q) :: DWord) mod 4096 = 0"
proof -
  have u: "unat (of_nat (4096 * q) :: DWord) = 4096 * q" by (rule unat_of_nat_DWord) (use assms in simp)
  show "unat (drop_bit 12 (of_nat (4096 * q) :: DWord)) = q"
    unfolding unat_drop_bit_eq u by (simp add: drop_bit_eq_div)
  have "unat ((of_nat (4096 * q) :: DWord) mod 4096) = 0" unfolding unat_mod u by simp
  then show "(of_nat (4096 * q) :: DWord) mod 4096 = 0" by (simp only: unat_eq_zero)
qed


text \<open>One reference less.\<close>

definition drop_ref :: "nat \<Rightarrow> mm_state \<Rightarrow> mm_state" where
  "drop_ref idx m = m\<lparr>shared_pages := (shared_pages m)(idx :=
     (shared_pages m idx)\<lparr>num_refs := wrap32 (num_refs (shared_pages m idx) - 1)\<rparr>)\<rparr>"

lemma drop_ref_space: "space_inv (drop_ref idx m) S F = space_inv m S F"
proof -
  have e: "pt_entry (drop_ref idx m) = pt_entry m" by (simp add: fun_eq_iff drop_ref_def)
  have d: "dirs_ok (drop_ref idx m) = dirs_ok m" by (simp add: dirs_ok_def row_addr_def drop_ref_def cong: if_cong)
  have s: "sh_frame (shared_pages (drop_ref idx m) j) = sh_frame (shared_pages m j)" for j by (simp add: drop_ref_def)
  have "phys_mem (drop_ref idx m) = phys_mem m" by (simp add: drop_ref_def)
  then show ?thesis
    by (simp add: space_inv_def frames_ok_def tables_ok_def code_ok_def high_ok_def high_entry_def e d s)
qed

lemma detach_space:
  assumes inv: "space_inv m S F" and t: "t < NR_TASKS" and q: "USER_LAST_PAGE \<le> q" "q < TOTAL_PAGES"
  shows "space_inv (set_cr3 c (del_ss_pag (row_addr m t) q m)) S F"
proof (rule space_inv_remap[OF inv, where t = t and p = q and v = 0])
  note f = tables_only_fields[OF ss_pag_frame(2)[of m "row_addr m t" q]]
  have d: "dirs_ok m" using inv by (simp add: space_inv_def tables_ok_def)
  show "dirs_ok (set_cr3 c (del_ss_pag (row_addr m t) q m))"
    using d f(9) by (simp add: set_cr3_def dirs_ok_def row_addr_def cong: if_cong)
  show "phys_mem (set_cr3 c (del_ss_pag (row_addr m t) q m)) = phys_mem m" using f(1) by (simp add: set_cr3_def)
  show "sh_frame (shared_pages (set_cr3 c (del_ss_pag (row_addr m t) q m)) j) = sh_frame (shared_pages m j)" for j
    using f(2) by (simp add: set_cr3_def)
  show "pt_entry (set_cr3 c (del_ss_pag (row_addr m t) q m)) u p = (if u = t \<and> p = q then 0 else pt_entry m u p)"
    if "p < TOTAL_PAGES" for u p using pt_entry_ss_pag(2)[OF t q(2) that] by (simp add: set_cr3_def)
qed (use q in \<open>simp_all add: high_entry_def\<close>)

lemma shmdt_kernel:
  assumes inv: "kernel_inv k fq rq bq kids i F" and cur: "current k \<noteq> i" and q: "USER_LAST_PAGE \<le> q" "q < TOTAL_PAGES"
    and e: "pt_entry (mm k) (current k) q = mk_pte (of_nat (F (OShared idx))) 7" and idx: "0 < idx" "idx < NUM_SHARED_PAGES"
  defines "sp \<equiv> shared_pages (mm k) idx"
  shows "\<exists>m. sys_shmdt (of_nat (4096 * q)) k = Some (0, k\<lparr>mm := m\<rparr>) \<and> kernel_inv (k\<lparr>mm := m\<rparr>) fq rq bq kids i F \<and>
    (\<forall>u p. p < TOTAL_PAGES \<longrightarrow> pt_entry m u p = (if u = current k \<and> p = q then 0 else pt_entry (mm k) u p)) \<and>
    num_refs (shared_pages m idx) = wrap32 (num_refs sp - 1) \<and>
    ram m = (\<lambda>x. if wrap32 (num_refs sp - 1) = 0 \<and> to_clear sp = 1 \<and> x \<in> frame_bytes (F (OShared idx)) then 0 else ram (mm k) x)"
proof -
  note D = kernel_invD[OF inv] and S = sched_invD[OF kernel_invD(1)[OF inv]] and c = users_facts(3)[OF inv cur]
  let ?c = "current k" and ?m1 = "drop_ref idx (mm k)"
  have d: "dirs_ok (mm k)" and fr: "frames_ok (mm k) (owners (users k rq bq i)) F"
    using D(3) by (simp_all add: space_inv_def tables_ok_def)
  have pt: "get_PT k ?c = Some (row_addr (mm k) ?c)" using get_PT_Some[OF S(8) d S(6)] .
  have f: "F (OShared idx) < 2 ^ 20" by (rule owner_frame(1)[OF fr]) (use idx in \<open>simp add: fixed_in_owners\<close>)
  have s1: "space_inv ?m1 (users k rq bq i) F" using D(3) drop_ref_space by blast
  have m1: "dirs_ok ?m1" "cr3 ?m1 = Some ?c" "pt_entry ?m1 ?c q = mk_pte (of_nat (F (OShared idx))) 7" "ram ?m1 = ram (mm k)"
      "row_addr ?m1 ?c = row_addr (mm k) ?c"
    using s1 S(9) e by (simp_all add: space_inv_def tables_ok_def) (simp_all add: drop_ref_def)
  define r where "r = (\<lambda>x. if wrap32 (num_refs sp - 1) = 0 \<and> to_clear sp = 1 \<and> x \<in> frame_bytes (F (OShared idx)) then 0 else ram (mm k) x)"
  have z: "(if num_refs (shared_pages ?m1 idx) = 0 \<and> to_clear (shared_pages ?m1 idx) = 1
        then map_option (\<lambda>r. ?m1\<lparr>ram := r\<rparr>) (zero_out (translate ?m1) (of_nat (4096 * q)) PAGE_SIZE (ram ?m1))
        else Some ?m1) = Some (?m1\<lparr>ram := r\<rparr>)"
  proof (cases "wrap32 (num_refs sp - 1) = 0 \<and> to_clear sp = 1")
    case True
    have "zero_out (translate ?m1) (of_nat (4096 * q)) PAGE_SIZE (ram ?m1) = Some r"
      using zero_out_zeroed[OF maps_page[OF m1(1) S(6) m1(2) q(2) m1(3) f], of "ram ?m1"] True m1(4)
      by (auto simp: zeroed_def r_def frame_bytes_def)
    then show ?thesis using True by (simp add: drop_ref_def sp_def)
  next
    case False
    then have "r = ram ?m1" using m1(4) by (auto simp: r_def)
    then show ?thesis using False by (auto simp: drop_ref_def sp_def)
  qed
  let ?m = "set_cr3 (Some ?c) (del_ss_pag (row_addr (?m1\<lparr>ram := r\<rparr>) ?c) q (?m1\<lparr>ram := r\<rparr>))"
  have s2: "space_inv (?m1\<lparr>ram := r\<rparr>) (users k rq bq i) F" using s1 space_inv_ram by blast
  note u = page_word[OF q(2)]
  have "(of_nat (4096 * q) :: DWord) \<noteq> 0" using u(1) q(1) by (auto simp del: of_nat_mult)
  moreover have "pt_get (mm k) (row_addr (mm k) ?c) q = mk_pte (of_nat (F (OShared idx))) 7" using pt_get_row[OF S(6)] e by simp
  moreover have "is_frame_shared (mm k) (pte_pbase_addr (mk_pte (of_nat (F (OShared idx))) 7)) = idx"
    using shared_index[OF D(3) idx(2)] pbase_mk_pte_of_nat[OF f] by simp
  ultimately have "sys_shmdt (of_nat (4096 * q)) k = Option.bind
      (if num_refs (shared_pages ?m1 idx) = 0 \<and> to_clear (shared_pages ?m1 idx) = 1
        then map_option (\<lambda>r. ?m1\<lparr>ram := r\<rparr>) (zero_out (translate ?m1) (of_nat (4096 * q)) PAGE_SIZE (ram ?m1))
        else Some ?m1) (\<lambda>m. Some (0, k\<lparr>mm := set_cr3 (Some ?c) (del_ss_pag (row_addr (mm k) ?c) q m)\<rparr>))"
    unfolding drop_ref_def using u pt idx(1) S(8)
    by (simp add: sys_shmdt_def Let_def is_logic_page_free_def mk_pte_nonzero get_DIR_def
        del: of_nat_mult split del: if_split)
  then have "sys_shmdt (of_nat (4096 * q)) k = Some (0, k\<lparr>mm := ?m\<rparr>)" unfolding z using m1(5) by simp
  moreover have "kernel_inv (k\<lparr>mm := ?m\<rparr>) fq rq bq kids i F"
    by (rule kernel_inv_mm[OF inv detach_space[OF s2 S(6) q]]) (simp add: set_cr3_def)
  moreover have "pt_entry ?m u p = (if u = ?c \<and> p = q then 0 else pt_entry (mm k) u p)" if "p < 1024" for u p
    using pt_entry_ss_pag(2)[OF S(6) q(2) that, of "?m1\<lparr>ram := r\<rparr>"] by (simp add: set_cr3_def drop_ref_def)
  moreover have "num_refs (shared_pages ?m idx) = wrap32 (num_refs sp - 1)" "ram ?m = r"
    using tables_only_fields[OF ss_pag_frame(2)[of "?m1\<lparr>ram := r\<rparr>" "row_addr (?m1\<lparr>ram := r\<rparr>) ?c" q]]
    by (simp_all add: set_cr3_def drop_ref_def sp_def)
  ultimately show ?thesis unfolding r_def[symmetric] by blast
qed

end
