(* ===== verification/Zeos_Transfer.thy ===== *)
theory Zeos_Transfer
  imports Zeos_Shared
begin

text \<open>
  \<^verbatim>\<open>sys_write\<close> and \<^verbatim>\<open>sys_read\<close> (\<^verbatim>\<open>sys.c\<close>) on buffers in the user area: the bytes of the process reach the
  console in chunks of 512 through the kernel's buffer, and the characters of the keyboard buffer reach the
  process in the order in which they were typed. Neither faults, and nothing else of the user memory changes.
\<close>

subsection \<open>Writing\<close>

lemma of_nat_add_DWord: "n + j < 2 ^ 32 \<Longrightarrow> unat (of_nat n + of_nat j :: DWord) = n + j"
  using unat_of_nat_DWord[of "n + j"] by simp

text \<open>Where the linker may put \<^verbatim>\<open>kern_buff\<close>: in the kernel's pages, page 0 excepted.\<close>

definition kernel_buffer :: "DWord \<Rightarrow> bool" where
  "kernel_buffer kb \<longleftrightarrow> 4096 \<le> unat kb \<and> unat kb + 512 \<le> 0x100000"

text \<open>The \<open>n\<close> bytes that process \<open>t\<close> has at the offset \<open>off\<close> of its user area.\<close>

definition user_bytes :: "(frame_owner \<Rightarrow> nat) \<Rightarrow> nat \<Rightarrow> ram \<Rightarrow> nat \<Rightarrow> nat \<Rightarrow> Byte list" where
  "user_bytes F t r off n = map (\<lambda>j. r (user_byte F t (off + j))) [0..<n]"

lemma buffer_maps:
  assumes inv: "space_inv m S F" and t: "t < NR_TASKS" "cr3 m = Some t" and kb: "kernel_buffer kb" and n: "n \<le> 512"
  shows "maps_range (translate m) kb n (\<lambda>j. kb + of_nat j)"
  unfolding maps_range_def
proof (intro allI impI)
  fix j assume j: "j < n"
  have "translate m (of_nat (unat kb + j)) = Some (of_nat (unat kb + j))"
    by (rule kernel_identity[OF inv t]) (use kb j n in \<open>auto simp: kernel_buffer_def\<close>)
  then show "translate m (kb + of_nat j) = Some (kb + of_nat j)" by simp
qed

lemma load_bytes_result:
  "maps_range (translate m) a n d \<Longrightarrow> load_bytes m a n = Some (map (\<lambda>j. ram m (d j)) [0..<n])"
proof (induction n arbitrary: a d)
  case (Suc n)
  have "load8 (translate m) a (ram m) = Some (ram m (d 0))" using maps_range_at[OF Suc.prems, of 0] by (simp add: load8_def)
  moreover have "load_bytes m (a + 1) n = Some (map (\<lambda>j. ram m (d (1 + j))) [0..<n])"
    using Suc.IH[of "a + 1" "\<lambda>j. d (1 + j)"] maps_range_shift[OF Suc.prems, of 1] by simp
  moreover have "map (\<lambda>j. ram m (d j)) [0..<Suc n] = ram m (d 0) # map (\<lambda>j. ram m (d (1 + j))) [0..<n]"
    unfolding upt_conv_Cons[OF zero_less_Suc] map_Suc_upt[symmetric] by simp
  ultimately show ?case by simp
qed simp

lemma write_chunk_result:
  assumes inv: "space_inv (mm k) S F" and t: "t \<in> S" "cr3 (mm k) = Some t" and kb: "kernel_buffer kb"
    and n: "n \<le> 512" "off + n \<le> 28 * 4096"
  shows "\<exists>r. write_chunk kb (0x100000 + of_nat off) (int n) k =
      Some (int n, k\<lparr>mm := (mm k)\<lparr>ram := r\<rparr>, io := fold printc (user_bytes F t (ram (mm k)) off n) (io k)\<rparr>) \<and>
    (\<forall>x. 0x100000 \<le> unat x \<longrightarrow> r x = ram (mm k) x)"
proof -
  have t10: "t < 10" and fr: "frames_ok (mm k) (owners S) F" using inv t by (auto simp: space_inv_def)
  let ?d = "\<lambda>j. kb + of_nat j" and ?s = "\<lambda>j. user_byte F t (off + j)"
  have "maps_range (translate (mm k)) 0x100000 (28 * 4096) (user_byte F t)"
    by (rule user_area_maps[OF inv t]) simp
  then have src: "maps_range (translate (mm k)) (0x100000 + of_nat off) n ?s"
    using maps_range_shift[of "translate (mm k)" "0x100000" "28 * 4096" "user_byte F t" off] n(2)
    unfolding maps_range_def by auto
  have dst: "maps_range (translate m) kb n ?d" if "m = mm k \<or> (\<exists>r. m = (mm k)\<lparr>ram := r\<rparr>)" for m
    using that buffer_maps[OF _ t10 _ kb n(1)] inv t(2) space_inv_ram by auto
  have u: "unat (?d j) = unat kb + j" if "j < n" for j
    using of_nat_add_DWord[of "unat kb" j] kb that n(1) by (simp add: kernel_buffer_def)
  have sep: "separate ?s ?d n"
    unfolding separate_def
  proof
    show "inj_on ?d {..<n}" by (rule inj_onI) (metis u lessThan_iff add_left_cancel)
    have "?s i \<noteq> ?d j" if "i < n" "j < n" for i j
      using user_byte_high[OF fr t(1), of "off + i"] u[OF that(2)] that n kb by (auto simp: kernel_buffer_def)
    then show "?s ` {..<n} \<inter> ?d ` {..<n} = {}" by blast
  qed
  obtain r where r: "copy_data (translate (mm k)) (0x100000 + of_nat off) kb (int n) (ram (mm k)) = Some r"
      "copied ?s ?d n (ram (mm k)) r"
    using copy_data_copied[OF src dst[of "mm k"] sep] by blast
  let ?k = "k\<lparr>mm := (mm k)\<lparr>ram := r\<rparr>\<rparr>"
  have lb: "load_bytes (mm ?k) kb n = Some (user_bytes F t (ram (mm k)) off n)"
  proof -
    have "map (\<lambda>j. ram (mm ?k) (?d j)) [0..<n] = user_bytes F t (ram (mm k)) off n"
      unfolding user_bytes_def by (rule map_cong) (use r(2) in \<open>auto simp: copied_def\<close>)
    moreover have "maps_range (translate (mm ?k)) kb n ?d" by (rule dst) auto
    ultimately show ?thesis using load_bytes_result by metis
  qed
  have "map (\<lambda>i. user_bytes F t (ram (mm k)) off n ! i) [0..<n] = user_bytes F t (ram (mm k)) off n"
    by (rule nth_equalityI) (simp_all add: user_bytes_def)
  then have "write_chunk kb (0x100000 + of_nat off) (int n) k =
      Some (int n, k\<lparr>mm := (mm k)\<lparr>ram := r\<rparr>, io := fold printc (user_bytes F t (ram (mm k)) off n) (io k)\<rparr>)"
    using r(1) lb by (simp add: write_chunk_def copy_user_data on_mm_def sys_write_console_fold)
  moreover have "r x = ram (mm k) x" if "0x100000 \<le> unat x" for x
  proof -
    have "x \<noteq> ?d j" if "j < n" for j using u[OF that] \<open>0x100000 \<le> unat x\<close> kb that n(1) by (auto simp: kernel_buffer_def)
    then show ?thesis using r(2) unfolding copied_def by blast
  qed
  ultimately show ?thesis by blast
qed

lemma user_bytes_append: "user_bytes F t r off (a + b) = user_bytes F t r off a @ user_bytes F t r (off + a) b"
  by (rule nth_equalityI) (auto simp: user_bytes_def nth_append add.assoc)

lemma user_bytes_cong:
  assumes "frames_ok m (owners S) F" "t \<in> S" "off + n \<le> 28 * 4096" "\<forall>x. 0x100000 \<le> unat x \<longrightarrow> r x = r' x"
  shows "user_bytes F t r off n = user_bytes F t r' off n"
  unfolding user_bytes_def by (rule map_cong) (use assms user_byte_high[OF assms(1,2)] in auto)

text \<open>The console and the memory of the kernel after writing \<open>n\<close> bytes of process \<open>t\<close>.\<close>

definition written :: "(frame_owner \<Rightarrow> nat) \<Rightarrow> nat \<Rightarrow> nat \<Rightarrow> nat \<Rightarrow> kstate \<Rightarrow> kstate \<Rightarrow> bool" where
  "written F t off n k k' \<longleftrightarrow> (\<exists>r. k' = k\<lparr>mm := (mm k)\<lparr>ram := r\<rparr>, io := fold printc (user_bytes F t (ram (mm k)) off n) (io k)\<rparr> \<and>
     (\<forall>x. 0x100000 \<le> unat x \<longrightarrow> r x = ram (mm k) x))"

lemma written_trans:
  assumes fr: "frames_ok (mm k) (owners S) F" "t \<in> S" "off + a + b \<le> 28 * 4096"
    and w: "written F t off a k k1" "written F t (off + a) b k1 k2"
  shows "written F t off (a + b) k k2"
proof -
  obtain r where r: "k1 = k\<lparr>mm := (mm k)\<lparr>ram := r\<rparr>, io := fold printc (user_bytes F t (ram (mm k)) off a) (io k)\<rparr>"
    "\<forall>x. 0x100000 \<le> unat x \<longrightarrow> r x = ram (mm k) x" using w(1) by (auto simp: written_def)
  have "user_bytes F t (ram (mm k1)) (off + a) b = user_bytes F t (ram (mm k)) (off + a) b"
    by (rule user_bytes_cong[OF fr]) (use r in simp)
  then show ?thesis using w(2) r unfolding written_def by (auto simp: user_bytes_append)
qed

lemma write_loop_result:
  assumes "space_inv (mm k) S F" "t \<in> S" "cr3 (mm k) = Some t" "kernel_buffer kb" "off + n \<le> 28 * 4096"
  shows "\<exists>a b k'. write_loop kb (0x100000 + of_nat off) (int n) k = Some (0x100000 + of_nat (off + a), int b, k') \<and>
    n = a + b \<and> b \<le> 512 \<and> written F t off a k k'"
  using assms
proof (induction n arbitrary: off k rule: less_induct)
  case (less n)
  show ?case
  proof (cases "n > 512")
    case False
    have "k = k\<lparr>mm := (mm k)\<lparr>ram := ram (mm k)\<rparr>, io := fold printc (user_bytes F t (ram (mm k)) off 0) (io k)\<rparr>"
      by (simp add: user_bytes_def)
    then have "written F t off 0 k k" unfolding written_def by blast
    then show ?thesis using False
      by (intro exI[of _ 0] exI[of _ n] exI[of _ k]) (subst write_loop.simps; simp)
  next
    case True
    obtain k1 where k1: "write_chunk kb (0x100000 + of_nat off) 512 k = Some (512, k1)" "written F t off 512 k k1"
      using write_chunk_result[OF less.prems(1-4), of 512 off] less.prems(5) True unfolding written_def by auto
    obtain r x where m1: "mm k1 = (mm k)\<lparr>ram := r\<rparr>" using k1(2) by (auto simp: written_def)
    have s1: "space_inv (mm k1) S F" "cr3 (mm k1) = Some t" unfolding m1 using less.prems(1,3) space_inv_ram by auto
    obtain a b k' where IH: "write_loop kb (0x100000 + of_nat (off + 512)) (int (n - 512)) k1 =
        Some (0x100000 + of_nat (off + 512 + a), int b, k')" "n - 512 = a + b" "b \<le> 512" "written F t (off + 512) a k1 k'"
    proof -
      have "off + 512 + (n - 512) \<le> 28 * 4096" using less.prems(5) True by simp
      from less.IH[OF _ s1(1) less.prems(2) s1(2) less.prems(4) this] True have "\<exists>a b k'. write_loop kb (0x100000 + of_nat (off + 512)) (int (n - 512)) k1 =
        Some (0x100000 + of_nat (off + 512 + a), int b, k') \<and> n - 512 = a + b \<and> b \<le> 512 \<and> written F t (off + 512) a k1 k'"
        by simp
      then show thesis using that by blast
    qed
    have "frames_ok (mm k) (owners S) F" using less.prems(1) by (simp add: space_inv_def)
    from written_trans[OF this less.prems(2) _ k1(2) IH(4)] have "written F t off (512 + a) k k'"
      using less.prems(5) IH(2) True by simp
    moreover have "write_loop kb (0x100000 + of_nat off) (int n) k = Some (0x100000 + of_nat (off + (512 + a)), int b, k')"
      using k1(1) IH(1) True by (subst write_loop.simps) (simp add: of_nat_diff ac_simps)
    ultimately show ?thesis using IH(2,3) True by (intro exI[of _ "512 + a"] exI[of _ b] exI[of _ k']) simp
  qed
qed

lemma user_area_access:
  assumes "off + n \<le> 28 * 4096"
  shows "access_ok pt ty (0x100000 + of_nat off) (word_of_int (int n))"
proof -
  have w: "0x100000 + of_nat off = (of_nat (0x100000 + off) :: DWord)"
    "of_nat (0x100000 + off) + word_of_int (int n) = (of_nat (0x100000 + off + n) :: DWord)" by simp_all
  have "unat (drop_bit 12 (of_nat (0x100000 + off) :: DWord)) = (0x100000 + off) div 4096"
    "unat (drop_bit 12 (of_nat (0x100000 + off + n) :: DWord)) = (0x100000 + off + n) div 4096"
    unfolding unat_drop_bit_eq using assms
    by (subst unat_of_nat_DWord; simp add: drop_bit_eq_div)+
  moreover have "256 \<le> (0x100000 + off) div 4096" "(0x100000 + off) div 4096 \<le> (0x100000 + off + n) div 4096"
      "(0x100000 + off + n) div 4096 \<le> 284"
    using assms by (simp_all add: div_le_mono)
  ultimately show ?thesis
    unfolding w access_ok_def Let_def word_le_nat_alt word_less_nat_alt by simp
qed

lemma sys_write_result:
  assumes inv: "space_inv (mm k) S F" and t: "t \<in> S" "cr3 (mm k) = Some t" "current k = t" "dir_pages_baseAddr (task k t) = Some t"
    and kb: "kernel_buffer kb" and n: "off + n \<le> 28 * 4096"
  shows "\<exists>k'. sys_write kb 1 (0x100000 + of_nat off) (int n) k = Some (int n, k') \<and> written F t off n k k'"
proof -
  have t10: "t < 10" and fr: "frames_ok (mm k) (owners S) F" and d: "dirs_ok (mm k)"
    using inv t by (auto simp: space_inv_def tables_ok_def)
  have pt: "cur_table k = Some (pt_get (mm k) (row_addr (mm k) t))"
    using t(3,4) get_PT_row[OF d t10] by (simp add: cur_table_def get_PT_def)
  have ok: "access_ok (pt_get (mm k) (row_addr (mm k) t)) VERIFY_READ (0x100000 + of_nat off) (word_of_int (int n))"
    by (rule user_area_access) (use n in simp)
  obtain a b k1 where w: "write_loop kb (0x100000 + of_nat off) (int n) k = Some (0x100000 + of_nat (off + a), int b, k1)"
      "n = a + b" "b \<le> 512" "written F t off a k k1"
    using write_loop_result[OF inv t(1,2) kb n] by blast
  show ?thesis
  proof (cases "b = 0")
    case True
    then show ?thesis using w pt ok by (simp add: sys_write_def check_fd_def)
  next
    case False
    obtain r x where m1: "mm k1 = (mm k)\<lparr>ram := r\<rparr>" using w(4) by (auto simp: written_def)
    have s1: "space_inv (mm k1) S F" "cr3 (mm k1) = Some t" unfolding m1 using inv t(2) space_inv_ram by auto
    obtain k2 where k2: "write_chunk kb (0x100000 + of_nat (off + a)) (int b) k1 = Some (int b, k2)" "written F t (off + a) b k1 k2"
      using write_chunk_result[OF s1(1) t(1) s1(2) kb w(3), of "off + a"] n w(2) unfolding written_def by auto
    have "written F t off n k k2" using written_trans[OF fr t(1) _ w(4) k2(2)] n w(2) by simp
    then show ?thesis using w k2(1) pt ok False by (simp add: sys_write_def check_fd_def)
  qed
qed

subsection \<open>Reading\<close>

lemma store_bytes_result:
  assumes "maps_range tr a (length bs) d" "inj_on d {..<length bs}"
  shows "\<exists>r'. store_bytes tr a bs r = Some r' \<and> (\<forall>j<length bs. r' (d j) = bs ! j) \<and>
    (\<forall>x. x \<notin> d ` {..<length bs} \<longrightarrow> r' x = r x)"
  using assms
proof (induction bs arbitrary: a d r)
  case (Cons b bs)
  let ?d = "\<lambda>j. d (1 + j)"
  have s: "store8 tr a b r = Some (r(d 0 := b))" using maps_range_at[OF Cons.prems(1), of 0] by (simp add: store8_def)
  have m: "maps_range tr (a + 1) (length bs) ?d" using maps_range_shift[OF Cons.prems(1), of 1] by simp
  have i: "inj_on ?d {..<length bs}" using Cons.prems(2) by (auto simp: inj_on_def)
  obtain r' where r': "store_bytes tr (a + 1) bs (r(d 0 := b)) = Some r'" "\<forall>j<length bs. r' (?d j) = bs ! j"
      "\<forall>x. x \<notin> ?d ` {..<length bs} \<longrightarrow> r' x = (r(d 0 := b)) x"
    using Cons.IH[OF m i] by blast
  have d0: "d 0 \<notin> ?d ` {..<length bs}" using Cons.prems(2) by (auto simp: inj_on_def)
  have im: "d ` {..<length (b # bs)} = insert (d 0) (?d ` {..<length bs})"
    by (simp add: lessThan_Suc_eq_insert_0 image_image)
  have "r' (d j) = (b # bs) ! j" if "j < length (b # bs)" for j
    using that r'(2,3) d0 by (cases j) auto
  moreover have "r' x = r x" if "x \<notin> d ` {..<length (b # bs)}" for x using that r'(3) unfolding im by simp
  ultimately show ?case using s r'(1) by auto
qed simp

lemma read_loop_result:
  assumes "cb_wf (cbuff k)" "index s = num_chars s" "num_reads s = 0" "num_chars s = of_nat c"
    "c + length (cb_contents (cbuff k)) < 512" "c \<le> unat mx"
  defines "n \<equiv> min (unat mx - c) (length (cb_contents (cbuff k)))"
  shows "\<exists>kb cb. read_loop b mx s k = Some (s\<lparr>kbuf := kb, num_chars := of_nat (c + n), index := of_nat (c + n)\<rparr>, k\<lparr>cbuff := cb\<rparr>) \<and>
    cb_wf cb \<and> cb_contents cb = drop n (cb_contents (cbuff k)) \<and>
    (\<forall>j<c. kb j = kbuf s j) \<and> (\<forall>j<n. kb (c + j) = cb_contents (cbuff k) ! j)"
  using assms(1-6) unfolding n_def
proof (induction "length (cb_contents (cbuff k))" arbitrary: k s c)
  case 0
  then have "is_empty (cbuff k)" using is_empty_iff by simp
  then have "read_loop b mx s k = Some (s, k)" by (subst read_loop.simps) simp
  moreover have "s = s\<lparr>kbuf := kbuf s, num_chars := of_nat c, index := of_nat c\<rparr>" "k = k\<lparr>cbuff := cbuff k\<rparr>"
    using 0 by simp_all
  ultimately show ?case using 0 by (intro exI[of _ "kbuf s"] exI[of _ "cbuff k"]) simp
next
  case (Suc l)
  then obtain x xs where q: "cb_contents (cbuff k) = x # xs" by (cases "cb_contents (cbuff k)") auto
  have ne: "\<not> is_empty (cbuff k)" using is_empty_iff[OF Suc.prems(1)] q by simp
  have c: "unat (num_chars s) = c" using Suc.prems(4,5) unat_of_nat_DWord[of c] by simp
  show ?case
  proof (cases "c < unat mx")
    case False
    then have "\<not> num_chars s < mx" using c by (simp add: word_less_nat_alt)
    then have "read_loop b mx s k = Some (s, k)" by (subst read_loop.simps) simp
    moreover have "s = s\<lparr>kbuf := kbuf s, num_chars := of_nat c, index := of_nat c\<rparr>" "k = k\<lparr>cbuff := cbuff k\<rparr>"
      using Suc.prems by simp_all
    ultimately show ?thesis using Suc.prems False by (intro exI[of _ "kbuf s"] exI[of _ "cbuff k"]) simp
  next
    case True
    obtain cb where cb: "get (cbuff k) (kbuf s c) = (1, x, cb)" "cb_wf cb" "cb_contents cb = xs"
      using get_nonempty[OF Suc.prems(1) q] by blast
    let ?s = "s\<lparr>kbuf := (kbuf s)(c := x), num_chars := of_nat (Suc c), index := of_nat (Suc c)\<rparr>" and ?k = "k\<lparr>cbuff := cb\<rparr>"
    have i: "(of_nat (Suc c) :: DWord) \<noteq> 512"
    proof
      assume "(of_nat (Suc c) :: DWord) = 512"
      then have "Suc c = 512" using unat_of_nat_DWord[of "Suc c"] Suc.prems(5) by simp
      then show False using Suc.prems(5) q by simp
    qed
    have "read_step b s k = Some (?s, ?k)"
      using c cb(1) i Suc.prems(2-5) by (simp add: read_step_def Let_def add.commute)
    then have st: "read_loop b mx s k = read_loop b mx ?s ?k"
      using ne True c by (subst read_loop.simps) (simp add: word_less_nat_alt)
    have "l = length (cb_contents (cbuff ?k))" using Suc.hyps(2) q cb(3) by simp
    define N where "N = min (unat mx - Suc c) (length xs)"
    from \<open>l = _\<close> Suc.hyps(1)[of ?k ?s "Suc c"] obtain kb cb' where IH:
      "read_loop b mx ?s ?k = Some (?s\<lparr>kbuf := kb, num_chars := of_nat (Suc c + N), index := of_nat (Suc c + N)\<rparr>, ?k\<lparr>cbuff := cb'\<rparr>)"
      "cb_wf cb'" "cb_contents cb' = drop N xs" "\<forall>j<Suc c. kb j = ((kbuf s)(c := x)) j" "\<forall>j<N. kb (Suc c + j) = xs ! j"
      using cb(2,3) Suc.prems(3,5) q True unfolding N_def by auto
    have n: "min (unat mx - c) (length (cb_contents (cbuff k))) = Suc N" using True q by (simp add: N_def)
    have kq: "kb (c + j) = cb_contents (cbuff k) ! j" if "j < Suc N" for j
      using that IH(4,5) q by (cases j) auto
    have old: "kb j = kbuf s j" if "j < c" for j using IH(4) that by auto
    have "read_loop b mx s k = Some (s\<lparr>kbuf := kb, num_chars := of_nat (c + Suc N), index := of_nat (c + Suc N)\<rparr>, k\<lparr>cbuff := cb'\<rparr>)"
      using IH(1) st by simp
    then show ?thesis unfolding n using IH(2,3) q kq old by (intro exI[of _ kb] exI[of _ cb']) simp
  qed
qed

lemma sys_read_result:
  assumes inv: "space_inv (mm k) S F" and t: "t \<in> S" "cr3 (mm k) = Some t" "current k = t" "dir_pages_baseAddr (task k t) = Some t"
    and cb: "cb_wf (cbuff k)" and mx: "off + mx \<le> 28 * 4096"
  defines "q \<equiv> cb_contents (cbuff k)"
  defines "n \<equiv> min mx (length q)"
  shows "\<exists>r cb'. sys_read (0x100000 + of_nat off) (int mx) kb k = Some (int n, k\<lparr>cbuff := cb', mm := (mm k)\<lparr>ram := r\<rparr>\<rparr>) \<and>
    cb_wf cb' \<and> cb_contents cb' = drop n q \<and> user_bytes F t r off n = take n q \<and>
    (\<forall>x. x \<notin> user_byte F t ` {off..<off + n} \<longrightarrow> r x = ram (mm k) x)"
proof -
  have t10: "t < 10" and fr: "frames_ok (mm k) (owners S) F" and d: "dirs_ok (mm k)"
    using inv t by (auto simp: space_inv_def tables_ok_def)
  have pt: "cur_table k = Some (pt_get (mm k) (row_addr (mm k) t))"
    using t(3,4) get_PT_row[OF d t10] by (simp add: cur_table_def get_PT_def)
  note ok = user_area_access[OF mx, of "pt_get (mm k) (row_addr (mm k) t)" VERIFY_WRITE]
  have u: "unat (word_of_int (int mx) :: DWord) = mx" using unat_of_nat_DWord[of mx] mx by simp
  have len: "length q \<le> 31" using cb_contents_bound[OF cb] by (simp add: q_def)
  let ?s = "\<lparr>num_chars = 0, index = 0, num_reads = 0, kbuf = kb\<rparr>"
  obtain kb' cb' where rl: "read_loop (0x100000 + of_nat off) (word_of_int (int mx)) ?s k =
      Some (?s\<lparr>kbuf := kb', num_chars := of_nat n, index := of_nat n\<rparr>, k\<lparr>cbuff := cb'\<rparr>)"
      "cb_wf cb'" "cb_contents cb' = drop n q" "\<forall>j<n. kb' j = q ! j"
    using read_loop_result[OF cb, where s = ?s and c = 0 and mx = "word_of_int (int mx)" and b = "0x100000 + of_nat off"] u len
    by (auto simp: q_def n_def)
  have n31: "n \<le> 31" "unat (of_nat n :: DWord) = n" using len unat_of_nat_DWord[of n] by (auto simp: n_def)
  have bs: "map kb' [0..<n] = take n q" by (rule nth_equalityI) (use rl(4) in \<open>auto simp: n_def\<close>)
  have "sint (of_nat n :: DWord) = int n" using sint_small[of "of_nat n"] n31 by simp
  moreover have "maps_range (translate (mm k)) 0x100000 (28 * 4096) (user_byte F t)"
    by (rule user_area_maps[OF inv t(1,2)]) simp
  then have src: "maps_range (translate (mm k)) (0x100000 + of_nat off) n (\<lambda>j. user_byte F t (off + j))"
    using maps_range_shift[of "translate (mm k)" "0x100000" "28 * 4096" "user_byte F t" off] mx n_def
    unfolding maps_range_def by auto
  have inj: "inj_on (\<lambda>j. user_byte F t (off + j)) {..<n}"
  proof (rule inj_onI)
    fix x y assume xy: "x \<in> {..<n}" "y \<in> {..<n}" "user_byte F t (off + x) = user_byte F t (off + y)"
    then have "off + x < 28 * 4096" "off + y < 28 * 4096" using mx n_def by auto
    from user_byte_inj[OF fr t(1) this xy(3)] show "x = y" by simp
  qed
  have lq: "length (take n q) = n" by (simp add: n_def)
  obtain r where r: "store_bytes (translate (mm k)) (0x100000 + of_nat off) (take n q) (ram (mm k)) = Some r"
      "\<forall>j<n. r (user_byte F t (off + j)) = take n q ! j"
      "\<forall>x. x \<notin> (\<lambda>j. user_byte F t (off + j)) ` {..<n} \<longrightarrow> r x = ram (mm k) x"
    using store_bytes_result[of "translate (mm k)" _ "take n q"] src inj unfolding lq by blast
  have im: "(\<lambda>j. user_byte F t (off + j)) ` {..<n} = user_byte F t ` {off..<off + n}"
  proof -
    have "{off..<off + n} = (+) off ` {..<n}" by (auto simp: lessThan_atLeast0 add.commute)
    then show ?thesis by (simp only: image_image)
  qed
  have "user_bytes F t r off n = take n q"
    by (rule nth_equalityI) (use r(2) lq in \<open>auto simp: user_bytes_def\<close>)
  moreover have "sys_read (0x100000 + of_nat off) (int mx) kb k = Some (int n, k\<lparr>cbuff := cb', mm := (mm k)\<lparr>ram := r\<rparr>\<rparr>)"
  proof (cases "n = 0")
    case True
    then have "r = ram (mm k)" using r(1) by simp
    then show ?thesis using True pt ok rl(1) by (simp add: sys_read_def)
  next
    case False
    then have "(of_nat n :: DWord) \<noteq> 0" using n31(2) by auto
    then show ?thesis using pt ok rl(1) r(1) bs n31 \<open>sint _ = _\<close>
      by (simp add: sys_read_def copy_chunk_def kslice_def on_mm_def)
  qed
  ultimately show ?thesis using rl(2,3) r(3) unfolding im by blast
qed

subsection \<open>The kernel's invariant\<close>

lemma write_kernel:
  assumes inv: "kernel_inv k fq rq bq kids i F" and cur: "current k \<noteq> i" and kb: "kernel_buffer kb" and n: "off + n \<le> 28 * 4096"
  shows "\<exists>k'. sys_write kb 1 (0x100000 + of_nat off) (int n) k = Some (int n, k') \<and>
    written F (current k) off n k k' \<and> kernel_inv k' fq rq bq kids i F"
proof -
  note D = kernel_invD[OF inv] and S = sched_invD[OF kernel_invD(1)[OF inv]] and c = users_facts(3)[OF inv cur]
  obtain k' where k': "sys_write kb 1 (0x100000 + of_nat off) (int n) k = Some (int n, k')" "written F (current k) off n k k'"
    using sys_write_result[OF D(3) c S(9) refl S(8) kb n] by blast
  obtain r where r: "k' = k\<lparr>mm := (mm k)\<lparr>ram := r\<rparr>, io := fold printc (user_bytes F (current k) (ram (mm k)) off n) (io k)\<rparr>"
    using k'(2) by (auto simp: written_def)
  have "space_inv ((mm k)\<lparr>ram := r\<rparr>) (users k rq bq i) F" using D(3) space_inv_ram by blast
  from kernel_inv_devices[OF inv this _ D(5) fold_printc_cursor_ok[OF D(6)]] have "kernel_inv k' fq rq bq kids i F"
    using S(9) r by simp
  then show ?thesis using k' by blast
qed

lemma read_kernel:
  assumes inv: "kernel_inv k fq rq bq kids i F" and cur: "current k \<noteq> i" and mx: "off + mx \<le> 28 * 4096"
  defines "n \<equiv> min mx (length (cb_contents (cbuff k)))"
  shows "\<exists>k'. sys_read (0x100000 + of_nat off) (int mx) kb k = Some (int n, k') \<and> kernel_inv k' fq rq bq kids i F \<and>
    k' = k\<lparr>cbuff := cbuff k', mm := (mm k)\<lparr>ram := ram (mm k')\<rparr>\<rparr> \<and>
    cb_contents (cbuff k') = drop n (cb_contents (cbuff k)) \<and>
    user_bytes F (current k) (ram (mm k')) off n = take n (cb_contents (cbuff k)) \<and>
    (\<forall>x. x \<notin> user_byte F (current k) ` {off..<off + n} \<longrightarrow> ram (mm k') x = ram (mm k) x)"
proof -
  note D = kernel_invD[OF inv] and S = sched_invD[OF kernel_invD(1)[OF inv]] and c = users_facts(3)[OF inv cur]
  obtain r cb' where k': "sys_read (0x100000 + of_nat off) (int mx) kb k = Some (int n, k\<lparr>cbuff := cb', mm := (mm k)\<lparr>ram := r\<rparr>\<rparr>)"
      "cb_wf cb'" "cb_contents cb' = drop n (cb_contents (cbuff k))"
      "user_bytes F (current k) r off n = take n (cb_contents (cbuff k))"
      "\<forall>x. x \<notin> user_byte F (current k) ` {off..<off + n} \<longrightarrow> r x = ram (mm k) x"
    using sys_read_result[OF D(3) c S(9) refl S(8) D(5) mx] unfolding n_def by blast
  have "space_inv ((mm k)\<lparr>ram := r\<rparr>) (users k rq bq i) F" using D(3) space_inv_ram by blast
  then have "kernel_inv (k\<lparr>mm := (mm k)\<lparr>ram := r\<rparr>, cbuff := cb', io := io k\<rparr>) fq rq bq kids i F"
    by (rule kernel_inv_devices[OF inv _ _ k'(2) D(6)]) (simp add: S(9))
  moreover have "k\<lparr>cbuff := cb', mm := (mm k)\<lparr>ram := r\<rparr>\<rparr> = k\<lparr>mm := (mm k)\<lparr>ram := r\<rparr>, cbuff := cb', io := io k\<rparr>" by simp
  ultimately have "kernel_inv (k\<lparr>cbuff := cb', mm := (mm k)\<lparr>ram := r\<rparr>\<rparr>) fq rq bq kids i F" by (simp only:)
  then show ?thesis using k' by auto
qed

lemma user_translate:
  assumes "kernel_inv k fq rq bq kids i F" "current k \<noteq> i" "j < 28 * 4096"
  shows "translate (mm k) (0x100000 + of_nat j) = Some (user_byte F (current k) j)"
  using maps_range_at[OF user_area_maps[OF kernel_invD(3) users_facts(3) sched_invD(9)[OF kernel_invD(1)] order_refl] assms(3)] assms(1,2)
  by blast

lemma user_bytes_loaded:
  assumes "kernel_inv k fq rq bq kids i F" "current k \<noteq> i" "off + n \<le> 28 * 4096" "j < n"
  shows "load8 (translate (mm k)) (0x100000 + of_nat (off + j)) (ram (mm k)) = Some (user_bytes F (current k) (ram (mm k)) off n ! j)"
  using user_translate[OF assms(1,2), of "off + j"] assms(3,4) by (simp add: load8_def user_bytes_def)

end
