(* ===== verification/Zeos_Entry.thy ===== *)
theory Zeos_Entry
  imports Zeos_Transfer
begin

text \<open>
  The ways into the kernel: the \<^verbatim>\<open>sysenter\<close> handler of \<^verbatim>\<open>entry.S\<close> with the table of \<^verbatim>\<open>sys_call_table.S\<close>, and
  the handlers of the clock and of the keyboard. An event is one entry; \<open>handle\<close> is what the kernel does with
  it, up to the point where it goes back to a process, and \<open>run_events\<close> a sequence of them. A second, abstract
  machine, \<open>proc_step\<close>, says what every event means for the processes: who runs, who waits, who is
  whose child. \<open>enabled\<close> lists what the kernel takes for granted.
\<close>

subsection \<open>Dispatch of a system call\<close>

text \<open>The saved registers \<^verbatim>\<open>%edx\<close>, \<^verbatim>\<open>%ecx\<close> and \<^verbatim>\<open>%ebx\<close> are the arguments of the C function.\<close>

record syscall_args =
  arg_edx :: DWord
  arg_ecx :: DWord
  arg_ebx :: DWord

text \<open>What the linker and the registers give a call: the address of \<^verbatim>\<open>kern_buff\<close>, the bytes behind the key
  map, what the stack holds where \<^verbatim>\<open>sys_read\<close> puts its local buffer, and what a call through the word behind the system call
  table does.\<close>

record image =
  kern_buff :: DWord
  behind_map :: "nat \<Rightarrow> Byte"
  stack_bytes :: "nat \<Rightarrow> Byte"
  behind_table :: "syscall_args \<Rightarrow> kstate \<Rightarrow> (int option \<times> kstate) option"

text \<open>\<^term>\<open>None\<close> inside the result: the call does not return to its caller.\<close>

definition returning :: "(int \<times> kstate) option \<Rightarrow> (int option \<times> kstate) option" where
  "returning r = map_option (\<lambda>(v, k). (Some v, k)) r"

text \<open>The table has 23 entries; \<^verbatim>\<open>MAX_SYSCALL\<close> is their number.\<close>

abbreviation (input) MAX_SYSCALL :: int where "MAX_SYSCALL \<equiv> 23"

definition sys_call_table :: "image \<Rightarrow> int \<Rightarrow> syscall_args \<Rightarrow> kstate \<Rightarrow> (int option \<times> kstate) option" where
  "sys_call_table img n a k =
     (if n = 1 then map_option (\<lambda>k. (None, k)) (sys_exit k)
      else if n = 2 then returning (sys_fork k)
      else if n = 3 then returning (sys_read (arg_edx a) (sint (arg_ecx a)) (stack_bytes img) k)
      else if n = 4 then returning (sys_write (kern_buff img) (sint (arg_edx a)) (arg_ecx a) (sint (arg_ebx a)) k)
      else if n = 10 then returning (sys_gettime k)
      else if n = 11 then returning (sys_gotoxy (sint (arg_edx a)) (sint (arg_ecx a)) k)
      else if n = 12 then returning (sys_set_color (sint (arg_edx a)) (sint (arg_ecx a)) k)
      else if n = 15 then returning (sys_shmat (sint (arg_edx a)) (arg_ecx a) k)
      else if n = 16 then returning (sys_shmdt (arg_edx a) k)
      else if n = 17 then returning (sys_shmrm (sint (arg_edx a)) k)
      else if n = 18 then returning (sys_block k)
      else if n = 19 then returning (sys_unblock (sint (arg_edx a)) k)
      else if n = 20 then returning (sys_getpid k)
      else if n = 21 then returning (sys_numsons k)
      else if n = 22 then returning (sys_numbros k)
      else if 0 \<le> n \<and> n < MAX_SYSCALL then returning (sys_ni_syscall k)
      else if n = MAX_SYSCALL then behind_table img a k
      else None)"

text \<open>
  \<^verbatim>\<open>sysenter\<close> loads the stack pointer from the MSR, the handler pushes the hardware and the software context
  on the stack of the current process; \<open>e\<close> is the stack pointer in the called function and \<open>ws\<close> what is on
  the stack above it. The number is rejected when it is negative or greater than \<^verbatim>\<open>MAX_SYSCALL\<close>; a number
  equal to \<^verbatim>\<open>MAX_SYSCALL\<close> calls through the word behind the table. The result is what the
  handler puts into the saved \<^verbatim>\<open>%eax\<close>.
\<close>

definition sys_call_handler_sysenter ::
  "image \<Rightarrow> nat \<times> (nat \<Rightarrow> kword) \<Rightarrow> int \<Rightarrow> syscall_args \<Rightarrow> kstate \<Rightarrow> (int option \<times> kstate) option" where
  "sys_call_handler_sysenter img e n a k =
     (let k = on_stack (fst (msr_esp k)) (fst e) (snd e) k in
      if n < 0 \<or> n > MAX_SYSCALL then Some (Some (-40), k)
      else sys_call_table img n a k)"

subsection \<open>Events\<close>

datatype kevent =
    Clock "nat \<times> (nat \<Rightarrow> kword)"
  | Keyboard Byte
  | Syscall "nat \<times> (nat \<Rightarrow> kword)" int syscall_args

fun handle :: "image \<Rightarrow> kevent \<Rightarrow> kstate \<Rightarrow> kstate option" where
  "handle img (Clock e) k = clock_tick e k"
| "handle img (Keyboard key) k = Some (kbd_routine (behind_map img) key k)"
| "handle img (Syscall e n a) k = map_option snd (sys_call_handler_sysenter img e n a k)"

fun run_events :: "image \<Rightarrow> kevent list \<Rightarrow> kstate \<Rightarrow> kstate option" where
  "run_events img [] k = Some k"
| "run_events img (ev # evs) k = Option.bind (handle img ev k) (run_events img evs)"

subsection \<open>The abstract machine of processes\<close>

text \<open>Processes by PCB number: the running one, the queues from first to last, the children of each in order,
  and the fields of the PCBs that matter for scheduling.\<close>

record procs =
  p_idle :: nat
  p_run :: nat
  p_free :: "nat list"
  p_ready :: "nat list"
  p_blocked :: "nat list"
  p_sons :: "nat \<rightharpoonup> nat list"
  p_ticks :: DWord
  p_next :: int
  p_pid :: "nat \<Rightarrow> int"
  p_parent :: "nat \<Rightarrow> nat option"
  p_quantum :: "nat \<Rightarrow> DWord"
  p_pending :: "nat \<Rightarrow> int"

definition spec_clock :: "procs \<Rightarrow> procs" where
  "spec_clock p = (case rr_tick (p_idle p) (p_quantum p) (p_run p, p_ready p, p_ticks p) of
     (c, rq, w) \<Rightarrow> p\<lparr>p_run := c, p_ready := rq, p_ticks := w\<rparr>)"

text \<open>The CPU goes to the first ready process, or to idle.\<close>

definition spec_next :: "procs \<Rightarrow> procs" where
  "spec_next p = p\<lparr>p_run := (if p_ready p = [] then p_idle p else hd (p_ready p)), p_ready := tl (p_ready p), p_ticks := 0\<rparr>"

definition spec_exit :: "procs \<Rightarrow> procs" where
  "spec_exit p = (let c = p_run p; i = p_idle p in
     spec_next (p\<lparr>p_free := p_free p @ [c], p_sons := exit_kids (p_sons p) c i, p_pid := (p_pid p)(c := -1),
       p_parent := (\<lambda>t. if t \<noteq> c \<and> p_parent p t = Some c then Some i else p_parent p t)\<rparr>))"

definition spec_fork :: "procs \<Rightarrow> procs" where
  "spec_fork p = (case p_free p of [] \<Rightarrow> p
     | t # ts \<Rightarrow> p\<lparr>p_free := ts, p_ready := p_ready p @ [t],
         p_sons := (p_sons p)(t \<mapsto> [], p_run p \<mapsto> the (p_sons p (p_run p)) @ [t]), p_next := p_next p + 1,
         p_pid := (p_pid p)(t := p_next p), p_parent := (p_parent p)(t := Some (p_run p)),
         p_quantum := (p_quantum p)(t := p_quantum p (p_run p)), p_pending := (p_pending p)(t := 0)\<rparr>)"

definition spec_block :: "procs \<Rightarrow> procs" where
  "spec_block p = (if p_pending p (p_run p) = 0 then spec_next (p\<lparr>p_blocked := p_blocked p @ [p_run p]\<rparr>)
     else p\<lparr>p_pending := (p_pending p)(p_run p := wrap32 (p_pending p (p_run p) - 1))\<rparr>)"

definition spec_unblock :: "int \<Rightarrow> procs \<Rightarrow> procs" where
  "spec_unblock pid p = (case List.find (\<lambda>s. p_pid p s = pid) (the (p_sons p (p_run p))) of
       None \<Rightarrow> p
     | Some s \<Rightarrow> if s \<in> set (p_blocked p)
         then p\<lparr>p_blocked := remove1 s (p_blocked p), p_ready := p_ready p @ [s], p_pending := (p_pending p)(s := 0)\<rparr>
         else p\<lparr>p_pending := (p_pending p)(s := wrap32 (p_pending p s + 1))\<rparr>)"

fun proc_step :: "kevent \<Rightarrow> procs \<Rightarrow> procs" where
  "proc_step (Clock e) p = spec_clock p"
| "proc_step (Keyboard key) p = p"
| "proc_step (Syscall e n a) p =
     (if n = 1 then spec_exit p else if n = 2 then spec_fork p
      else if n = 18 then spec_block p else if n = 19 then spec_unblock (sint (arg_edx a)) p else p)"

text \<open>A kernel state stands for a state of the abstract machine.\<close>

definition pcb_agrees :: "kstate \<Rightarrow> procs \<Rightarrow> nat \<Rightarrow> bool" where
  "pcb_agrees k p t \<longleftrightarrow> PID (task k t) = p_pid p t \<and> parent (task k t) = p_parent p t \<and>
     quantum (task k t) = p_quantum p t \<and> pending_unblocks (task k t) = p_pending p t"

definition represents :: "kstate \<Rightarrow> procs \<Rightarrow> bool" where
  "represents k p \<longleftrightarrow>
     (\<exists>F. kernel_inv k (p_free p) (p_ready p) (p_blocked p) (p_sons p) (p_idle p) F) \<and>
     current k = p_run p \<and> ticks_since_last_switch k = p_ticks p \<and> next_pid k = p_next p \<and>
     (\<forall>t<NR_TASKS. pcb_agrees k p t)"

subsection \<open>What the kernel takes for granted\<close>

text \<open>A buffer of the caller is rejected, or it lies in the user area.\<close>

definition user_buffer :: "DWord \<Rightarrow> int \<Rightarrow> bool" where
  "user_buffer a n \<longleftrightarrow> 0 \<le> n \<and> 0x100000 \<le> unat a \<and> unat a + nat n \<le> 0x100000 + 28 * 4096"

definition call_ok :: "int \<Rightarrow> syscall_args \<Rightarrow> kstate \<Rightarrow> procs \<Rightarrow> bool" where
  "call_ok n a k p \<longleftrightarrow>
     (n = 1 \<longrightarrow> (p_pid p (p_run p) = 1 \<longrightarrow> orphan (p_sons p) (p_run p)) \<and>
        (\<forall>t<NR_TASKS. p_parent p t = Some (p_run p) \<longrightarrow> t \<in> set (the (p_sons p (p_run p))))) \<and>
     (n = 2 \<longrightarrow> p_free p \<noteq> [] \<longrightarrow> p_next p < 2 ^ 31 - 1 \<and> 20 \<le> card (free_pages (mm k) (p_run p))) \<and>
     (n = 3 \<longrightarrow> user_buffer (arg_edx a) (sint (arg_ecx a))) \<and>
     (n = 4 \<longrightarrow> sint (arg_edx a) = 1 \<longrightarrow> user_buffer (arg_ecx a) (sint (arg_ebx a))) \<and>
     (n = 15 \<longrightarrow> 0 \<le> sint (arg_edx a) \<and> sint (arg_edx a) \<le> 9 \<and> arg_ecx a mod 4096 = 0 \<longrightarrow>
        unat (drop_bit 12 (arg_ecx a)) < TOTAL_PAGES \<and> free_pages (mm k) (p_run p) \<noteq> {}) \<and>
     (n = 16 \<longrightarrow> arg_edx a \<noteq> 0 \<and> arg_edx a mod 4096 = 0 \<longrightarrow>
        USER_LAST_PAGE \<le> unat (drop_bit 12 (arg_edx a)) \<and> unat (drop_bit 12 (arg_edx a)) < TOTAL_PAGES) \<and>
     (n = 18 \<longrightarrow> p_pending p (p_run p) = 0 \<longrightarrow> \<not> (p_quantum p (p_run p) < p_ticks p \<and> p_ready p = [])) \<and>
     (n = 22 \<longrightarrow> \<not> orphan (p_sons p) (p_run p)) \<and> n \<noteq> MAX_SYSCALL"

fun enabled :: "image \<Rightarrow> kevent \<Rightarrow> kstate \<Rightarrow> procs \<Rightarrow> bool" where
  "enabled img (Clock e) k p \<longleftrightarrow> slot_ok e"
| "enabled img (Keyboard key) k p \<longleftrightarrow> True"
| "enabled img (Syscall e n a) k p \<longleftrightarrow> slot_ok e \<and> p_run p \<noteq> p_idle p \<and> kernel_buffer (kern_buff img) \<and> call_ok n a k p"

fun admissible :: "image \<Rightarrow> kevent list \<Rightarrow> kstate \<Rightarrow> procs \<Rightarrow> bool" where
  "admissible img [] k p \<longleftrightarrow> True"
| "admissible img (ev # evs) k p \<longleftrightarrow> enabled img ev k p \<and>
     (\<forall>k'. handle img ev k = Some k' \<longrightarrow> admissible img evs k' (proc_step ev p))"

end
