(* ===== verification/Zeos_Libc.thy ===== *)
theory Zeos_Libc
  imports Zeos_Utils
begin

text \<open>
  The C library of the user programs, \<^verbatim>\<open>libc.c\<close> (the kernel links \<^verbatim>\<open>itohexa\<close>, \<^verbatim>\<open>strcat\<close> and
  \<^verbatim>\<open>strlen\<close> too): number printing, strings, the pseudo-random generator, error messages and time.

  A \<^verbatim>\<open>char *\<close> is an address of the process's memory; a routine maps the memory before to the
  memory after. Loops over a string may run past its end, so they are partial functions whose
  value \<^term>\<open>None\<close> means that they do not return. What \<^verbatim>\<open>gettime\<close> returns on successive calls is
  a parameter of the routines that poll it.
\<close>

subsection \<open>Printing numbers\<close>

definition dec_digit :: "int \<Rightarrow> Byte" where
  "dec_digit r = word_of_int (r + 48)"

definition hex_digit :: "int \<Rightarrow> Byte" where
  "hex_digit r = (if r < 10 then word_of_int (48 + r) else word_of_int (65 + r - 10))"

text \<open>The two loops of \<^verbatim>\<open>itodeca\<close> and \<^verbatim>\<open>itohexa\<close>: digits from the least significant one on, then
  the reversal.\<close>

function digit_loop :: "int \<Rightarrow> (int \<Rightarrow> Byte) \<Rightarrow> int \<Rightarrow> nat \<Rightarrow> DWord \<Rightarrow> ram \<Rightarrow> nat \<times> ram" where
  "digit_loop base dig a i b m =
     (if a > 0 \<and> base > 1
      then digit_loop base dig (a sdiv base) (i + 1) b (m(b + of_nat i := dig (a smod base)))
      else (i, m))"
  by pat_completeness auto
termination
  by (relation "measure (\<lambda>(base, dig, a, i, b, m). nat a)") (auto simp: sdiv_nonneg div_less_dividend int_div_less_self)

function reverse_loop :: "nat \<Rightarrow> nat \<Rightarrow> DWord \<Rightarrow> ram \<Rightarrow> ram" where
  "reverse_loop i1 i b m =
     (if i1 < i div 2 then
        let c = m (b + of_nat i1);
            m = m(b + of_nat i1 := m (b + of_nat (i - i1 - 1)));
            m = m(b + of_nat (i - i1 - 1) := c)
        in reverse_loop (i1 + 1) i b m
      else m)"
  by pat_completeness auto
termination
  by (relation "measure (\<lambda>(i1, i, b, m). i div 2 - i1)") auto

declare digit_loop.simps [simp del] reverse_loop.simps [simp del]

definition itodeca :: "int \<Rightarrow> DWord \<Rightarrow> ram \<Rightarrow> ram" where
  "itodeca a b m =
     (if a = 0 then m(b := 48, b + 1 := 0)
      else case digit_loop 10 dec_digit a 0 b m of (i, m) \<Rightarrow>
        let m = reverse_loop 0 i b m in m(b + of_nat i := 0))"

definition itohexa :: "int \<Rightarrow> DWord \<Rightarrow> ram \<Rightarrow> ram" where
  "itohexa a b m =
     (if a = 0 then m(b := 48, b + 1 := 0)
      else case digit_loop 16 hex_digit a 0 b m of (i, m) \<Rightarrow>
        let m = reverse_loop 0 i b m in m(b + of_nat i := 0))"

subsection \<open>Strings\<close>

definition lower :: "Byte \<Rightarrow> Byte" where
  "lower c = (if sint c \<ge> 65 \<and> sint c \<le> 90 then c + (97 - 65) else c)"

partial_function (option) strlen_loop :: "ram \<Rightarrow> DWord \<Rightarrow> nat \<Rightarrow> nat option" where
  "strlen_loop m a i = (if m (a + of_nat i) \<noteq> 0 then strlen_loop m a (i + 1) else Some i)"

definition strlen :: "ram \<Rightarrow> DWord \<Rightarrow> nat option" where
  "strlen m a = strlen_loop m a 0"

partial_function (option) strcpy :: "DWord \<Rightarrow> DWord \<Rightarrow> ram \<Rightarrow> ram option" where
  "strcpy dest src m =
     (let c = m src; m' = m(dest := c)
      in if c \<noteq> 0 then strcpy (dest + 1) (src + 1) m' else Some m')"

partial_function (option) strcat_loop :: "DWord \<Rightarrow> DWord \<Rightarrow> ram \<Rightarrow> ram option" where
  "strcat_loop destPtr src m =
     (let c = m src; m' = m(destPtr := c)
      in if c \<noteq> 0 then strcat_loop (destPtr + 1) (src + 1) m' else Some m')"

definition strcat :: "DWord \<Rightarrow> DWord \<Rightarrow> ram \<Rightarrow> ram option" where
  "strcat dest src m = Option.bind (strlen m dest) (\<lambda>n. strcat_loop (dest + of_nat n) src m)"

subsection \<open>Pseudo-random numbers\<close>

text \<open>The generator's state \<^verbatim>\<open>lcg_seed\<close> is passed on; \<^verbatim>\<open>MODULUS\<close> is \<open>2 ^ 31\<close>.\<close>

definition srand :: "DWord \<Rightarrow> DWord" where
  "srand seed = seed"

definition rand :: "DWord \<Rightarrow> DWord \<times> DWord" where
  "rand lcg_seed = (let s = (1103515245 * lcg_seed + 12345) mod 2147483648 in (s, s))"

text \<open>The division by \<^verbatim>\<open>max - min + 1\<close> traps when that wraps to 0.\<close>

definition rand_range :: "DWord \<Rightarrow> DWord \<Rightarrow> DWord \<Rightarrow> (DWord \<times> DWord) option" where
  "rand_range mn mx lcg_seed =
     (case rand lcg_seed of (r, s) \<Rightarrow>
        if mx - mn + 1 = 0 then None else Some (mn + r mod (mx - mn + 1), s))"

subsection \<open>Error messages\<close>

text \<open>The text \<^verbatim>\<open>perror\<close> copies to its buffer of 256 bytes and writes to the console.\<close>

definition perror_text :: "int \<Rightarrow> string" where
  "perror_text errno =
     CHR 0x0A # (if errno = 0 then ''OK''
      else if errno = EBADF then ''EBADF: The file descriptor is not valid, are you dumb?''
      else if errno = EACCES then ''EACESS: You are not allowed to write this file you stupid''
      else if errno = EFAULT then ''EFAULT: Bad address accessed, quit playing''
      else if errno = EINVAL then ''EINVAL: invalid argument''
      else if errno = ENOSYS then ''ENOSYS: SuSCall not implemented (yet)''
      else if errno = ENOMEM then ''ENOMEM: Insufficient memory, download more ram''
      else if errno = ECHILD then ''ECHILD: We'' @ [CHR 0x27] @ ''re childless''
      else if errno = ENOCOLOR then ''ENOCOLOR: Trying to set an invalid color! (4-bit color scale)''
      else if errno = EOUTSCREEN then ''EOUTSCREEN: Trying to set an invalid position! (80 columns and 25 rows)''
      else if errno = ENOSHR then ''ENOSHR: Invalid shared page argument!''
      else ''Unknown error'') @ [CHR 0x0A]"

lemma perror_text_fits: "length (perror_text errno) < 256 \<and> CHR 0x00 \<notin> set (perror_text errno)"
  by (simp add: perror_text_def)

subsection \<open>Time\<close>

text \<open>\<^verbatim>\<open>TICKS_PER_MILISECOND\<close> is the integer quotient \<^verbatim>\<open>1000 / 400\<close>.\<close>

abbreviation (input) TICKS_PER_SECOND :: int where "TICKS_PER_SECOND \<equiv> 400"
abbreviation (input) TICKS_PER_MILISECOND :: int where "TICKS_PER_MILISECOND \<equiv> 2"

definition get_time_ms :: "int \<Rightarrow> DWord" where
  "get_time_ms ticks = word_of_int (ticks sdiv TICKS_PER_MILISECOND)"

definition get_time_s :: "int \<Rightarrow> DWord" where
  "get_time_s ticks = word_of_int (ticks sdiv TICKS_PER_SECOND)"

text \<open>\<^verbatim>\<open>sleep\<close> polls the clock: \<open>gettime n\<close> is what the \<open>n\<close>-th call returns. The result is the number
  of calls made.\<close>

partial_function (option) sleep_loop :: "(nat \<Rightarrow> int) \<Rightarrow> DWord \<Rightarrow> nat \<Rightarrow> nat option" where
  "sleep_loop gettime end_time n =
     (if (word_of_int (gettime n) :: DWord) < end_time then sleep_loop gettime end_time (n + 1) else Some (n + 1))"

definition sleep :: "(nat \<Rightarrow> int) \<Rightarrow> DWord \<Rightarrow> nat option" where
  "sleep gettime ms =
     (let start_time = word_of_int (gettime 0) :: DWord;
          end_time = start_time + ms div word_of_int TICKS_PER_MILISECOND
      in sleep_loop gettime end_time 1)"

definition measure_time_ms :: "int \<Rightarrow> int \<Rightarrow> DWord" where
  "measure_time_ms start_time end_time =
     (word_of_int end_time - word_of_int start_time) * word_of_int TICKS_PER_MILISECOND"

subsection \<open>Specification side\<close>

text \<open>The \<open>n\<close> bytes from \<open>b\<close> on, and the bytes of a terminated string.\<close>

definition bytes_at :: "ram \<Rightarrow> DWord \<Rightarrow> nat \<Rightarrow> Byte list" where
  "bytes_at m b n = map (\<lambda>j. m (b + of_nat j)) [0..<n]"

definition cstring :: "ram \<Rightarrow> DWord \<Rightarrow> Byte list \<Rightarrow> bool" where
  "cstring m b s \<longleftrightarrow> bytes_at m b (Suc (length s)) = s @ [0] \<and> 0 \<notin> set s"

definition same_outside :: "DWord \<Rightarrow> nat \<Rightarrow> ram \<Rightarrow> ram \<Rightarrow> bool" where
  "same_outside b n m m' \<longleftrightarrow> (\<forall>x. unat (x - b) \<ge> n \<longrightarrow> m' x = m x)"

text \<open>The numeral of a number, most significant digit first.\<close>

fun show_nat :: "nat \<Rightarrow> (int \<Rightarrow> Byte) \<Rightarrow> nat \<Rightarrow> Byte list" where
  "show_nat base dig n =
     (if n < base \<or> base \<le> 1 then [dig (int n)] else show_nat base dig (n div base) @ [dig (int (n mod base))])"

declare show_nat.simps [simp del]

definition read_dec :: "Byte list \<Rightarrow> int" where
  "read_dec s = foldl (\<lambda>acc c. 10 * acc + (uint c - 48)) 0 s"

subsection \<open>Memory slices\<close>

lemma length_bytes_at [simp]: "length (bytes_at m b n) = n"
  by (simp add: bytes_at_def)

lemma nth_bytes_at [simp]: "j < n \<Longrightarrow> bytes_at m b n ! j = m (b + of_nat j)"
  by (simp add: bytes_at_def)

lemma addr_eq: "i < 2 ^ 32 \<Longrightarrow> j < 2 ^ 32 \<Longrightarrow> (b::DWord) + of_nat i = b + of_nat j \<longleftrightarrow> i = j"
  using of_nat_DWord_inj by auto

lemma unat_offset: "i < 2 ^ 32 \<Longrightarrow> unat ((b::DWord) + of_nat i - b) = i"
  using unat_of_nat_DWord by simp

lemma outside_iff:
  assumes "n < 2 ^ 32"
  shows "n \<le> unat (x - b) \<longleftrightarrow> (\<forall>i<n. x \<noteq> (b::DWord) + of_nat i)"
proof
  assume "n \<le> unat (x - b)"
  then show "\<forall>i<n. x \<noteq> b + of_nat i" using assms unat_offset[of _ b] by fastforce
next
  assume h: "\<forall>i<n. x \<noteq> b + of_nat i"
  have "x = b + of_nat (unat (x - b))" by simp
  then show "n \<le> unat (x - b)" using h not_less by blast
qed

lemma same_outside_refl [simp]: "same_outside b n m m"
  by (simp add: same_outside_def)

lemma same_outside_trans:
  "same_outside b n m m1 \<Longrightarrow> same_outside b k m1 m2 \<Longrightarrow> n \<le> l \<Longrightarrow> k \<le> l \<Longrightarrow> same_outside b l m m2"
  by (simp add: same_outside_def)

lemma same_outside_upd: "i < n \<Longrightarrow> n < 2 ^ 32 \<Longrightarrow> same_outside b n m m' \<Longrightarrow> same_outside b n m (m'(b + of_nat i := v))"
  using unat_offset[of i b] by (auto simp: same_outside_def)

lemma bytes_at_upd_end:
  assumes "n < 2 ^ 32"
  shows "bytes_at (m(b + of_nat n := v)) b (Suc n) = bytes_at m b n @ [v]"
  using addr_eq[OF _ assms, of _ b] assms by (simp add: bytes_at_def)

subsection \<open>The digit loop\<close>

lemma show_nat_pos:
  assumes "1 < base" "0 < n"
  shows "show_nat base dig n = (if n div base = 0 then [] else show_nat base dig (n div base)) @ [dig (int (n mod base))]"
  using assms by (subst show_nat.simps) (auto simp: div_eq_0_iff not_less)

lemma digit_loop_result:
  assumes "1 < base" "i + length (show_nat base dig n) < 2 ^ 32" "0 < n"
  shows "\<exists>m'. digit_loop (int base) dig (int n) i b m = (i + length (show_nat base dig n), m') \<and>
    bytes_at m' b (i + length (show_nat base dig n)) = bytes_at m b i @ rev (show_nat base dig n) \<and>
    same_outside b (i + length (show_nat base dig n)) m m'"
  using assms(2,3)
proof (induction n arbitrary: i m rule: less_induct)
  case (less n)
  let ?m = "m(b + of_nat i := dig (int (n mod base)))"
  have st: "digit_loop (int base) dig (int n) i b m = digit_loop (int base) dig (int (n div base)) (i + 1) b ?m"
    using less.prems(2) assms(1)
    by (subst digit_loop.simps) (simp add: sdiv_nonneg smod_nonneg zdiv_int zmod_int)
  note sh = show_nat_pos[OF assms(1) less.prems(2), of dig]
  have i: "i < 2 ^ 32" using less.prems(1) by simp
  have sl: "bytes_at ?m b (Suc i) = bytes_at m b i @ [dig (int (n mod base))]" by (rule bytes_at_upd_end[OF i])
  show ?case
  proof (cases "n div base = 0")
    case True
    have "digit_loop (int base) dig 0 (i + 1) b ?m = (i + 1, ?m)" by (subst digit_loop.simps) simp
    then have "digit_loop (int base) dig (int n) i b m = (i + 1, ?m)" using st True by simp
    moreover have "same_outside b (Suc i) m ?m"
      using less.prems(1) sh True by (intro same_outside_upd) simp_all
    ultimately show ?thesis using sh sl True by simp
  next
    case False
    let ?d = "show_nat base dig (n div base)"
    have l: "(i + 1) + length ?d < 2 ^ 32" using less.prems(1) sh False by simp
    have lt: "n div base < n" and pos: "0 < n div base" using less.prems(2) assms(1) False by simp_all
    obtain m' where m': "digit_loop (int base) dig (int (n div base)) (i + 1) b ?m = (i + 1 + length ?d, m')"
        "bytes_at m' b (i + 1 + length ?d) = bytes_at ?m b (i + 1) @ rev ?d" "same_outside b (i + 1 + length ?d) ?m m'"
      using less.IH[OF lt l pos, of ?m] by blast
    have "same_outside b (i + 1 + length ?d) m ?m"
      by (rule same_outside_upd) (use l in simp_all)
    then have "same_outside b (i + 1 + length ?d) m m'" using m'(3) by (rule same_outside_trans) simp_all
    then show ?thesis using st m'(1,2) sl sh False by (intro exI[of _ m']) simp
  qed
qed

subsection \<open>The reversal\<close>

lemma reverse_loop_result:
  assumes n: "n < 2 ^ 32" and k: "k \<le> n div 2"
  shows "(\<forall>j<n. reverse_loop k n b m (b + of_nat j) =
      (if k \<le> j \<and> j < n - k then m (b + of_nat (n - 1 - j)) else m (b + of_nat j))) \<and>
    same_outside b n m (reverse_loop k n b m)"
  using k
proof (induction "n div 2 - k" arbitrary: k m)
  case 0
  then have k: "k = n div 2" by simp
  have "j = n - 1 - j" if "n div 2 \<le> j" "j < n - n div 2" for j using that by linarith
  then show ?case using k by (subst reverse_loop.simps) (auto simp: reverse_loop.simps[of "n div 2"])
next
  case (Suc d)
  then have kn: "k < n div 2" "k < n" "n - k - 1 < n" "k \<noteq> n - k - 1" by linarith+
  let ?m = "m(b + of_nat k := m (b + of_nat (n - k - 1)), b + of_nat (n - k - 1) := m (b + of_nat k))"
  have st: "reverse_loop k n b m = reverse_loop (Suc k) n b ?m"
    using kn(1) by (subst reverse_loop.simps) (simp add: Let_def)
  have IH: "(\<forall>j<n. reverse_loop (Suc k) n b ?m (b + of_nat j) =
      (if Suc k \<le> j \<and> j < n - Suc k then ?m (b + of_nat (n - 1 - j)) else ?m (b + of_nat j))) \<and>
      same_outside b n ?m (reverse_loop (Suc k) n b ?m)"
    by (rule Suc.hyps(1)) (use Suc.hyps(2) kn(1) in auto)
  have ad: "?m (b + of_nat j) = (if j = k then m (b + of_nat (n - k - 1)) else
      if j = n - k - 1 then m (b + of_nat k) else m (b + of_nat j))" if "j < n" for j
    using addr_eq[of j k b] addr_eq[of j "n - k - 1" b] that kn n by auto
  have "same_outside b n m ?m" by (intro same_outside_upd same_outside_refl) (use kn n in auto)
  then have so: "same_outside b n m (reverse_loop (Suc k) n b ?m)" using IH by (auto intro: same_outside_trans)
  have "reverse_loop (Suc k) n b ?m (b + of_nat j) =
      (if k \<le> j \<and> j < n - k then m (b + of_nat (n - 1 - j)) else m (b + of_nat j))" if j: "j < n" for j
  proof -
    note I = IH[THEN conjunct1, rule_format, OF j]
    consider "Suc k \<le> j \<and> j < n - Suc k" | "j = k" | "j = n - k - 1" "j \<noteq> k"
      | "j < k \<or> n - k \<le> j" "j \<noteq> k" "j \<noteq> n - k - 1" by linarith
    then show ?thesis
    proof cases
      case 1
      then have e: "n - 1 - j \<noteq> k" "n - 1 - j \<noteq> n - k - 1" "n - 1 - j < n" "k \<le> j \<and> j < n - k" by linarith+
      show ?thesis unfolding I ad[OF e(3)] using 1 e by (simp only: if_True if_False simp_thms)
    next
      case 2
      then have e: "\<not> (Suc k \<le> j \<and> j < n - Suc k)" "k \<le> j \<and> j < n - k" "n - 1 - j = n - k - 1" using kn by auto
      show ?thesis unfolding I ad[OF j] using 2 e by (simp only: if_True if_False simp_thms)
    next
      case 3
      then have e: "\<not> (Suc k \<le> j \<and> j < n - Suc k)" "k \<le> j \<and> j < n - k" "n - 1 - j = k" using kn by auto
      show ?thesis unfolding I ad[OF j] e(3) using 3 e(1,2) by (simp only: if_True if_False simp_thms)
    next
      case 4
      then have e: "\<not> (Suc k \<le> j \<and> j < n - Suc k)" "\<not> (k \<le> j \<and> j < n - k)" by auto
      show ?thesis unfolding I ad[OF j] using 4 e by (simp only: if_True if_False simp_thms)
    qed
  qed
  then show ?case using st so by simp
qed

lemma reverse_loop_slice:
  assumes "n < 2 ^ 32"
  shows "bytes_at (reverse_loop 0 n b m) b n = rev (bytes_at m b n)" "same_outside b n m (reverse_loop 0 n b m)"
  using reverse_loop_result[OF assms, of 0 b m] by (auto intro!: nth_equalityI simp: rev_nth)

subsection \<open>Numerals\<close>

lemma show_nat_length: "1 < base \<Longrightarrow> n < base ^ Suc k \<Longrightarrow> length (show_nat base dig n) \<le> Suc k"
proof (induction k arbitrary: n)
  case 0
  then show ?case by (subst show_nat.simps) simp
next
  case (Suc k)
  have "n div base < base ^ Suc k" using Suc.prems by (simp add: less_mult_imp_div_less mult.commute)
  from Suc.IH[OF Suc.prems(1) this] show ?case by (subst show_nat.simps) simp
qed

lemma show_nat_set:
  assumes "1 < base"
  shows "set (show_nat base dig n) \<subseteq> dig ` {0..<int base}"
proof (induction n rule: less_induct)
  case (less n)
  then show ?case using assms by (subst show_nat.simps) (auto intro!: imageI simp: zmod_int)
qed

lemma dec_digit_uint: "0 \<le> r \<Longrightarrow> r < 10 \<Longrightarrow> uint (dec_digit r) = r + 48"
  unfolding dec_digit_def uint_word_of_int_eq by (simp add: take_bit_int_eq_self)

lemma digits_nonzero:
  "r \<in> {0..<10} \<Longrightarrow> dec_digit r \<noteq> 0" "r \<in> {0..<16} \<Longrightarrow> hex_digit r \<noteq> 0"
proof -
  show "dec_digit r \<noteq> 0" if "r \<in> {0..<10}"
    using dec_digit_uint[of r] that by (metis atLeastLessThan_iff add.commute add_nonneg_eq_0_iff uint_0_eq zero_le_numeral zero_neq_numeral)
  show "hex_digit r \<noteq> 0" if r: "r \<in> {0..<16}"
  proof -
    have "\<exists>v. 0 < v \<and> v < 256 \<and> hex_digit r = word_of_int v"
      using r by (cases "r < 10") (auto simp: hex_digit_def intro: exI[of _ "48 + r"] exI[of _ "65 + r - 10"])
    then obtain v where v: "0 < v" "v < 256" "hex_digit r = word_of_int v" by blast
    have "uint (word_of_int v :: Byte) = v" using v(1,2) by (simp add: uint_word_of_int_eq take_bit_int_eq_self)
    then show ?thesis using v(1,3) by force
  qed
qed

lemma read_dec_show: "read_dec (show_nat 10 dec_digit n) = int n"
proof (induction n rule: less_induct)
  case (less n)
  show ?case
  proof (cases "n < 10")
    case True
    then show ?thesis using dec_digit_uint[of "int n"] by (subst show_nat.simps) (simp add: read_dec_def)
  next
    case False
    have "read_dec (show_nat 10 dec_digit (n div 10)) = int (n div 10)" by (rule less.IH) (use False in simp)
    moreover have "uint (dec_digit (int (n mod 10))) = int (n mod 10) + 48" by (rule dec_digit_uint) simp_all
    moreover have "10 * int (n div 10) + int (n mod 10) = int n"
      by (metis mult_div_mod_eq of_nat_add of_nat_mult of_nat_numeral)
    ultimately show ?thesis using False by (subst show_nat.simps) (simp add: read_dec_def)
  qed
qed

lemma number_string:
  fixes base n :: nat
  assumes "1 < base" "0 < n" "length (show_nat base dig n) \<le> 100"
  defines "s \<equiv> show_nat base dig n"
  shows "\<exists>m' i. digit_loop (int base) dig (int n) 0 b m = (i, m') \<and>
    bytes_at ((reverse_loop 0 i b m')(b + of_nat i := 0)) b (Suc (length s)) = s @ [0] \<and>
    same_outside b (Suc (length s)) m ((reverse_loop 0 i b m')(b + of_nat i := 0))"
proof -
  have l: "length s < 2 ^ 32" using assms by simp
  obtain m' where m': "digit_loop (int base) dig (int n) 0 b m = (length s, m')"
      "bytes_at m' b (length s) = rev s" "same_outside b (length s) m m'"
    using digit_loop_result[OF assms(1) _ assms(2), of 0 dig b m] l by (auto simp: s_def bytes_at_def)
  note r = reverse_loop_slice[OF l, of b m']
  have "bytes_at ((reverse_loop 0 (length s) b m')(b + of_nat (length s) := 0)) b (Suc (length s)) = s @ [0]"
    unfolding bytes_at_upd_end[OF l] r(1) m'(2) by simp
  moreover have "same_outside b (Suc (length s)) m ((reverse_loop 0 (length s) b m')(b + of_nat (length s) := 0))"
    using assms(3) by (intro same_outside_upd same_outside_trans[OF m'(3) r(2)]) (simp_all add: s_def)
  ultimately show ?thesis using m'(1) by blast
qed

text \<open>The common body of \<^verbatim>\<open>itodeca\<close> and \<^verbatim>\<open>itohexa\<close>.\<close>

definition itoa :: "nat \<Rightarrow> (int \<Rightarrow> Byte) \<Rightarrow> int \<Rightarrow> DWord \<Rightarrow> ram \<Rightarrow> ram" where
  "itoa base dig a b m =
     (if a = 0 then m(b := 48, b + 1 := 0)
      else case digit_loop (int base) dig a 0 b m of (i, m) \<Rightarrow> (reverse_loop 0 i b m)(b + of_nat i := 0))"

lemma itoa_simps: "itodeca = itoa 10 dec_digit" "itohexa = itoa 16 hex_digit"
  by (simp_all add: itodeca_def itohexa_def itoa_def Let_def fun_eq_iff)

lemma itoa_negative: "a < 0 \<Longrightarrow> itoa base dig a b m = m(b := 0)"
  by (simp add: itoa_def digit_loop.simps reverse_loop.simps)

lemma itoa_string:
  assumes b: "1 < base" "dig 0 = 48" and l: "length (show_nat base dig (nat a)) \<le> 100" and a: "0 \<le> a"
  defines "s \<equiv> show_nat base dig (nat a)"
  shows "bytes_at (itoa base dig a b m) b (Suc (length s)) = s @ [0] \<and>
    same_outside b (Suc (length s)) m (itoa base dig a b m)"
proof (cases "a = 0")
  case True
  then have s: "s = [48]" using b by (simp add: s_def show_nat.simps)
  have "same_outside b 2 m (m(b + of_nat 0 := 48, b + of_nat 1 := 0))"
    by (intro same_outside_upd same_outside_refl) simp_all
  then show ?thesis using True s by (simp add: itoa_def bytes_at_def numeral_2_eq_2)
next
  case False
  have n: "0 < nat a" "int (nat a) = a" using False a by simp_all
  obtain m' i where "digit_loop (int base) dig (int (nat a)) 0 b m = (i, m')"
      "bytes_at ((reverse_loop 0 i b m')(b + of_nat i := 0)) b (Suc (length s)) = s @ [0]"
      "same_outside b (Suc (length s)) m ((reverse_loop 0 i b m')(b + of_nat i := 0))"
    using number_string[OF b(1) n(1) l, of b m] unfolding s_def by blast
  then show ?thesis using False n(2) by (simp add: itoa_def)
qed

lemma same_outside_mono: "same_outside b n m m' \<Longrightarrow> n \<le> k \<Longrightarrow> same_outside b k m m'"
  by (simp add: same_outside_def)

lemma itodeca_string:
  assumes "0 \<le> a" "a < 10 ^ 10"
  shows "cstring (itodeca a b m) b (show_nat 10 dec_digit (nat a))" "length (show_nat 10 dec_digit (nat a)) \<le> 10"
    "same_outside b 11 m (itodeca a b m)"
proof -
  show len: "length (show_nat 10 dec_digit (nat a)) \<le> 10" using show_nat_length[of 10 "nat a" 9] assms(2) by simp
  have "0 \<notin> set (show_nat 10 dec_digit (nat a))"
    using show_nat_set[of 10 dec_digit "nat a"] digits_nonzero(1) by (force simp: image_iff)
  moreover have r: "bytes_at (itodeca a b m) b (Suc (length (show_nat 10 dec_digit (nat a)))) = show_nat 10 dec_digit (nat a) @ [0] \<and>
      same_outside b (Suc (length (show_nat 10 dec_digit (nat a)))) m (itodeca a b m)"
    unfolding itoa_simps by (rule itoa_string) (use len assms in \<open>simp_all add: dec_digit_def\<close>)
  ultimately show "cstring (itodeca a b m) b (show_nat 10 dec_digit (nat a))" by (simp add: cstring_def)
  show "same_outside b 11 m (itodeca a b m)" using r len by (auto intro: same_outside_mono)
qed

lemma itohexa_string:
  assumes "0 \<le> a" "a < 16 ^ 8"
  shows "cstring (itohexa a b m) b (show_nat 16 hex_digit (nat a))" "length (show_nat 16 hex_digit (nat a)) \<le> 8"
    "same_outside b 9 m (itohexa a b m)"
proof -
  show len: "length (show_nat 16 hex_digit (nat a)) \<le> 8" using show_nat_length[of 16 "nat a" 7] assms(2) by simp
  have "0 \<notin> set (show_nat 16 hex_digit (nat a))"
    using show_nat_set[of 16 hex_digit "nat a"] digits_nonzero(2) by (force simp: image_iff)
  moreover have r: "bytes_at (itohexa a b m) b (Suc (length (show_nat 16 hex_digit (nat a)))) = show_nat 16 hex_digit (nat a) @ [0] \<and>
      same_outside b (Suc (length (show_nat 16 hex_digit (nat a)))) m (itohexa a b m)"
    unfolding itoa_simps by (rule itoa_string) (use len assms in \<open>simp_all add: hex_digit_def\<close>)
  ultimately show "cstring (itohexa a b m) b (show_nat 16 hex_digit (nat a))" by (simp add: cstring_def)
  show "same_outside b 9 m (itohexa a b m)" using r len by (auto intro: same_outside_mono)
qed

subsection \<open>Strings\<close>

lemma cstring_nth:
  assumes "cstring m a s" "i \<le> length s"
  shows "m (a + of_nat i) = (s @ [0]) ! i"
proof -
  have "m (a + of_nat i) = bytes_at m a (Suc (length s)) ! i" using assms(2) by simp
  then show ?thesis using assms(1) by (simp only: cstring_def)
qed

lemma strlen_cstring:
  assumes "cstring m a s" "i \<le> length s"
  shows "strlen_loop m a i = Some (length s)"
  using assms(2)
proof (induction "length s - i" arbitrary: i)
  case 0
  then have "i = length s" by simp
  then show ?case using cstring_nth[OF assms(1), of i] by (simp add: strlen_loop.simps)
next
  case (Suc d)
  then have i: "i < length s" by simp
  then have "m (a + of_nat i) \<noteq> 0" using cstring_nth[OF assms(1), of i] assms(1) by (auto simp: nth_append cstring_def dest!: nth_mem)
  then show ?case using Suc i by (subst strlen_loop.simps) simp
qed

text \<open>The loop of \<^verbatim>\<open>strcat\<close> is the loop of \<^verbatim>\<open>strcpy\<close> once more.\<close>

lemma strcat_loop_eq: "strcat_loop destPtr src m = strcpy destPtr src m"
proof -
  have a: "strcat_loop destPtr src m = Some r" if "strcpy destPtr src m = Some r" for r
    by (rule strcpy.raw_induct[OF _ that, of "\<lambda>d s m r. strcat_loop d s m = Some r"])
      (subst strcat_loop.simps, force simp: Let_def split: if_splits)
  have b: "strcpy destPtr src m = Some r" if "strcat_loop destPtr src m = Some r" for r
    by (rule strcat_loop.raw_induct[OF _ that, of "\<lambda>d s m r. strcpy d s m = Some r"])
      (subst strcpy.simps, force simp: Let_def split: if_splits)
  show ?thesis using a b by (metis not_None_eq)
qed

text \<open>Where the copy goes: the destination bytes must not hit the part of the source still to be read.\<close>

lemma strcpy_copies:
  assumes "cstring m src s" "length s < 2 ^ 31"
    and "\<And>i j. i \<le> length s \<Longrightarrow> j \<le> length s \<Longrightarrow> dest + of_nat i \<noteq> src + of_nat j"
  shows "\<exists>m'. strcpy dest src m = Some m' \<and> bytes_at m' dest (Suc (length s)) = s @ [0] \<and>
    same_outside dest (Suc (length s)) m m'"
  using assms
proof (induction s arbitrary: dest src m)
  case Nil
  then have "m src = 0" using cstring_nth[of m src "[]" 0] by simp
  then have "strcpy dest src m = Some (m(dest := 0))" by (simp add: strcpy.simps Let_def)
  moreover have "same_outside dest 1 m (m(dest + of_nat 0 := 0))" by (rule same_outside_upd) simp_all
  ultimately show ?case by (simp add: bytes_at_def)
next
  case (Cons c s)
  have n: "m (src + of_nat i) = (c # s @ [0]) ! i" if "i \<le> Suc (length s)" for i
    using cstring_nth[OF Cons.prems(1)] that by simp
  have c: "m src = c" "c \<noteq> 0" using n[of 0] Cons.prems(1) by (auto simp: cstring_def)
  let ?m = "m(dest := c)"
  have d: "dest \<noteq> src + of_nat j" if "j \<le> Suc (length s)" for j using Cons.prems(3)[of 0 j] that by simp
  have keep: "?m (src + 1 + of_nat j) = (s @ [0]) ! j" if "j \<le> length s" for j
    using n[of "Suc j"] d[of "Suc j"] that by (simp add: add.assoc)
  have "bytes_at ?m (src + 1) (Suc (length s)) = s @ [0]" by (rule nth_equalityI) (use keep in auto)
  then have cs: "cstring ?m (src + 1) s" using Cons.prems(1) by (simp add: cstring_def)
  have dis: "dest + 1 + of_nat i \<noteq> src + 1 + of_nat j" if "i \<le> length s" "j \<le> length s" for i j
    using Cons.prems(3)[of "Suc i" "Suc j"] that by (simp add: add.assoc)
  have l: "length s < 2 ^ 31" using Cons.prems(2) by simp
  obtain m' where m': "strcpy (dest + 1) (src + 1) ?m = Some m'" "bytes_at m' (dest + 1) (Suc (length s)) = s @ [0]"
      "same_outside (dest + 1) (Suc (length s)) ?m m'"
    using Cons.IH[OF cs l dis] by blast
  have far: "unat (x - (dest + 1)) \<ge> Suc (length s)" if x: "unat (x - dest) \<ge> Suc (Suc (length s)) \<or> x = dest" for x
  proof -
    have "x \<noteq> dest + 1 + of_nat i" if i: "i < Suc (length s)" for i
    proof
      assume e: "x = dest + 1 + of_nat i"
      then have e': "x = dest + of_nat (Suc i)" by simp
      have u: "unat (x - dest) = Suc i" unfolding e' by (rule unat_offset) (use i l in simp)
      then show False using x i by auto
    qed
    then show ?thesis using l by (subst outside_iff) auto
  qed
  have "m' dest = c" using m'(3) far[of dest] by (simp add: same_outside_def)
  moreover have "m' x = m x" if "unat (x - dest) \<ge> Suc (Suc (length s))" for x
    using m'(3) far[of x] that by (auto simp: same_outside_def)
  moreover have "bytes_at m' dest (Suc (Suc (length s))) = m' dest # bytes_at m' (dest + 1) (Suc (length s))"
    by (rule nth_equalityI) (auto simp: nth_Cons add.assoc split: nat.split)
  ultimately show ?case using m'(1,2) c by (subst strcpy.simps) (auto simp: Let_def same_outside_def)
qed

text \<open>A string outside of the bytes that are written stays.\<close>

lemma cstring_kept:
  assumes "cstring m src s" "same_outside dest n m m'" "n < 2 ^ 32" "\<forall>i<n. \<forall>j\<le>length s. dest + of_nat i \<noteq> src + of_nat j"
  shows "cstring m' src s"
proof -
  have "m' (src + of_nat j) = m (src + of_nat j)" if "j \<le> length s" for j
  proof -
    have "\<forall>i<n. src + of_nat j \<noteq> dest + of_nat i" using assms(4) that by (metis (no_types))
    then show ?thesis using assms(2,3) outside_iff[of n "src + of_nat j" dest] by (simp add: same_outside_def)
  qed
  then have "bytes_at m' src (Suc (length s)) = bytes_at m src (Suc (length s))" by (simp add: bytes_at_def less_Suc_eq_le)
  then show ?thesis using assms(1) by (simp add: cstring_def)
qed

lemma strcat_result:
  assumes "cstring m dest d" "cstring m src s" "length d + length s < 2 ^ 31"
    and "\<forall>i \<le> length d + length s. \<forall>j \<le> length s. dest + of_nat i \<noteq> src + of_nat j"
  shows "\<exists>m'. strcat dest src m = Some m' \<and> cstring m' dest (d @ s) \<and> same_outside dest (Suc (length d + length s)) m m'"
proof -
  have l: "strlen m dest = Some (length d)" using strlen_cstring[OF assms(1)] by (simp add: strlen_def)
  have dis: "dest + of_nat (length d) + of_nat i \<noteq> src + of_nat j" if "i \<le> length s" "j \<le> length s" for i j
    using assms(4)[rule_format, of "length d + i" j] that by (simp add: add.assoc)
  have ls: "length s < 2 ^ 31" using assms(3) by simp
  obtain m' where m': "strcpy (dest + of_nat (length d)) src m = Some m'"
      "bytes_at m' (dest + of_nat (length d)) (Suc (length s)) = s @ [0]"
      "same_outside (dest + of_nat (length d)) (Suc (length s)) m m'"
    using strcpy_copies[OF assms(2) ls dis] by blast
  have keep: "m' x = m x" if "\<forall>i\<le>length s. x \<noteq> dest + of_nat (length d) + of_nat i" for x
    using m'(3) ls that outside_iff[of "Suc (length s)" x "dest + of_nat (length d)"]
    by (simp add: same_outside_def less_Suc_eq_le)
  have near: "m' (dest + of_nat j) = m (dest + of_nat j)" if j: "j < length d" for j
  proof (rule keep, intro allI impI)
    fix i assume "i \<le> length s"
    then show "dest + of_nat j \<noteq> dest + of_nat (length d) + of_nat i"
      using addr_eq[of j "length d + i" dest] j assms(3) by (simp add: add.assoc)
  qed
  have "bytes_at m' dest (Suc (length (d @ s))) = (d @ s) @ [0]"
  proof (rule nth_equalityI)
    fix j assume j: "j < length (bytes_at m' dest (Suc (length (d @ s))))"
    show "bytes_at m' dest (Suc (length (d @ s))) ! j = ((d @ s) @ [0]) ! j"
    proof (cases "j < length d")
      case True
      then show ?thesis using near[OF True] cstring_nth[OF assms(1), of j] by (simp add: nth_append)
    next
      case False
      then obtain i where i: "j = length d + i" using le_Suc_ex not_less by blast
      then have b: "i < Suc (length s)" using j by simp
      have "m' (dest + of_nat j) = bytes_at m' (dest + of_nat (length d)) (Suc (length s)) ! i"
        using b i by (simp add: add.assoc)
      then show ?thesis using j i unfolding m'(2) by (simp add: nth_append)
    qed
  qed simp
  then have "cstring m' dest (d @ s)" using assms(1,2) by (simp add: cstring_def)
  moreover have "same_outside dest (Suc (length d + length s)) m m'"
    unfolding same_outside_def
  proof (intro allI impI keep)
    fix x i assume x: "Suc (length d + length s) \<le> unat (x - dest)" and i: "i \<le> length s"
    have "\<forall>j<Suc (length d + length s). x \<noteq> dest + of_nat j" using x assms(3) by (subst (asm) outside_iff) auto
    from this[rule_format, of "length d + i"] show "x \<noteq> dest + of_nat (length d) + of_nat i"
      using i by (simp add: add.assoc)
  qed
  ultimately show ?thesis using l m'(1) by (simp add: strcat_def strcat_loop_eq)
qed

subsection \<open>The generator\<close>

text \<open>A linear congruential generator modulo a power of two, with a multiplier that is 1 modulo 4 and an
  odd increment, has the full period: from every state it reaches every other.\<close>

locale lcg =
  fixes step :: "nat \<Rightarrow> nat" and nxt :: "int \<Rightarrow> int" and a c :: int and w :: nat
  assumes step: "int (step x) = nxt (int x) mod 2 ^ w"
      and nxt: "nxt y = a * y + c"
      and a_mod_4: "4 dvd a - 1"
      and c_odd: "odd c"
begin

lemma doubling:
  "\<exists>A q. (\<forall>x. (nxt ^^ (2 ^ k)) x = A * x + 2 ^ k * q) \<and> 2 ^ (k + 2) dvd A - 1 \<and> odd q"
proof (induction k)
  case 0
  show ?case
    by (rule exI[of _ a], rule exI[of _ c]) (use a_mod_4 c_odd in \<open>simp add: nxt\<close>)
next
  case (Suc k)
  then obtain A q where f: "\<And>x. (nxt ^^ (2 ^ k)) x = A * x + 2 ^ k * q"
    and A: "2 ^ (k + 2) dvd A - 1" and q: "odd q" by blast
  from A obtain m where m: "A = 1 + 2 ^ (k + 2) * m" by (metis add_diff_cancel_left' diff_add_cancel dvdE add.commute)
  let ?q = "q * (1 + 2 ^ (k + 1) * m)"
  have "(nxt ^^ (2 ^ Suc k)) x = (A * A) * x + 2 ^ Suc k * ?q" for x
  proof -
    have "(nxt ^^ (2 ^ Suc k)) x = (nxt ^^ (2 ^ k)) ((nxt ^^ (2 ^ k)) x)"
      by (simp add: funpow_add mult_2)
    also have "\<dots> = A * (A * x + 2 ^ k * q) + 2 ^ k * q" by (simp only: f)
    also have "\<dots> = (A * A) * x + 2 ^ k * q * (A + 1)" by (simp add: algebra_simps)
    also have "A + 1 = 2 * (1 + 2 ^ (k + 1) * m)" by (simp add: m)
    finally show ?thesis by (simp add: mult.assoc mult.left_commute)
  qed
  moreover have "2 ^ (Suc k + 2) dvd A * A - 1"
  proof -
    have "A * A - 1 = (A - 1) * (A + 1)" by (simp add: algebra_simps)
    moreover have "2 dvd A + 1" by (simp add: m)
    ultimately show ?thesis using mult_dvd_mono[OF A, of 2 "A + 1"] by (simp only: power_add) (simp add: mult.commute)
  qed
  moreover have "odd ?q" using q by simp
  ultimately show ?case by blast
qed

lemma reaches_every_residue: "\<exists>n. 2 ^ k dvd (nxt ^^ n) x - t"
proof (induction k)
  case 0
  show ?case by simp
next
  case (Suc k)
  then obtain n r where r: "(nxt ^^ n) x = t + 2 ^ k * r" by (metis add.commute diff_add_cancel dvdE)
  show ?case
  proof (cases "even r")
    case True
    then have "2 ^ Suc k dvd (nxt ^^ n) x - t" by (auto simp: r elim!: evenE)
    then show ?thesis ..
  next
    case False
    obtain A q where f: "\<And>y. (nxt ^^ (2 ^ k)) y = A * y + 2 ^ k * q"
      and A: "2 ^ (k + 2) dvd A - 1" and q: "odd q" using doubling by blast
    from A obtain m where m: "A - 1 = 2 ^ (k + 2) * m" by (elim dvdE)
    have "(nxt ^^ (2 ^ k + n)) x - t = (A - 1) * (nxt ^^ n) x + 2 ^ k * (r + q)"
      by (simp only: funpow_add comp_def f) (simp add: r algebra_simps)
    also have "2 ^ Suc k dvd \<dots>"
      using False q by (intro dvd_add) (auto simp: m mult.assoc power_add elim!: oddE)
    finally show ?thesis by blast
  qed
qed

lemma step_funpow: "int ((step ^^ n) x) mod 2 ^ w = (nxt ^^ n) (int x) mod 2 ^ w"
proof (induction n)
  case (Suc n)
  have "int ((step ^^ Suc n) x) mod 2 ^ w = nxt (int ((step ^^ n) x)) mod 2 ^ w"
    by (simp add: step)
  also have "\<dots> = nxt ((nxt ^^ n) (int x)) mod 2 ^ w"
    by (subst (1 2) nxt) (intro mod_add_cong mod_mult_cong Suc refl)
  finally show ?case by simp
qed simp

lemma step_bound: "step x < 2 ^ w"
proof -
  have "int (step x) < 2 ^ w" by (simp add: step)
  then show ?thesis by (simp flip: of_nat_less_iff)
qed

theorem reaches_every_value:
  assumes "t < 2 ^ w"
  shows "\<exists>n. (step ^^ Suc n) x = t"
proof -
  obtain n where "2 ^ w dvd (nxt ^^ n) (int (step x)) - int t" using reaches_every_residue by blast
  then have "(nxt ^^ n) (int (step x)) mod 2 ^ w = int t mod 2 ^ w" by (simp add: mod_eq_dvd_iff)
  then have eq: "int ((step ^^ Suc n) x) mod 2 ^ w = int t mod 2 ^ w"
    using step_funpow[of n "step x"] by (simp add: funpow_swap1)
  have "int ((step ^^ Suc n) x) < 2 ^ w" "int t < 2 ^ w"
    using step_bound[of "(step ^^ n) x"] assms by (simp_all flip: of_nat_less_iff)
  then have "(step ^^ Suc n) x = t" using eq by (simp del: funpow.simps)
  then show ?thesis ..
qed

end

lemma rand_unat: "unat (fst (rand s)) = (1103515245 * unat s + 12345) mod 2 ^ 31"
proof -
  have "unat (1103515245 * s + 12345) = (1103515245 * unat s + 12345) mod 2 ^ 32"
    by (simp add: unat_word_ariths mod_simps)
  moreover have "x mod 2 ^ 32 mod 2 ^ 31 = x mod (2 ^ 31 :: nat)" for x
    by (rule mod_mod_cancel) (simp add: le_imp_power_dvd)
  ultimately show ?thesis by (simp add: rand_def Let_def unat_mod)
qed

interpretation lcg_rand: lcg "\<lambda>s. unat (fst (rand (of_nat s)))" "\<lambda>x. 1103515245 * x + 12345" 1103515245 12345 31
proof
  fix x
  have "unat (fst (rand (of_nat x))) = (1103515245 * x + 12345) mod 2 ^ 31"
  proof -
    have "(1103515245 * (x mod 2 ^ 32) + 12345) mod 2 ^ 31 = (1103515245 * (x mod 2 ^ 32 mod 2 ^ 31) + 12345) mod 2 ^ 31"
      by (metis mod_add_left_eq mod_mult_right_eq)
    also have "x mod 2 ^ 32 mod 2 ^ 31 = x mod 2 ^ 31"
      by (rule mod_mod_cancel) (simp add: le_imp_power_dvd)
    finally show ?thesis unfolding rand_unat by (simp add: unat_of_nat) (metis mod_add_left_eq mod_mult_right_eq)
  qed
  then show "int (unat (fst (rand (of_nat x)))) = (1103515245 * int x + 12345) mod 2 ^ 31"
    by (simp only: zmod_int of_nat_power of_nat_numeral of_nat_add of_nat_mult)
qed simp_all

lemma rand_reaches:
  assumes "unat t < 2 ^ 31"
  shows "\<exists>n. ((fst \<circ> rand) ^^ Suc n) s = t"
proof -
  have "((\<lambda>s. unat (fst (rand (of_nat s)))) ^^ n) (unat s) = unat (((fst \<circ> rand) ^^ n) s)" for n
    by (induction n) simp_all
  then show ?thesis using lcg_rand.reaches_every_value[OF assms, of "unat s"] by (metis unsigned_word_eqI)
qed

lemma rand_same_seed: "snd (rand s) = fst (rand s)"
  by (simp add: rand_def Let_def)

lemma rand_inj:
  assumes "fst (rand s) = fst (rand t)" "unat s < 2 ^ 31" "unat t < 2 ^ 31"
  shows "s = t"
proof -
  have "(1103515245 * unat s + 12345) mod 2 ^ 31 = (1103515245 * unat t + 12345) mod 2 ^ 31"
    using arg_cong[OF assms(1), of unat] unfolding rand_unat .
  from arg_cong[OF this, of int]
  have "int (1103515245 * unat s + 12345) mod 2 ^ 31 = int (1103515245 * unat t + 12345) mod 2 ^ 31"
    by (simp only: zmod_int of_nat_power of_nat_numeral)
  then have "2 ^ 31 dvd int (1103515245 * unat s + 12345) - int (1103515245 * unat t + 12345)"
    by (simp only: mod_eq_dvd_iff)
  then have "2 ^ 31 dvd 1103515245 * (int (unat s) - int (unat t))" by (simp add: algebra_simps)
  moreover have "coprime (2 ^ 31) (1103515245::int)"
    by (simp only: coprime_power_left_iff coprime_left_2_iff_odd) simp
  ultimately have "2 ^ 31 dvd int (unat s) - int (unat t)" by (simp only: coprime_dvd_mult_right_iff)
  moreover have "\<bar>int (unat s) - int (unat t)\<bar> < 2 ^ 31"
  proof -
    have "unat s < 2147483648" "unat t < 2147483648" using assms(2,3) by simp_all
    then have "\<bar>int (unat s) - int (unat t)\<bar> < 2147483648" by linarith
    then show ?thesis by simp
  qed
  ultimately have "int (unat s) - int (unat t) = 0"
    by (meson dvd_imp_le_int not_less abs_le_iff zdvd_not_zless zero_less_abs_iff dvd_abs_iff)
  then show ?thesis by (simp add: word_uint_eq_iff)
qed

subsection \<open>Properties\<close>

text \<open>C22: \<^verbatim>\<open>itodeca\<close> prints every non-negative \<^verbatim>\<open>int\<close> as its decimal numeral, terminated by 0: the
  string reads back as the number, has at most 10 characters, and no byte outside the first 11 of
  the buffer is written; a negative number gives the empty string.\<close>

theorem itodeca_prints_decimal:
  assumes "- (2 ^ 31) \<le> a" "a < 2 ^ 31"
  shows "if a < 0 then cstring (itodeca a b m) b []
    else (\<exists>s. cstring (itodeca a b m) b s \<and> s = show_nat 10 dec_digit (nat a) \<and> read_dec s = a \<and> length s \<le> 10 \<and>
      same_outside b 11 m (itodeca a b m))"
proof (cases "a < 0")
  case True
  then show ?thesis by (simp add: itoa_simps itoa_negative cstring_def bytes_at_def)
next
  case False
  have "a < 10 ^ 10" using assms(2) by simp
  then show ?thesis using itodeca_string(1)[of a b m] itodeca_string(2)[of a] itodeca_string(3)[of a b m] False read_dec_show[of "nat a"] by auto
qed

theorem itodeca_prints_decimal_witness:
  "\<exists>s. cstring (itodeca 2024 100 (\<lambda>_. 0)) 100 s \<and> s = [50, 48, 50, 52] \<and> read_dec s = 2024"
proof -
  have "show_nat 10 dec_digit (nat 2024) = [50, 48, 50, 52]" by (simp add: show_nat.simps dec_digit_def)
  then show ?thesis using itodeca_prints_decimal[of 2024 100 "\<lambda>_. 0"] by auto
qed

text \<open>C23: \<^verbatim>\<open>itohexa\<close> prints every non-negative \<^verbatim>\<open>int\<close> in hexadecimal, terminated by 0, within the first
  9 bytes of the buffer (the page fault handler gives it 16); an address with the top bit set is
  a negative \<^verbatim>\<open>int\<close> and gives the empty string.\<close>

theorem itohexa_prints_hexadecimal:
  assumes "- (2 ^ 31) \<le> a" "a < 2 ^ 31"
  shows "if a < 0 then cstring (itohexa a b m) b []
    else (cstring (itohexa a b m) b (show_nat 16 hex_digit (nat a)) \<and> same_outside b 9 m (itohexa a b m))"
proof (cases "a < 0")
  case True
  then show ?thesis by (simp add: itoa_simps itoa_negative cstring_def bytes_at_def)
next
  case False
  have "a < 16 ^ 8" using assms(2) by simp
  then show ?thesis using itohexa_string(1)[of a b m] itohexa_string(3)[of a b m] False by auto
qed

theorem itohexa_prints_hexadecimal_witness:
  "cstring (itohexa 0x10A 100 (\<lambda>_. 0)) 100 [49, 48, 65]"
proof -
  have "show_nat 16 hex_digit (nat 0x10A) = [49, 48, 65]" by (simp add: show_nat.simps hex_digit_def)
  then show ?thesis using itohexa_prints_hexadecimal[of "0x10A" 100 "\<lambda>_. 0"] by simp
qed

text \<open>C24: \<^verbatim>\<open>strlen\<close>, \<^verbatim>\<open>strcpy\<close> and \<^verbatim>\<open>strcat\<close> return on terminated strings that do not overlap: \<^verbatim>\<open>strlen\<close> counts the
  characters, \<^verbatim>\<open>strcpy\<close> puts the source in the place of the destination, \<^verbatim>\<open>strcat\<close> appends it; both keep the source and
  write nothing behind the new terminator.\<close>

theorem strcat_appends:
  assumes "cstring m dest d" "cstring m src s" "length d + length s < 2 ^ 31"
    and "\<forall>i \<le> length d + length s. \<forall>j \<le> length s. dest + of_nat i \<noteq> src + of_nat j"
  shows "strlen m dest = Some (length d) \<and>
    (\<exists>m'. strcpy dest src m = Some m' \<and> cstring m' dest s \<and> cstring m' src s \<and> same_outside dest (Suc (length s)) m m') \<and>
    (\<exists>m'. strcat dest src m = Some m' \<and> cstring m' dest (d @ s) \<and> cstring m' src s \<and>
       same_outside dest (Suc (length d + length s)) m m')"
proof (intro conjI)
  show "strlen m dest = Some (length d)" using strlen_cstring[OF assms(1)] by (simp add: strlen_def)
  have ls: "length s < 2 ^ 31" using assms(3) by simp
  have dis: "dest + of_nat i \<noteq> src + of_nat j" if "i \<le> length s" "j \<le> length s" for i j using assms(4) that by auto
  obtain m' where m': "strcpy dest src m = Some m'" "bytes_at m' dest (Suc (length s)) = s @ [0]" "same_outside dest (Suc (length s)) m m'"
    using strcpy_copies[OF assms(2) ls dis] by blast
  moreover have "cstring m' dest s" using m'(2) assms(2) by (simp add: cstring_def)
  moreover have "cstring m' src s" by (rule cstring_kept[OF assms(2) m'(3)]) (use ls dis in \<open>auto simp: less_Suc_eq_le\<close>)
  ultimately show "\<exists>m'. strcpy dest src m = Some m' \<and> cstring m' dest s \<and> cstring m' src s \<and> same_outside dest (Suc (length s)) m m'" by blast
  obtain m2 where m2: "strcat dest src m = Some m2" "cstring m2 dest (d @ s)" "same_outside dest (Suc (length d + length s)) m m2"
    using strcat_result[OF assms] by blast
  moreover have "cstring m2 src s" by (rule cstring_kept[OF assms(2) m2(3)]) (use assms(3,4) in \<open>auto simp: less_Suc_eq_le\<close>)
  ultimately show "\<exists>m'. strcat dest src m = Some m' \<and> cstring m' dest (d @ s) \<and> cstring m' src s \<and>
      same_outside dest (Suc (length d + length s)) m m'" by blast
qed

theorem strcat_appends_witness:
  "\<exists>m1 m2. strcpy 0 64 (\<lambda>x. if x = 0 then 65 else if x = 64 then 66 else 0) = Some m1 \<and> cstring m1 0 [66] \<and>
     strcat 0 64 (\<lambda>x. if x = 0 then 65 else if x = 64 then 66 else 0) = Some m2 \<and> cstring m2 0 [65, 66]"
proof -
  let ?m = "\<lambda>x::DWord. if x = 0 then 65 else if x = 64 then 66 else 0 :: Byte"
  have s: "cstring ?m 0 [65]" "cstring ?m 64 [66]" by (simp_all add: cstring_def bytes_at_def)
  have d: "\<forall>i\<le>length [65::Byte] + length [66::Byte]. \<forall>j\<le>length [66::Byte]. (0::DWord) + of_nat i \<noteq> 64 + of_nat j"
    by (auto simp: le_Suc_eq)
  show ?thesis using strcat_appends[OF s _ d] by auto
qed

text \<open>C25: \<^verbatim>\<open>rand_range(min, max)\<close> stays in its range: for \<open>min \<le> max\<close>, except for the full 32-bit range,
  where it divides by zero, it returns a value between \<open>min\<close> and \<open>max\<close>; the generator's state stays
  below \<open>2 ^ 31\<close> and different states below that bound have different successors, so the
  sequence never merges into a shorter one.\<close>

theorem rand_range_bounds:
  assumes "mn \<le> mx" "\<not> (mn = 0 \<and> mx = - 1)"
  shows "\<exists>v s'. rand_range mn mx s = Some (v, s') \<and> mn \<le> v \<and> v \<le> mx \<and> unat s' < 2 ^ 31 \<and>
    (\<forall>t. unat s < 2 ^ 31 \<and> unat t < 2 ^ 31 \<and> fst (rand t) = s' \<longrightarrow> t = s)"
proof -
  have d: "unat (mx - mn) = unat mx - unat mn" using assms(1) by (rule unat_sub)
  have ne: "mx - mn + 1 \<noteq> 0"
  proof
    assume z: "mx - mn + 1 = 0"
    then have "mx - mn = - 1" by (simp add: eq_neg_iff_add_eq_0)
    then have "unat mx - unat mn = 2 ^ 32 - 1" using d by (simp add: unsigned_minus_1_eq_mask mask_eq_exp_minus_1)
    moreover have "unat mx < 4294967296" using unat_DWord_less[of mx] by simp
    ultimately have "unat mn = 0" by simp
    then have "mn = 0" by (simp add: unat_eq_0)
    then show False using \<open>mx - mn = - 1\<close> assms(2) by simp
  qed
  let ?r = "fst (rand s)" and ?n = "mx - mn + 1"
  have s: "unat ?n = Suc (unat mx - unat mn)" using unatSuc[of "mx - mn"] ne d by (simp add: add.commute)
  have "unat (?r mod ?n) < unat ?n" using s by (simp add: unat_mod)
  then have le: "unat (?r mod ?n) \<le> unat mx - unat mn" using s by simp
  have v: "unat (mn + ?r mod ?n) = unat mn + unat (?r mod ?n)"
    by (subst unat_word_ariths) (use le assms(1) unat_DWord_less[of mx] in \<open>simp add: word_le_nat_alt\<close>)
  have rr: "rand_range mn mx s = Some (mn + ?r mod ?n, ?r)"
    using ne rand_same_seed[of s] by (cases "rand s") (simp add: rand_range_def)
  have "mn \<le> mn + ?r mod ?n" "mn + ?r mod ?n \<le> mx" using v le assms(1) by (simp_all add: word_le_nat_alt)
  moreover have "unat ?r < 2 ^ 31" unfolding rand_unat by simp
  ultimately show ?thesis using rr rand_inj by blast
qed

theorem rand_range_bounds_witness: "\<exists>v s'. rand_range 0 4 322321 = Some (v, s') \<and> v \<le> 4"
  using rand_range_bounds[of 0 4 322321] by auto

text \<open>C26: \<^verbatim>\<open>sleep(ms)\<close> returns as soon as a reading of the clock has reached the start time plus
  \<open>ms / 2\<close> ticks, if some later reading does, and not before; the computed end time does not wrap.\<close>

theorem sleep_returns:
  assumes "\<And>n. 0 \<le> g n \<and> g n < 2 ^ 31" "1 \<le> N" "g 0 + uint ms div 2 \<le> g N"
  shows "\<exists>n. sleep g ms = Some (n + 1) \<and> 1 \<le> n \<and> n \<le> N \<and> g 0 + uint ms div 2 \<le> g n \<and>
    (\<forall>j. 1 \<le> j \<and> j < n \<longrightarrow> g j < g 0 + uint ms div 2)"
proof -
  let ?e = "(word_of_int (g 0) :: DWord) + ms div 2"
  have u: "uint (word_of_int (g n) :: DWord) = g n" for n
    using assms(1)[of n] by (simp add: uint_word_of_int_eq take_bit_int_eq_self)
  have "uint (ms div 2) = uint ms div 2" by (simp add: uint_div)
  moreover have "uint ms < 2 ^ 32" using uint_lt2p[of ms] by simp
  moreover have "0 \<le> g 0 + uint ms div 2" "g 0 + uint ms div 2 < 2 ^ 32"
    using assms(1)[of 0] \<open>uint ms < 2 ^ 32\<close> by (auto simp: pos_imp_zdiv_nonneg_iff)
  ultimately have e: "uint ?e = g 0 + uint ms div 2"
    using u[of 0] by (subst uint_word_ariths) (simp add: mod_pos_pos_trivial)
  have loop: "\<exists>n. sleep_loop g ?e k = Some (n + 1) \<and> k \<le> n \<and> n \<le> N \<and> g 0 + uint ms div 2 \<le> g n \<and>
      (\<forall>j. k \<le> j \<and> j < n \<longrightarrow> g j < g 0 + uint ms div 2)" if "k \<le> N" for k
    using that
  proof (induction "N - k" arbitrary: k)
    case 0
    then have "k = N" by simp
    then show ?case using assms(3) e u[of N]
      by (subst sleep_loop.simps) (auto simp: word_less_def intro!: exI[of _ N])
  next
    case (Suc d)
    show ?case
    proof (cases "g k < g 0 + uint ms div 2")
      case True
      have "\<exists>n. sleep_loop g ?e (Suc k) = Some (n + 1) \<and> Suc k \<le> n \<and> n \<le> N \<and> g 0 + uint ms div 2 \<le> g n \<and>
        (\<forall>j. Suc k \<le> j \<and> j < n \<longrightarrow> g j < g 0 + uint ms div 2)"
        by (rule Suc.hyps(1)) (use Suc.hyps(2) in auto)
      then obtain n where n: "sleep_loop g ?e (Suc k) = Some (n + 1)" "Suc k \<le> n" "n \<le> N"
          "g 0 + uint ms div 2 \<le> g n" "\<forall>j. Suc k \<le> j \<and> j < n \<longrightarrow> g j < g 0 + uint ms div 2" by blast
      have "sleep_loop g ?e k = Some (n + 1)"
        using n(1) True e u[of k] by (subst sleep_loop.simps) (simp add: word_less_def)
      moreover have "g j < g 0 + uint ms div 2" if "k \<le> j" "j < n" for j
        using n(5) True that by (cases "j = k") auto
      ultimately show ?thesis using n(2-4) by (intro exI[of _ n]) auto
    next
      case False
      then show ?thesis using Suc.prems e u[of k]
        by (subst sleep_loop.simps) (auto simp: word_less_def intro!: exI[of _ k])
    qed
  qed
  have "sleep g ms = sleep_loop g ?e 1" by (simp add: sleep_def Let_def)
  then show ?thesis using loop[OF assms(2)] by auto
qed

theorem sleep_returns_witness: "\<exists>n. sleep (\<lambda>n. int (min n 10000)) 3000 = Some (n + 1) \<and> n \<le> 1500"
proof -
  have "\<And>n. 0 \<le> int (min n 10000) \<and> int (min n 10000) < 2 ^ 31" by auto
  from sleep_returns[where g = "\<lambda>n. int (min n 10000)" and N = 1500 and ms = 3000, OF this] show ?thesis by auto
qed

end
