(* ===== verification/Zeos_Fault.thy ===== *)
theory Zeos_Fault
  imports Zeos_Kernel Zeos_Libc
begin

text \<open>
  The page fault routine of \<^verbatim>\<open>interrupt.c\<close>. It handles a write to a mapped read-only page
  (``copy on write'') and returns, or it prints the address of the faulting instruction and loops for ever.
  \<^term>\<open>None\<close> is a second fault inside the routine. \<^verbatim>\<open>%cr2\<close> and the pushed \<^verbatim>\<open>%eip\<close> are its arguments.
\<close>

datatype pgf_result = Resumed kstate | Halted kstate

definition fault_message :: "Byte list" where
  "fault_message = [10, 80, 65, 71, 69, 32, 70, 65, 85, 76, 84, 32, 103, 101, 110, 101, 114, 97, 116, 101, 100, 32,
     97, 116, 32, 37, 101, 105, 112, 32, 61, 32, 48, 120]"

text \<open>
  The label \<^verbatim>\<open>pgf_error\<close>: \<open>mesg\<close> is where the linker has put the string literal and \<open>buff\<close> where the local array lies on the
  kernel stack. Kernel addresses are mapped to themselves, so the library routines work on memory directly. \<^verbatim>\<open>strcat\<close>
  writes behind the literal.
\<close>

definition c_text :: "ram \<Rightarrow> DWord \<Rightarrow> Byte list option" where
  "c_text m a = map_option (bytes_at m a) (strlen m a)"

definition pgf_error :: "DWord \<Rightarrow> DWord \<Rightarrow> DWord \<Rightarrow> kstate \<Rightarrow> pgf_result option" where
  "pgf_error mesg buff faulty_instruction k = do {
     let r = itohexa (sint faulty_instruction) buff (ram (mm k));
     r \<leftarrow> strcat mesg buff r;
     s \<leftarrow> c_text r mesg;
     Some (Halted (k\<lparr>mm := (mm k)\<lparr>ram := r\<rparr>, io := printk s (io k)\<rparr>)) }"

definition cow_copy :: "DWord \<Rightarrow> DWord \<Rightarrow> DWord \<Rightarrow> DWord \<Rightarrow> nat \<Rightarrow> kstate \<Rightarrow> pgf_result option" where
  "cow_copy mesg buff faulty_instruction pt faulty_page k =
     (let free_pt_page = get_user_free_page (mm k) pt in
      if free_pt_page < 0 then pgf_error mesg buff faulty_instruction k
      else case alloc_frame (mm k) of (new_ph_pag, m) \<Rightarrow>
        if new_ph_pag < 0 then pgf_error mesg buff faulty_instruction (k\<lparr>mm := m\<rparr>)
        else do {
          let m = set_ss_pag pt (nat free_pt_page) (word_of_int new_ph_pag) m;
          let m = set_cr3 (get_DIR k (current k)) m;
          r \<leftarrow> copy_data (translate m) (of_nat (4096 * faulty_page)) (of_nat (4096 * nat free_pt_page))
                PAGE_SIZE (ram m);
          let m = m\<lparr>ram := r\<rparr>;
          let old = unat (get_frame m pt faulty_page);
          let m = m\<lparr>phys_mem := (phys_mem m)(old := phys_mem m old - 1)\<rparr>;
          let m = set_ss_pag pt faulty_page (word_of_int new_ph_pag) m;
          let m = del_ss_pag pt (nat free_pt_page) m;
          Some (Resumed (k\<lparr>mm := set_cr3 (get_DIR k (current k)) m\<rparr>)) })"

definition pgf_routine :: "DWord \<Rightarrow> DWord \<Rightarrow> DWord \<Rightarrow> DWord \<Rightarrow> kstate \<Rightarrow> pgf_result option" where
  "pgf_routine mesg buff faulty_address faulty_instruction k = do {
     let faulty_page = unat (word_of_int (sint faulty_address div 4096) :: DWord);
     pt \<leftarrow> get_PT k (current k);
     if is_cow_page (mm k) pt faulty_page then
       if phys_mem (mm k) (unat (get_frame (mm k) pt faulty_page)) = 1 then
         Some (Resumed (on_mm (\<lambda>m. set_cr3 (get_DIR k (current k))
           (pt_set m pt faulty_page (set_pte_rw 1 (pt_get m pt faulty_page)))) k))
       else cow_copy mesg buff faulty_instruction pt faulty_page k
     else pgf_error mesg buff faulty_instruction k
   }"

subsection \<open>Results\<close>

text \<open>Addresses are shifted as \<^verbatim>\<open>int\<close>; below 4 MB this is the page number.\<close>

lemma fault_page:
  assumes "p < TOTAL_PAGES" "i < 4096"
  shows "unat (word_of_int (sint (of_nat (4096 * p + i) :: DWord) div 4096) :: DWord) = p"
proof -
  have u: "unat (of_nat (4096 * p + i) :: DWord) = 4096 * p + i" by (rule unat_of_nat_DWord) (use assms in simp)
  have b: "unat (of_nat (4096 * p + i) :: DWord) < 2 ^ 31" unfolding u using assms by simp
  have "sint (of_nat (4096 * p + i) :: DWord) = int (4096 * p + i)" unfolding sint_small[OF b] u ..
  moreover have "int (4096 * p + i) div 4096 = int p" using assms(2) by simp
  ultimately have "word_of_int (sint (of_nat (4096 * p + i) :: DWord) div 4096) = (of_nat p :: DWord)" by simp
  then show ?thesis using unat_of_nat_DWord[of p] assms(1) by simp
qed

text \<open>The numeral that \<^verbatim>\<open>itohexa\<close> leaves, nothing for a negative \<^verbatim>\<open>int\<close>.\<close>

definition hexa_text :: "DWord \<Rightarrow> Byte list" where
  "hexa_text pc = (if unat pc < 2 ^ 31 then show_nat 16 hex_digit (unat pc) else [])"

lemma sint_large:
  fixes w :: DWord
  assumes "\<not> unat w < 2 ^ 31"
  shows "sint w < 0"
proof -
  have "int (2 ^ 31) \<le> int (unat w)" using assms by (simp only: of_nat_le_iff not_less)
  then have u: "2 ^ 31 \<le> uint w" "uint w < 2 ^ 32" using uint_lt2p[of w] by simp_all
  have "uint w div 2 ^ 31 = 1" by (rule int_div_pos_eq[of _ _ _ "uint w - 2 ^ 31"]) (use u in simp_all)
  then have "bit (uint w) 31" by (simp only: bit_iff_odd odd_one not_False_eq_True)
  then have "sint w = uint w - 2 ^ 32"
    using u(2) by (simp only: sint_uint signed_take_bit_eq_take_bit_minus) (simp add: take_bit_eq_mod)
  then show ?thesis using u(2) by linarith
qed

lemma itohexa_word:
  "cstring (itohexa (sint pc) b m) b (hexa_text pc)" "length (hexa_text pc) \<le> 8" "same_outside b 9 m (itohexa (sint pc) b m)"
  for pc :: DWord
proof -
  have "cstring (itohexa (sint pc) b m) b (hexa_text pc) \<and> length (hexa_text pc) \<le> 8 \<and> same_outside b 9 m (itohexa (sint pc) b m)"
  proof (cases "unat pc < 2 ^ 31")
    case True
    have s: "sint pc = int (unat pc)" by (rule sint_small[OF True])
    have "int (unat pc) < int (2 ^ 31)" using True by (simp only: of_nat_less_iff)
    then have "0 \<le> sint pc" "sint pc < 16 ^ 8" unfolding s by simp_all
    note h = itohexa_string[OF this]
    show ?thesis using h(1)[of b m] h(2) h(3)[of b m] True by (simp add: hexa_text_def s)
  next
    case False
    then have "sint pc < 0" by (rule sint_large)
    moreover have "same_outside b 9 m (m(b + of_nat 0 := 0))" by (rule same_outside_upd) simp_all
    ultimately show ?thesis using False by (simp add: hexa_text_def itoa_simps itoa_negative cstring_def bytes_at_def)
  qed
  then show "cstring (itohexa (sint pc) b m) b (hexa_text pc)" "length (hexa_text pc) \<le> 8" "same_outside b 9 m (itohexa (sint pc) b m)"
    by simp_all
qed

text \<open>Where the literal and the array may be: in the kernel's part of memory, apart from each other. 34 bytes of text, at
  most 8 digits and a terminator make 43.\<close>

definition fault_text_ok :: "DWord \<Rightarrow> DWord \<Rightarrow> ram \<Rightarrow> bool" where
  "fault_text_ok mesg buff r \<longleftrightarrow> cstring r mesg fault_message \<and> 0x1000 \<le> unat mesg \<and> unat mesg + 43 \<le> 0x100000 \<and>
     0x1000 \<le> unat buff \<and> unat buff + 16 \<le> 0x100000 \<and> (unat mesg + 43 \<le> unat buff \<or> unat buff + 16 \<le> unat mesg)"

lemma unat_plus_small: "unat (a :: DWord) + i < 2 ^ 32 \<Longrightarrow> unat (a + of_nat i) = unat a + i"
  using unat_of_nat_DWord[of i] by (subst unat_word_ariths) simp

lemma fault_text_apart:
  assumes "fault_text_ok mesg buff r" "i < 43" "j < 16"
  shows "mesg + of_nat i \<noteq> buff + of_nat j"
proof -
  have "unat (mesg + of_nat i) = unat mesg + i" "unat (buff + of_nat j) = unat buff + j"
    by (rule unat_plus_small, use assms in \<open>simp add: fault_text_ok_def\<close>)+
  then show ?thesis using assms by (auto simp: fault_text_ok_def)
qed

lemma pgf_error_result:
  assumes ok: "fault_text_ok mesg buff (ram (mm k))"
  shows "\<exists>r. pgf_error mesg buff pc k =
      Some (Halted (k\<lparr>mm := (mm k)\<lparr>ram := r\<rparr>, io := printk (fault_message @ hexa_text pc) (io k)\<rparr>)) \<and>
    cstring r mesg (fault_message @ hexa_text pc) \<and> (\<forall>x. 43 \<le> unat (x - mesg) \<and> 9 \<le> unat (x - buff) \<longrightarrow> r x = ram (mm k) x)"
proof -
  let ?r = "itohexa (sint pc) buff (ram (mm k))" and ?t = "hexa_text pc"
  have len: "length fault_message = 34" by (simp add: fault_message_def)
  note h = itohexa_word(1,3)[where pc = pc and b = buff and m = "ram (mm k)"] itohexa_word(2)[where pc = pc]
  have "cstring ?r mesg fault_message"
  proof (rule cstring_kept[OF _ h(2)])
    show "\<forall>i<9. \<forall>j\<le>length fault_message. buff + of_nat i \<noteq> mesg + of_nat j"
      using fault_text_apart[OF ok, symmetric] len by auto
  qed (use ok in \<open>simp_all add: fault_text_ok_def\<close>)
  moreover have "\<forall>i\<le>length fault_message + length ?t. \<forall>j\<le>length ?t. mesg + of_nat i \<noteq> buff + of_nat j"
    using fault_text_apart[OF ok] h(3) len by auto
  ultimately obtain r where r: "strcat mesg buff ?r = Some r" "cstring r mesg (fault_message @ ?t)"
      "same_outside mesg (Suc (length fault_message + length ?t)) ?r r"
    using strcat_result[OF _ h(1), of mesg fault_message] h(3) len by auto
  have "c_text r mesg = Some (fault_message @ ?t)"
    using r(2) strlen_cstring[OF r(2), of 0] by (simp add: c_text_def strlen_def cstring_def bytes_at_def del: upt_Suc) (simp add: upt_Suc)
  moreover have "r x = ram (mm k) x" if "43 \<le> unat (x - mesg)" "9 \<le> unat (x - buff)" for x
    using that r(3) h(2,3) len by (simp add: same_outside_def)
  ultimately show ?thesis using r by (intro exI[of _ r]) (simp add: pgf_error_def)
qed

lemma code_fault_result:
  assumes inv: "kernel_inv k fq rq bq kids i F" and c: "current k \<noteq> i" and j: "j < NUM_PAG_CODE" "b < 4096"
  shows "\<exists>k'. pgf_routine mesg buff (of_nat (4096 * (PAG_LOG_INIT_CODE + j) + b)) pc k = Some (Resumed k') \<and>
    pt_entry (mm k') (current k) (PAG_LOG_INIT_CODE + j) = mk_pte (of_nat (F (OCode j))) 7 \<and>
    (\<forall>t p. p < TOTAL_PAGES \<longrightarrow> (t, p) \<noteq> (current k, PAG_LOG_INIT_CODE + j) \<longrightarrow> pt_entry (mm k') t p = pt_entry (mm k) t p)"
proof -
  note D = kernel_invD(3)[OF inv]
  let ?t = "current k" and ?p = "276 + j"
  have t: "?t \<in> users k rq bq i" "?t < 10" using users_facts(1,3)[OF inv] c by auto
  have d: "dirs_ok (mm k)" and fr: "frames_ok (mm k) (owners (users k rq bq i)) F"
    using D by (simp_all add: space_inv_def tables_ok_def)
  have o: "OCode j \<in> owners (users k rq bq i)" using j by (simp add: fixed_in_owners)
  note f = owner_frame[OF fr o]
  have e: "pt_entry (mm k) ?t ?p = mk_pte (of_nat (F (OCode j))) 5"
    using D t(1) j(1) by (simp add: space_inv_def code_ok_def)
  have dir: "dir_pages_baseAddr (task k ?t) = Some ?t" by (rule sched_invD(8)[OF kernel_invD(1)[OF inv]])
  have pt: "get_PT k ?t = Some (row_addr (mm k) ?t)" using get_PT_row[OF d t(2)] dir by (simp add: get_PT_def)
  have pg: "pt_get (mm k) (row_addr (mm k) ?t) ?p = mk_pte (of_nat (F (OCode j))) 5" using pt_get_row[OF t(2)] e by simp
  have cow: "is_cow_page (mm k) (row_addr (mm k) ?t) ?p"
    unfolding is_cow_page_def pg using mk_pte_nonzero[of 5] by simp
  have fu: "unat (get_frame (mm k) (row_addr (mm k) ?t) ?p) = F (OCode j)"
    unfolding get_frame_def pg pbase_mk_pte_of_nat[OF f(1)] by (rule unat_of_nat_DWord) (use f(3) in simp)
  have ph: "phys_mem (mm k) (F (OCode j)) = 1" using fr o f by (simp add: frames_ok_def)
  let ?m = "set_cr3 (get_DIR k ?t) (pt_set (mm k) (row_addr (mm k) ?t) ?p (set_pte_rw 1 (mk_pte (of_nat (F (OCode j))) 5)))"
  have r: "pgf_routine mesg buff (of_nat (4096 * ?p + b)) pc k = Some (Resumed (k\<lparr>mm := ?m\<rparr>))"
    unfolding pgf_routine_def Let_def fault_page[of ?p b, OF _ j(2)]
    using fault_page[of ?p b] j pt cow fu ph pg by (simp add: on_mm_def)
  have en: "pt_entry ?m u p = (if u = ?t \<and> p = ?p then mk_pte (of_nat (F (OCode j))) 7 else pt_entry (mm k) u p)"
    if "p < 1024" for u p
    using pt_entry_pt_set[OF t(2)] that j(1) by (simp add: set_cr3_def set_rw_mk_pte)
  show ?thesis using r en j(1) by (intro exI[of _ "k\<lparr>mm := ?m\<rparr>"]) auto
qed

end
