(* ===== verification/Zeos_System.thy ===== *)
theory Zeos_System
  imports Zeos_Fault
begin

text \<open>
  Start-up: \<^verbatim>\<open>system.c\<close>, and \<^verbatim>\<open>setGdt\<close> and \<^verbatim>\<open>setTSS\<close> of \<^verbatim>\<open>mm.c\<close>.

  \<open>machine\<close> adds to the kernel state the descriptor tables, the task state segment and the
  interrupt flag. The stack pointer \<^verbatim>\<open>tss.esp0\<close> and the model-specific register \<^verbatim>\<open>0x175\<close> that
  the scheduler keeps changing are the components \<open>tss_esp0\<close> and \<open>msr_esp\<close> of the kernel state.
  Addresses the linker chooses and the routine \<^verbatim>\<open>set_handlers\<close> of \<^verbatim>\<open>libzeos.a\<close> are parameters.

  While a process is in user mode its kernel stack is empty: \<open>esp\<close> is then the top of it, where
  the next kernel entry starts.
\<close>

subsection \<open>Segments\<close>

record TSS =
  PreviousTaskLink :: Word16
  ss0 :: Word16
  esp1 :: DWord
  ss1 :: Word16
  esp2 :: DWord
  ss2 :: Word16
  tss_cr3 :: DWord
  tss_eip :: DWord
  tss_eFlags :: DWord
  tss_eax :: DWord
  tss_ecx :: DWord
  tss_edx :: DWord
  tss_ebx :: DWord
  tss_esp :: DWord
  tss_ebp :: DWord
  tss_esi :: DWord
  tss_edi :: DWord
  tss_es :: Word16
  tss_cs :: Word16
  tss_ss :: Word16
  tss_ds :: Word16
  tss_fs :: Word16
  tss_gs :: Word16
  LDTSegmentSelector :: Word16
  debugTrap :: Word16
  IOMapBaseAddress :: Word16

record machine =
  kern :: kstate
  ints :: idt_state
  gdt :: "nat \<Rightarrow> Descriptor"
  gdtR :: Register
  gdtr :: Register
  tss :: TSS
  task_reg :: Word16
  int_mask :: Byte
  int_flag :: bool

abbreviation (input) GDT_START :: DWord where "GDT_START \<equiv> 0x901B3"
abbreviation (input) KERNEL_START :: DWord where "KERNEL_START \<equiv> 0x10000"
abbreviation (input) L_USER_START :: DWord where "L_USER_START \<equiv> 0x100000"
abbreviation (input) USER_ESP :: DWord where "USER_ESP \<equiv> 0x113FF0"
abbreviation (input) INITIAL_EFLAGS :: DWord where "INITIAL_EFLAGS \<equiv> 0x200"

text \<open>The instructions \<^verbatim>\<open>popfl\<close> (with 0), \<^verbatim>\<open>lgdt\<close> and \<^verbatim>\<open>ltr\<close>.\<close>

definition set_eflags :: "machine \<Rightarrow> machine" where
  "set_eflags M = M\<lparr>int_flag := False\<rparr>"

definition set_gdt_reg :: "Register \<Rightarrow> machine \<Rightarrow> machine" where
  "set_gdt_reg r M = M\<lparr>gdtr := r\<rparr>"

definition set_task_reg :: "Word16 \<Rightarrow> machine \<Rightarrow> machine" where
  "set_task_reg tr M = M\<lparr>task_reg := tr\<rparr>"

lemmas hardware_defs = set_eflags_def set_gdt_reg_def set_task_reg_def

definition setGdt :: "DWord \<Rightarrow> machine \<Rightarrow> machine" where
  "setGdt tss_addr M =
     (let e = unat (drop_bit 3 KERNEL_TSS);
          M = M\<lparr>gdt := (gdt M)(e := (gdt M e)\<lparr>lowBase := lowWord tss_addr, midBase := midByte tss_addr,
                highBase := highByte tss_addr\<rparr>)\<rparr>;
          M = M\<lparr>gdtR := \<lparr>reg_limit = 256 * 8, reg_base = GDT_START\<rparr>\<rparr>
      in set_gdt_reg (gdtR M) M)"

definition setTSS :: "machine \<Rightarrow> machine" where
  "setTSS M = set_task_reg KERNEL_TSS (M\<lparr>kern := (kern M)\<lparr>tss_esp0 := (1, KERNEL_STACK_SIZE)\<rparr>,
     tss := \<lparr>PreviousTaskLink = 0, ss0 = KERNEL_DS, esp1 = 0, ss1 = 0, esp2 = 0, ss2 = 0,
       tss_cr3 = 0, tss_eip = 0, tss_eFlags = INITIAL_EFLAGS, tss_eax = 0, tss_ecx = 0, tss_edx = 0,
       tss_ebx = 0, tss_esp = USER_ESP, tss_ebp = USER_ESP, tss_esi = 0, tss_edi = 0,
       tss_es = USER_DS, tss_cs = USER_CS, tss_ss = USER_DS, tss_ds = USER_DS, tss_fs = 0, tss_gs = 0,
       LDTSegmentSelector = KERNEL_TSS, debugTrap = 0, IOMapBaseAddress = 0\<rparr>\<rparr>)"

subsection \<open>main\<close>

definition load32 :: "translation \<Rightarrow> DWord \<Rightarrow> ram \<Rightarrow> DWord option" where
  "load32 tr a m = do {
     b0 \<leftarrow> load8 tr a m; b1 \<leftarrow> load8 tr (a + 1) m; b2 \<leftarrow> load8 tr (a + 2) m; b3 \<leftarrow> load8 tr (a + 3) m;
     Some (ucast b0 OR push_bit 8 (ucast b1) OR push_bit 16 (ucast b2) OR push_bit 24 (ucast b3)) }"

definition store32 :: "translation \<Rightarrow> DWord \<Rightarrow> DWord \<Rightarrow> ram \<Rightarrow> ram option" where
  "store32 tr a v m = do {
     m \<leftarrow> store8 tr a (ucast v) m; m \<leftarrow> store8 tr (a + 1) (ucast (drop_bit 8 v)) m;
     m \<leftarrow> store8 tr (a + 2) (ucast (drop_bit 16 v)) m; store8 tr (a + 3) (ucast (drop_bit 24 v)) m }"

text \<open>The boot stack lies in the page below \<^verbatim>\<open>&task[t]\<close>, five words below its end.\<close>

definition set_seg_regs :: "nat \<Rightarrow> kstate \<Rightarrow> kstate" where
  "set_seg_regs t k = k\<lparr>esp := (t - 1, KERNEL_STACK_SIZE - 5)\<rparr>"

definition enable_int :: "machine \<Rightarrow> machine" where
  "enable_int M = M\<lparr>int_mask := 0xFC, int_flag := True\<rparr>"

text \<open>\<^verbatim>\<open>return_gate\<close> stores \<^verbatim>\<open>*p_rdtr\<close> above the initial user stack pointer and leaves to user mode.\<close>

definition return_gate :: "DWord \<Rightarrow> kstate \<Rightarrow> kstate option" where
  "return_gate user_esp k = do {
     rdtr \<leftarrow> load32 (translate (mm k)) (KERNEL_START + 8) (ram (mm k));
     r \<leftarrow> store32 (translate (mm k)) (user_esp + 12) rdtr (ram (mm k));
     Some (k\<lparr>mm := (mm k)\<lparr>ram := r\<rparr>, esp := tss_esp0 k\<rparr>) }"

definition loaded_message :: "Byte list" where
  "loaded_message = [75, 101, 114, 110, 101, 108, 32, 76, 111, 97, 100, 101, 100, 33, 32, 32, 32, 32]"

definition user_mode_message :: "Byte list" where
  "user_mode_message = [69, 110, 116, 101, 114, 105, 110, 103, 32, 117, 115, 101, 114, 32, 109, 111,
     100, 101, 46, 46, 46]"

text \<open>Moving the user image: \<^verbatim>\<open>*p_sys_size\<close> and \<^verbatim>\<open>*p_usr_size\<close> are the first words of the kernel.\<close>

definition move_user_image :: "kstate \<Rightarrow> kstate option" where
  "move_user_image k = do {
     sys_size \<leftarrow> load32 (translate (mm k)) KERNEL_START (ram (mm k));
     usr_size \<leftarrow> load32 (translate (mm k)) (KERNEL_START + 4) (ram (mm k));
     r \<leftarrow> copy_data (translate (mm k)) (KERNEL_START + sys_size) L_USER_START (sint usr_size) (ram (mm k));
     Some (k\<lparr>mm := (mm k)\<lparr>ram := r\<rparr>\<rparr>) }"

record linkage =
  tss_addr :: DWord
  idt_addr :: DWord
  set_handlers :: "idt_state \<Rightarrow> idt_state"
  clk_handler :: DWord
  kbd_handler :: DWord
  sysenter_handler :: DWord
  initial_esp :: DWord

definition zeos_main :: "linkage \<Rightarrow> machine \<Rightarrow> machine option" where
  "zeos_main l M = do {
     let M = set_eflags M;
     let k = set_seg_regs 4 (kern M);
     let M = M\<lparr>kern := k\<lparr>io := printk loaded_message (io k)\<rparr>\<rparr>;
     let M = setGdt (tss_addr l) M;
     let M = M\<lparr>ints := setIdt (idt_addr l) (set_handlers l) (clk_handler l) (kbd_handler l)
                 (initial_esp l) (sysenter_handler l) (ints M)\<rparr>;
     let M = M\<lparr>kern := (kern M)\<lparr>msr_esp := (1, KERNEL_STACK_SIZE)\<rparr>\<rparr>;
     let M = setTSS M;
     let k = init_mm (initCircBuff (kern M));
     k \<leftarrow> init_sched k;
     k \<leftarrow> init_idle k;
     k \<leftarrow> init_task1 k;
     k \<leftarrow> move_user_image k;
     let k = k\<lparr>io := printk user_mode_message (io k)\<rparr>;
     let M = enable_int M;
     k \<leftarrow> return_gate USER_ESP k;
     Some (M\<lparr>kern := k\<rparr>) }"

subsection \<open>Memory after \<^verbatim>\<open>init_mm\<close>\<close>

lemma bare_mm_registers: "bare_mm (m\<lparr>cr3 := c, cr0 := d\<rparr>) = bare_mm m"
proof -
  have e: "pt_entry (m\<lparr>cr3 := c, cr0 := d\<rparr>) = pt_entry m" by (simp add: fun_eq_iff pt_entry_def)
  have d: "dirs_ok (m\<lparr>cr3 := c, cr0 := d\<rparr>) = dirs_ok m" by (simp add: dirs_ok_def row_addr_def cong: if_cong)
  show ?thesis by (simp add: bare_mm_def frames_ok_def e d)
qed

lemma init_pages_ram:
  assumes "layout_ok m"
  shows "ram (init_shared_pages (init_dir_pages (init_frames (init_table_pages m)))) = ram m"
proof -
  let ?m1 = "init_table_pages m" and ?m2 = "init_frames (init_table_pages m)"
  have t: "tables_only m ?m1" by (rule init_table_pages_result(1)[of 0]) simp
  note f = init_frames_result(1)[of ?m1]
  have l: "layout_ok ?m2" using assms tables_only_fields[OF t] by (subst f) (simp add: layout_ok_def)
  note d = init_dir_pages_result(2)[OF l]
  have z: "phys_mem (init_dir_pages ?m2) g = 0" if "256 \<le> g" "g < 1024" for g
    using init_frames_result(2)[of g ?m1] that by (subst d) simp
  have "ram (init_shared_pages (init_dir_pages ?m2)) = ram (init_dir_pages ?m2)"
    using init_shared_pages_result[OF z] by simp
  also have "\<dots> = ram ?m2" by (subst d) simp
  also have "\<dots> = ram ?m1" by (subst f) simp
  also have "\<dots> = ram m" by (rule tables_only_fields(7)[OF t])
  finally show ?thesis .
qed

lemma init_mm_result:
  assumes "layout_ok (mm k)"
  shows "bare_mm (mm (init_mm k))" "ram (mm (init_mm k)) = ram (mm k)" "bit (cr0 (mm (init_mm k))) 31"
    "io (init_mm k) = io k" "cbuff (init_mm k) = cbuff k" "next_pid (init_mm k) = next_pid k" "parent (task (init_mm k) t) = parent (task k t)"
  using bare_mm_init[OF assms] init_pages_ram[OF assms]
  by (simp_all add: init_mm_def Let_def allocate_DIR_def set_cr3_def set_pe_flag_def bare_mm_registers bit_simps)

subsection \<open>The first two processes\<close>

abbreviation (input) boot_kids :: "nat \<rightharpoonup> nat list" where
  "boot_kids \<equiv> [9 \<mapsto> [], 8 \<mapsto> []]"

definition boot_procs :: "kstate \<Rightarrow> kstate option" where
  "boot_procs k = Option.bind (init_sched k) (\<lambda>k. Option.bind (init_idle k) init_task1)"

lemma tasks_list: "rev [0..<NR_TASKS] = [9, 8, 7, 6, 5, 4, 3, 2, 1, 0]"
  by code_simp

lemma boot_procs_result:
  assumes b: "bare_mm (mm k)" and c: "cb_wf (cbuff k)" "cursor_ok (io k)" "next_pid k > 0"
  shows "\<exists>k' F. boot_procs k = Some k' \<and>
    kernel_inv (k'\<lparr>esp := (8, 1024)\<rparr>) [7, 6, 5, 4, 3, 2, 1, 0] [] [] boot_kids 9 F \<and>
    PID (task k' 8) = 1 \<and> quantum (task k' 8) = 1 \<and> pending_unblocks (task k' 8) = 0 \<and> ticks_since_last_switch k' = 0 \<and> tss_esp0 k' = (8, 1024) \<and>
    ram (mm k') = ram (mm k) \<and> cr0 (mm k') = cr0 (mm k) \<and> io k' = io k \<and> next_pid k' = next_pid k \<and> (\<forall>t. parent (task k' t) = parent (task k t)) \<and>
    (\<forall>u p. u < NR_TASKS \<longrightarrow> USER_LAST_PAGE \<le> p \<and> p < TOTAL_PAGES \<longrightarrow> pt_entry (mm k') u p = 0)"
proof -
  obtain h where h: "init_sched k = Some (k\<lparr>task := invalid_pids NR_TASKS (task k), heap := h\<rparr>)"
      "lists_rep h (family (9 # [8, 7, 6, 5, 4, 3, 2, 1, 0]) [] [] Map.empty)"
    using init_sched_result[of k] unfolding tasks_list by auto
  let ?k0 = "k\<lparr>task := invalid_pids NR_TASKS (task k), heap := h\<rparr>"
  have h0: "lists_rep (heap ?k0) (family (9 # [8, 7, 6, 5, 4, 3, 2, 1, 0]) [] [] Map.empty)" using h(2) by simp
  obtain k1 where k1: "init_idle ?k0 = Some k1"
      "lists_rep (heap k1) (family (8 # [7, 6, 5, 4, 3, 2, 1, 0]) [] [] [9 \<mapsto> []])"
      "task k1 = (task ?k0)(9 := (task ?k0 9)\<lparr>PID := 0, nr_ticks := 0, dir_pages_baseAddr := Some 9,
        kernel_esp0 := KPtr 9 1022\<rparr>)" "idle_task k1 = Some 9" "stack k1 9 1023 = K_cpu_idle"
      "mm k1 = mm ?k0" "next_pid k1 = next_pid ?k0" "cbuff k1 = cbuff ?k0" "io k1 = io ?k0"
    using init_idle_result[OF h0] by auto
  have d: "dirs_ok (mm k1)" using b k1(6) by (simp add: bare_mm_def)
  obtain k2 where k2: "init_task1 k1 = Some k2"
      "lists_rep (heap k2) (family [7, 6, 5, 4, 3, 2, 1, 0] [] [] boot_kids)"
      "task k2 = (task k1)(8 := (task k1 8)\<lparr>PID := 1, nr_ticks := 0, state := ST_RUN, pending_unblocks := 0,
        dir_pages_baseAddr := Some 8, quantum := 1\<rparr>)"
      "mm k2 = set_cr3 (Some 8) (set_user_pages (row_addr (mm k1) 8) (mm k1))"
      "tss_esp0 k2 = (8, 1024)" "msr_esp k2 = (8, 1024)" "ticks_since_last_switch k2 = 0"
      "idle_task k2 = idle_task k1" "stack k2 = stack k1" "next_pid k2 = next_pid k1" "cbuff k2 = cbuff k1"
      "io k2 = io k1"
    using init_task1_result[OF k1(2) _ d] by auto
  have b1: "bare_mm (mm k1)" using b k1(6) by simp
  obtain F where F: "space_inv (set_user_pages (row_addr (mm k1) 8) (mm k1)) {8} F"
      "paging_only (mm k1) (set_user_pages (row_addr (mm k1) 8) (mm k1))"
      "\<And>u p. u < 10 \<Longrightarrow> 284 \<le> p \<and> p < 1024 \<Longrightarrow>
         pt_entry (set_user_pages (row_addr (mm k1) 8) (mm k1)) u p = 0"
    using set_user_pages_space_inv[OF b1, of 8] by auto
  let ?k = "k2\<lparr>esp := (8, 1024)\<rparr>"
  have c8: "current ?k = 8" by (simp add: current_def)
  have u: "users ?k [] [] 9 = {8}" by (simp add: users_def c8)
  have s: "sched_inv ?k [7, 6, 5, 4, 3, 2, 1, 0] [] [] boot_kids 9"
    using k1 k2 unfolding sched_inv_def c8
    by (simp add: queues_ok_def cpu_ok_def c8 parked_def running_ok_def set_cr3_def)
  have t: "tree_ok ?k [7, 6, 5, 4, 3, 2, 1, 0] [] [] boot_kids 9"
    unfolding tree_ok_def u using k2(3) by auto
  have sp: "space_inv (mm ?k) {8} F" using F(1) k2(4) by (simp add: set_cr3_def space_inv_cr3)
  have "kernel_inv ?k [7, 6, 5, 4, 3, 2, 1, 0] [] [] boot_kids 9 F"
    unfolding kernel_inv_def u using s t sp k1 k2 c by simp
  moreover have "boot_procs k = Some k2" using h(1) k1(1) k2(1) by (simp add: boot_procs_def)
  moreover have "ram (mm k2) = ram (mm k)" "cr0 (mm k2) = cr0 (mm k)"
    using paging_only_fields[OF F(2)] k2(4) k1(6) by (simp_all add: set_cr3_def)
  moreover have "pt_entry (mm k2) v p = 0" if "v < 10" "284 \<le> p \<and> p < 1024" for v p
    using F(3)[OF that] k2(4) by (simp add: set_cr3_def pt_entry_def)
  moreover have "parent (task k2 t) = parent (task k t)" for t
    unfolding k2(3) k1(3) by (simp add: invalid_pids_def)
  ultimately show ?thesis using k1 k2 by (intro exI[of _ k2] exI[of _ F]) simp
qed

subsection \<open>The user image\<close>

definition word_at :: "ram \<Rightarrow> nat \<Rightarrow> DWord" where
  "word_at r a = ucast (r (of_nat a)) OR push_bit 8 (ucast (r (of_nat (a + 1)))) OR
     push_bit 16 (ucast (r (of_nat (a + 2)))) OR push_bit 24 (ucast (r (of_nat (a + 3))))"

text \<open>The image that the boot sector loaded: sizes in its first words, the user part inside kernel
  memory and no larger than the user area.\<close>

definition image_fits :: "ram \<Rightarrow> bool" where
  "image_fits r \<longleftrightarrow> 0x10000 + unat (word_at r 0x10000) + unat (word_at r 0x10004) \<le> 0x100000 \<and>
     unat (word_at r 0x10004) \<le> 28 * 4096"

lemma load32_kernel:
  assumes "space_inv m S F" "t < NR_TASKS" "cr3 m = Some t" "4096 \<le> a" "a + 3 < 0x100000"
  shows "load32 (translate m) (of_nat a) r = Some (word_at r a)"
proof -
  have "translate m (of_nat a + of_nat j) = Some (of_nat (a + j))" if "j \<le> 3" for j
    using kernel_identity[OF assms(1-3), of "a + j"] assms(4,5) that by simp
  from this[of 0] this[of 1] this[of 2] this[of 3] show ?thesis
    by (simp add: load32_def load8_def word_at_def add.commute)
qed

lemma move_user_image_result:
  assumes inv: "space_inv (mm k) S F" and t: "t \<in> S" and c: "cr3 (mm k) = Some t" and fits: "image_fits (ram (mm k))"
  shows "\<exists>r. move_user_image k = Some (k\<lparr>mm := (mm k)\<lparr>ram := r\<rparr>\<rparr>) \<and>
    (\<forall>i < unat (word_at (ram (mm k)) 0x10004). r (user_byte F t i) =
      ram (mm k) (of_nat (0x10000 + unat (word_at (ram (mm k)) 0x10000) + i))) \<and>
    (\<forall>a < 0x100000. r (of_nat a) = ram (mm k) (of_nat a))"
proof -
  let ?r = "ram (mm k)" and ?tr = "translate (mm k)"
  let ?s = "unat (word_at ?r 0x10000)" and ?u = "unat (word_at ?r 0x10004)"
  let ?src = "\<lambda>i. of_nat (0x10000 + ?s + i) :: DWord"
  have t10: "t < 10" and fr: "frames_ok (mm k) (owners S) F" using inv t by (auto simp: space_inv_def)
  have f: "0x10000 + ?s + ?u \<le> 0x100000" "?u \<le> 28 * 4096" using fits by (simp_all add: image_fits_def)
  have l: "load32 ?tr 0x10000 ?r = Some (word_at ?r 0x10000)" "load32 ?tr (0x10000 + 4) ?r = Some (word_at ?r 0x10004)"
    using load32_kernel[OF inv t10 c, of "0x10000" ?r] load32_kernel[OF inv t10 c, of "0x10004" ?r] by simp_all
  have m1: "maps_range ?tr (0x10000 + word_at ?r 0x10000) ?u ?src"
    unfolding maps_range_def
  proof (intro allI impI)
    fix i assume "i < ?u"
    then have "?tr (of_nat (0x10000 + ?s + i)) = Some (?src i)"
      using kernel_identity[OF inv t10 c, of "0x10000 + ?s + i"] f by simp
    then show "?tr (0x10000 + word_at ?r 0x10000 + of_nat i) = Some (?src i)" by simp
  qed
  have m2: "maps_range ?tr 0x100000 ?u (user_byte F t)" by (rule user_area_maps[OF inv t c f(2)])
  have hi: "of_nat a \<noteq> user_byte F t i" if "a < 0x100000" "i < ?u" for a i
  proof
    assume "of_nat a = user_byte F t i"
    then have "unat (of_nat a :: DWord) \<ge> 0x100000" using user_byte_high[OF fr t, of i] f(2) that(2) by simp
    then show False using that(1) by (simp add: unat_of_nat_DWord)
  qed
  have sp: "separate ?src (user_byte F t) ?u"
  proof -
    have "inj_on (user_byte F t) {..<?u}"
      by (rule inj_onI) (use user_byte_inj[OF fr t] f(2) in simp)
    moreover have "?src i \<noteq> user_byte F t j" if "i < ?u" "j < ?u" for i j
      by (rule hi) (use that f(1) in auto)
    ultimately show ?thesis unfolding separate_def by blast
  qed
  have sg: "sint (word_at ?r 0x10004) = int ?u" by (rule sint_small) (use f(2) in simp)
  obtain r where r: "copy_data ?tr (0x10000 + word_at ?r 0x10000) 0x100000 (int ?u) ?r = Some r"
      "copied ?src (user_byte F t) ?u ?r r"
    using copy_data_copied[OF m1 m2 sp, of ?r] by blast
  have "move_user_image k = Some (k\<lparr>mm := (mm k)\<lparr>ram := r\<rparr>\<rparr>)"
    unfolding move_user_image_def l using r(1) by (simp add: sg)
  moreover have "r (of_nat a) = ?r (of_nat a)" if "a < 0x100000" for a
    using r(2) hi[OF that] unfolding copied_def by blast
  ultimately show ?thesis using r(2) unfolding copied_def by (intro exI[of _ r]) simp
qed

subsection \<open>Leaving to user mode\<close>

lemma kernel_inv_user:
  assumes "kernel_inv k fq rq bq kids i F" "cursor_ok x"
  shows "kernel_inv (k\<lparr>mm := (mm k)\<lparr>ram := r\<rparr>, io := x, esp := (current k, s)\<rparr>) fq rq bq kids i F"
proof -
  let ?k = "k\<lparr>mm := (mm k)\<lparr>ram := r\<rparr>, io := x, esp := (current k, s)\<rparr>"
  have c: "current ?k = current k" by (simp add: current_def)
  have u: "users ?k rq bq i = users k rq bq i" by (simp add: users_def c)
  have "sched_inv ?k fq rq bq kids i"
    by (rule sched_inv_cong[OF kernel_invD(1)[OF assms(1)]]) (simp_all add: same_view_def c)
  moreover have "tree_ok ?k fq rq bq kids i"
    by (rule tree_ok_cong[OF kernel_invD(2)[OF assms(1)] u]) simp_all
  ultimately show ?thesis using kernel_invD(3-5)[OF assms(1)] assms(2)
    unfolding kernel_inv_def u by (simp add: space_inv_ram)
qed

lemma store32_maps:
  assumes "maps_range tr a 4 d"
  shows "\<exists>r'. store32 tr a v r = Some r' \<and> (\<forall>x. x \<notin> d ` {..<4} \<longrightarrow> r' x = r x)"
proof -
  have "tr (a + of_nat j) = Some (d j)" if "j < 4" for j using maps_range_at[OF assms that] .
  from this[of 0] this[of 1] this[of 2] this[of 3] show ?thesis
    by (auto simp: store32_def store8_def)
qed

lemma return_gate_result:
  assumes inv: "space_inv (mm k) S F" and t: "t \<in> S" and c: "cr3 (mm k) = Some t"
  shows "\<exists>r. return_gate USER_ESP k = Some (k\<lparr>mm := (mm k)\<lparr>ram := r\<rparr>, esp := tss_esp0 k\<rparr>) \<and>
    (\<forall>i < 28 * 4096. i < 0x13FFC \<or> 0x14000 \<le> i \<longrightarrow> r (user_byte F t i) = ram (mm k) (user_byte F t i))"
proof -
  have t10: "t < 10" and fr: "frames_ok (mm k) (owners S) F" using inv t by (auto simp: space_inv_def)
  let ?d = "\<lambda>j. user_byte F t (0x13FFC + j)"
  have l: "load32 (translate (mm k)) (0x10000 + 8) (ram (mm k)) = Some (word_at (ram (mm k)) 0x10008)"
    using load32_kernel[OF inv t10 c, of "0x10008" "ram (mm k)"] by simp
  have "maps_range (translate (mm k)) (0x100000 + of_nat 0x13FFC) (28 * 4096 - 0x13FFC) ?d"
    by (rule maps_range_shift[OF user_area_maps[OF inv t c]]) simp_all
  then have "maps_range (translate (mm k)) (0x113FF0 + 12) 4 ?d" by (simp add: maps_range_def)
  then obtain r where r: "store32 (translate (mm k)) (0x113FF0 + 12) (word_at (ram (mm k)) 0x10008) (ram (mm k)) = Some r"
      "\<And>x. x \<notin> ?d ` {..<4} \<Longrightarrow> r x = ram (mm k) x"
    using store32_maps by blast
  have "user_byte F t i \<notin> ?d ` {..<4}" if "i < 28 * 4096" "i < 0x13FFC \<or> 0x14000 \<le> i" for i
  proof
    assume "user_byte F t i \<in> ?d ` {..<4}"
    then obtain j where "j < 4" "user_byte F t i = user_byte F t (0x13FFC + j)" by auto
    then have "i = 0x13FFC + j" using user_byte_inj[OF fr t that(1), of "0x13FFC + j"] by simp
    then show False using \<open>j < 4\<close> that(2) by simp
  qed
  then show ?thesis using r l by (intro exI[of _ r]) (simp add: return_gate_def)
qed

subsection \<open>Properties\<close>

text \<open>What the boot sector, the linker and the static initialisers provide.\<close>

definition power_on :: "machine \<Rightarrow> bool" where
  "power_on M \<longleftrightarrow> layout_ok (mm (kern M)) \<and> image_fits (ram (mm (kern M))) \<and>
     length (keys (cbuff (kern M))) = 32 \<and> cursor_ok (io (kern M)) \<and> next_pid (kern M) = 2"

lemma zeos_main_steps:
  assumes "boot_procs (init_mm (initCircBuff ((set_seg_regs 4 (kern M))\<lparr>io := printk loaded_message (io (kern M)),
      msr_esp := (1, 1024), tss_esp0 := (1, 1024)\<rparr>))) = Some k1" (is "boot_procs ?k0 = _")
    and "move_user_image k1 = Some k2"
    and "return_gate USER_ESP (k2\<lparr>io := printk user_mode_message (io k2)\<rparr>) = Some k3"
  shows "\<exists>M'. zeos_main l M = Some M' \<and> kern M' = k3 \<and> int_flag M' \<and>
    ints M' = setIdt (idt_addr l) (set_handlers l) (clk_handler l) (kbd_handler l)
       (initial_esp l) (sysenter_handler l) (ints M)"
proof -
  obtain ka kb where ab: "init_sched ?k0 = Some ka" "init_idle ka = Some kb" "init_task1 kb = Some k1"
    using assms(1) by (auto simp: boot_procs_def bind_eq_Some_conv)
  have k: "kern (setTSS (M\<lparr>kern := x\<rparr>)) = x\<lparr>tss_esp0 := (1, 1024)\<rparr>" for x M by (simp add: setTSS_def hardware_defs)
  show ?thesis
    using ab assms(2,3)
    by (simp add: zeos_main_def Let_def hardware_defs setGdt_def setTSS_def enable_int_def set_seg_regs_def)
qed

text \<open>The kernel when the hardware and the memory have been set up.\<close>

definition boot_state :: "machine \<Rightarrow> kstate" where
  "boot_state M = init_mm (initCircBuff ((set_seg_regs 4 (kern M))\<lparr>io := printk loaded_message (io (kern M)),
     msr_esp := (1, 1024), tss_esp0 := (1, 1024)\<rparr>))"

lemma boot_state_facts:
  assumes p: "power_on M"
  shows "bare_mm (mm (boot_state M))" "cb_wf (cbuff (boot_state M))" "cursor_ok (io (boot_state M))" "next_pid (boot_state M) = 2"
    "ram (mm (boot_state M)) = ram (mm (kern M))" "bit (cr0 (mm (boot_state M))) 31" "parent (task (boot_state M) t) = parent (task (kern M) t)"
proof -
  have l0: "layout_ok (mm (initCircBuff ((set_seg_regs 4 (kern M))\<lparr>io := printk loaded_message (io (kern M)),
      msr_esp := (1, 1024), tss_esp0 := (1, 1024)\<rparr>)))"
    using p by (simp add: power_on_def initCircBuff_def set_seg_regs_def)
  note m0 = init_mm_result[OF l0, folded boot_state_def]
  show "bare_mm (mm (boot_state M))" "bit (cr0 (mm (boot_state M))) 31" by (fact m0(1), fact m0(3))
  show "cb_wf (cbuff (boot_state M))" using p by (simp add: m0 power_on_def initCircBuff_def set_seg_regs_def init_def cb_wf_def)
  show "cursor_ok (io (boot_state M))" using p by (simp add: m0 power_on_def initCircBuff_def printk_cursor_ok)
  show "next_pid (boot_state M) = 2" using p by (simp add: m0 power_on_def initCircBuff_def set_seg_regs_def)
  show "ram (mm (boot_state M)) = ram (mm (kern M))" "parent (task (boot_state M) t) = parent (task (kern M) t)"
    by (simp_all add: m0 initCircBuff_def set_seg_regs_def)
qed

text \<open>The last steps of \<^verbatim>\<open>main\<close>: the user image is moved and process 1 starts.\<close>

lemma enter_user_mode:
  assumes inv: "kernel_inv (k\<lparr>esp := (8, 1024)\<rparr>) fq rq bq kids 9 F" and t: "tss_esp0 k = (8, 1024)"
    and fits: "image_fits (ram (mm k))" and cu: "cursor_ok (io k)"
  defines "r0 \<equiv> ram (mm k)"
  shows "\<exists>r r'. let k1 = k\<lparr>mm := (mm k)\<lparr>ram := r\<rparr>\<rparr>;
      k2 = k\<lparr>mm := (mm k)\<lparr>ram := r'\<rparr>, io := printk user_mode_message (io k), esp := (8, 1024)\<rparr> in
    move_user_image k = Some k1 \<and> return_gate USER_ESP (k1\<lparr>io := printk user_mode_message (io k1)\<rparr>) = Some k2 \<and>
    kernel_inv k2 fq rq bq kids 9 F \<and>
    (\<forall>i < unat (word_at r0 0x10004). i < 0x13FFC \<or> 0x14000 \<le> i \<longrightarrow>
      load8 (translate (mm k2)) (0x100000 + of_nat i) (ram (mm k2)) = Some (r0 (of_nat (0x10000 + unat (word_at r0 0x10000) + i))))"
proof -
  have c8: "current (k\<lparr>esp := (8, 1024)\<rparr>) = 8" by (simp add: current_def)
  define S where "S = users (k\<lparr>esp := (8, 1024)\<rparr>) rq bq 9"
  have e8: "8 \<in> S" using users_facts(3)[OF inv] by (simp add: S_def c8)
  have sp: "space_inv (mm k) S F" using kernel_invD(3)[OF inv] by (simp add: S_def)
  have cr: "cr3 (mm k) = Some 8" using sched_invD(9)[OF kernel_invD(1)[OF inv]] by (simp add: c8)
  obtain r where r: "move_user_image k = Some (k\<lparr>mm := (mm k)\<lparr>ram := r\<rparr>\<rparr>)"
      "\<And>i. i < unat (word_at r0 0x10004) \<Longrightarrow> r (user_byte F 8 i) = r0 (of_nat (0x10000 + unat (word_at r0 0x10000) + i))"
    using move_user_image_result[OF sp e8 cr fits] unfolding r0_def by blast
  define k1 where "k1 = k\<lparr>mm := (mm k)\<lparr>ram := r\<rparr>, io := printk user_mode_message (io k)\<rparr>"
  have k1: "space_inv (mm k1) S F" "cr3 (mm k1) = Some 8" "tss_esp0 k1 = (8, 1024)" "ram (mm k1) = r"
    using sp cr t by (simp_all add: k1_def space_inv_ram)
  obtain r' where r': "return_gate USER_ESP k1 = Some (k1\<lparr>mm := (mm k1)\<lparr>ram := r'\<rparr>, esp := (8, 1024)\<rparr>)"
      "\<And>i. i < 28 * 4096 \<Longrightarrow> i < 0x13FFC \<or> 0x14000 \<le> i \<Longrightarrow> r' (user_byte F 8 i) = r (user_byte F 8 i)"
    using return_gate_result[OF k1(1) e8 k1(2)] unfolding k1(3,4) by blast
  let ?k2 = "k\<lparr>mm := (mm k)\<lparr>ram := r'\<rparr>, io := printk user_mode_message (io k), esp := (8, 1024)\<rparr>"
  have inv2: "kernel_inv ?k2 fq rq bq kids 9 F"
    using kernel_inv_user[OF inv printk_cursor_ok[OF cu, of user_mode_message], where r = r' and s = 1024] by (simp add: c8)
  have m2: "space_inv (mm ?k2) S F" "cr3 (mm ?k2) = Some 8" using sp cr by (simp_all add: space_inv_ram)
  have img: "load8 (translate (mm ?k2)) (0x100000 + of_nat i) (ram (mm ?k2)) = Some (r0 (of_nat (0x10000 + unat (word_at r0 0x10000) + i)))"
    if i: "i < unat (word_at r0 0x10004)" "i < 0x13FFC \<or> 0x14000 \<le> i" for i
  proof -
    have b: "i < 28 * 4096" using fits i(1) by (simp add: image_fits_def r0_def)
    have "translate (mm ?k2) (0x100000 + of_nat i) = Some (user_byte F 8 i)"
      using maps_range_at[OF user_area_maps[OF m2(1) e8 m2(2) order_refl] b] .
    then show ?thesis using r'(2)[OF b i(2)] r(2)[OF i(1)] by (simp add: load8_def)
  qed
  show ?thesis unfolding Let_def
    by (rule exI[of _ r], rule exI[of _ r']) (use r(1) r'(1) inv2 img in \<open>simp add: k1_def\<close>)
qed

lemma boot_result:
  assumes p: "power_on M"
  defines "r0 \<equiv> ram (mm (kern M))"
  shows "\<exists>M' F. zeos_main l M = Some M' \<and> kernel_inv (kern M') [7, 6, 5, 4, 3, 2, 1, 0] [] [] boot_kids 9 F \<and>
    current (kern M') = 8 \<and> PID (task (kern M') 8) = 1 \<and> quantum (task (kern M') 8) = 1 \<and>
    pending_unblocks (task (kern M') 8) = 0 \<and>
    ticks_since_last_switch (kern M') = 0 \<and> esp (kern M') = (8, 1024) \<and> next_pid (kern M') = 2 \<and>
    bit (cr0 (mm (kern M'))) 31 \<and> int_flag M' \<and> (\<forall>t. parent (task (kern M') t) = parent (task (kern M) t)) \<and>
    ints M' = setIdt (idt_addr l) (set_handlers l) (clk_handler l) (kbd_handler l)
       (initial_esp l) (sysenter_handler l) (ints M) \<and>
    (\<forall>u p. u < NR_TASKS \<longrightarrow> USER_LAST_PAGE \<le> p \<and> p < TOTAL_PAGES \<longrightarrow> pt_entry (mm (kern M')) u p = 0) \<and>
    (\<forall>i < unat (word_at r0 0x10004). i < 0x13FFC \<or> 0x14000 \<le> i \<longrightarrow>
      load8 (translate (mm (kern M'))) (0x100000 + of_nat i) (ram (mm (kern M'))) =
        Some (r0 (of_nat (0x10000 + unat (word_at r0 0x10000) + i))))"
proof -
  note b = boot_state_facts[OF p]
  have np: "next_pid (boot_state M) > 0" by (simp add: b(4))
  obtain k1 F where k1: "boot_procs (boot_state M) = Some k1"
      "kernel_inv (k1\<lparr>esp := (8, 1024)\<rparr>) [7, 6, 5, 4, 3, 2, 1, 0] [] [] boot_kids 9 F"
      "PID (task k1 8) = 1" "quantum (task k1 8) = 1" "ticks_since_last_switch k1 = 0" "tss_esp0 k1 = (8, 1024)"
      "ram (mm k1) = r0" "io k1 = io (boot_state M)" "next_pid k1 = 2" "bit (cr0 (mm k1)) 31"
      "\<And>u p. u < 10 \<Longrightarrow> 284 \<le> p \<and> p < 1024 \<Longrightarrow> pt_entry (mm k1) u p = 0" "pending_unblocks (task k1 8) = 0"
      "\<And>t. parent (task k1 t) = parent (task (kern M) t)"
    using boot_procs_result[OF b(1-3) np] b(4-7) unfolding r0_def by metis
  have fits: "image_fits (ram (mm k1))" "cursor_ok (io k1)" using p b(3) by (simp_all add: k1(7,8) power_on_def r0_def)
  obtain r r' where u: "move_user_image k1 = Some (k1\<lparr>mm := (mm k1)\<lparr>ram := r\<rparr>\<rparr>)"
      "return_gate USER_ESP ((k1\<lparr>mm := (mm k1)\<lparr>ram := r\<rparr>\<rparr>)\<lparr>io := printk user_mode_message (io (k1\<lparr>mm := (mm k1)\<lparr>ram := r\<rparr>\<rparr>))\<rparr>) =
        Some (k1\<lparr>mm := (mm k1)\<lparr>ram := r'\<rparr>, io := printk user_mode_message (io k1), esp := (8, 1024)\<rparr>)"
    and k2: "let k2 = k1\<lparr>mm := (mm k1)\<lparr>ram := r'\<rparr>, io := printk user_mode_message (io k1), esp := (8, 1024)\<rparr> in
      kernel_inv k2 [7, 6, 5, 4, 3, 2, 1, 0] [] [] boot_kids 9 F \<and>
      (\<forall>i < unat (word_at r0 0x10004). i < 0x13FFC \<or> 0x14000 \<le> i \<longrightarrow>
        load8 (translate (mm k2)) (0x100000 + of_nat i) (ram (mm k2)) = Some (r0 (of_nat (0x10000 + unat (word_at r0 0x10000) + i))))"
    using enter_user_mode[OF k1(2,6) fits] unfolding k1(7) Let_def by blast
  let ?k2 = "k1\<lparr>mm := (mm k1)\<lparr>ram := r'\<rparr>, io := printk user_mode_message (io k1), esp := (8, 1024)\<rparr>"
  obtain M' where M': "zeos_main l M = Some M'" "kern M' = ?k2" "int_flag M'"
      "ints M' = setIdt (idt_addr l) (set_handlers l) (clk_handler l) (kbd_handler l)
       (initial_esp l) (sysenter_handler l) (ints M)"
    using zeos_main_steps[OF k1(1)[unfolded boot_state_def] u, of l] by blast
  have hi: "pt_entry (mm ?k2) u q = 0" if "u < 10" "284 \<le> q \<and> q < 1024" for u q
    using k1(11)[OF that] by (simp add: pt_entry_def)
  have "current ?k2 = 8" "PID (task ?k2 8) = 1" "quantum (task ?k2 8) = 1" "ticks_since_last_switch ?k2 = 0" "esp ?k2 = (8, 1024)"
      "bit (cr0 (mm ?k2)) 31" "pending_unblocks (task ?k2 8) = 0" "next_pid ?k2 = 2" "\<And>t. parent (task ?k2 t) = parent (task (kern M) t)"
    using k1(3-5,9,10,12,13) by (simp_all add: current_def)
  then show ?thesis using M' k2[unfolded Let_def] hi unfolding M'(2)[symmetric] by blast
qed

lemma setIdt_gates:
  "gate_offset (idt (setIdt a sh c kb ie se s) 32) = c" "gate_offset (idt (setIdt a sh c kb ie se s) 33) = kb"
  "msrs (setIdt a sh c kb ie se s) 0x176 = (0, se)"
  using setInterruptHandler_gate(1)[of 0 33 kb] setInterruptHandler_gate(1)[of 0 32 c]
    setInterruptHandler_gate(4)[of 0 32 33 kb]
  by (simp_all add: setIdt_def set_idt_reg_def Let_def set_sysenter_msrs_def set_msr_def setInterruptHandler_def)

text \<open>C2: Booting works: from any machine state in which the loaded image fits into memory, \<^verbatim>\<open>main\<close>
  does not fault and leaves to user mode with paging and interrupts enabled, the whole kernel
  invariant established, process 1 (PCB 8) running in its own address space, idle (PCB 9)
  parked, the other eight PCBs free and no ready or blocked process; the clock and keyboard gates
  and the sysenter register lead to their handlers; and process 1 sees the user image from
  \<^verbatim>\<open>L_USER_START\<close> on, byte for byte, except for the word that \<^verbatim>\<open>return_gate\<close> puts above its stack.\<close>

theorem boot_starts_first_process:
  assumes "power_on M"
  shows "\<exists>M' F. zeos_main l M = Some M' \<and>
    kernel_inv (kern M') [7, 6, 5, 4, 3, 2, 1, 0] [] [] [9 \<mapsto> [], 8 \<mapsto> []] 9 F \<and>
    current (kern M') = 8 \<and> PID (task (kern M') 8) = 1 \<and> bit (cr0 (mm (kern M'))) 31 \<and> int_flag M' \<and>
    gate_offset (idt (ints M') 32) = clk_handler l \<and> gate_offset (idt (ints M') 33) = kbd_handler l \<and>
    msrs (ints M') 0x176 = (0, sysenter_handler l) \<and>
    (\<forall>i < unat (word_at (ram (mm (kern M))) 0x10004). i < 0x13FFC \<or> 0x14000 \<le> i \<longrightarrow>
      load8 (translate (mm (kern M'))) (0x100000 + of_nat i) (ram (mm (kern M'))) =
        Some (ram (mm (kern M)) (of_nat (0x10000 + unat (word_at (ram (mm (kern M))) 0x10000) + i))))"
proof -
  obtain M' F where M': "zeos_main l M = Some M'"
      "kernel_inv (kern M') [7, 6, 5, 4, 3, 2, 1, 0] [] [] [9 \<mapsto> [], 8 \<mapsto> []] 9 F"
      "current (kern M') = 8" "PID (task (kern M') 8) = 1" "bit (cr0 (mm (kern M'))) 31" "int_flag M'"
      "ints M' = setIdt (idt_addr l) (set_handlers l) (clk_handler l) (kbd_handler l)
         (initial_esp l) (sysenter_handler l) (ints M)"
      "\<forall>i < unat (word_at (ram (mm (kern M))) 0x10004). i < 0x13FFC \<or> 0x14000 \<le> i \<longrightarrow>
        load8 (translate (mm (kern M'))) (0x100000 + of_nat i) (ram (mm (kern M'))) =
          Some (ram (mm (kern M)) (of_nat (0x10000 + unat (word_at (ram (mm (kern M))) 0x10000) + i)))"
    using boot_result[OF assms, of l] by blast
  then show ?thesis by (intro exI[of _ M'] exI[of _ F]) (simp add: setIdt_gates)
qed

text \<open>A machine as it is when the boot sector jumps to the kernel, with an empty user image.\<close>

definition blank_pcb :: task_struct where
  "blank_pcb = \<lparr>PID = 0, dir_pages_baseAddr = None, state = ST_RUN, parent = None, kernel_esp0 = KWord 0,
     nr_ticks = 0, quantum = 0, pending_unblocks = 0\<rparr>"

definition blank_kstate :: kstate where
  "blank_kstate = \<lparr>task = (\<lambda>_. blank_pcb), stack = (\<lambda>_ _. KWord 0), heap = (\<lambda>_. \<lparr>nxt = None, prv = None\<rparr>),
     mm = \<lparr>phys_mem = (\<lambda>_. 0), shared_pages = (\<lambda>_. \<lparr>sh_frame = 0, num_refs = 0, to_clear = 0\<rparr>),
       dir_pages = (\<lambda>_ _. 0), pagusr_table = (\<lambda>_. 0), pagusr_addr = 0x40000, cr3 = None, cr0 = 0, ram = (\<lambda>_. 0)\<rparr>,
     io = \<lparr>x_screen = 0, y_screen = 19, fg_color = 5, bg_color = 0, screen = (\<lambda>_. 0), debug_port = []\<rparr>,
     cbuff = \<lparr>keys = replicate 32 0, write_idx = 0, read_idx = 0, cb_size = 0\<rparr>,
     idle_task = None, task1_task = None, next_pid = 2, ticks_since_last_switch = 0, zeos_ticks = 0,
     esp = (0, 0), ebp = KWord 0, ebx = KWord 0, esi = KWord 0, edi = KWord 0, eax = KWord 0, eip = KWord 0,
     tss_esp0 = (0, 0), msr_esp = (0, 0)\<rparr>"

definition blank_machine :: machine where
  "blank_machine = \<lparr>kern = blank_kstate,
     ints = \<lparr>idt = (\<lambda>_. \<lparr>lowOffset = 0, segmentSelector = 0, gate_flags = 0, highOffset = 0\<rparr>),
       idtR = \<lparr>reg_limit = 0, reg_base = 0\<rparr>, idtr = \<lparr>reg_limit = 0, reg_base = 0\<rparr>, msrs = (\<lambda>_. (0, 0))\<rparr>,
     gdt = (\<lambda>_. \<lparr>limit = 0, lowBase = 0, midBase = 0, flags1 = 0, flags2 = 0, highBase = 0\<rparr>),
     gdtR = \<lparr>reg_limit = 0, reg_base = 0\<rparr>, gdtr = \<lparr>reg_limit = 0, reg_base = 0\<rparr>,
     tss = tss (setTSS undefined), task_reg = 0, int_mask = 0, int_flag = False\<rparr>"

definition blank_linkage :: linkage where
  "blank_linkage = \<lparr>tss_addr = 0, idt_addr = 0, set_handlers = (\<lambda>s. s), clk_handler = 1, kbd_handler = 2,
     sysenter_handler = 3, initial_esp = 0\<rparr>"

lemma power_on_blank: "power_on blank_machine"
  by (simp add: power_on_def blank_machine_def blank_kstate_def layout_ok_def image_fits_def word_at_def cursor_ok_def)

theorem boot_starts_first_process_witness:
  "\<exists>M'. zeos_main blank_linkage blank_machine = Some M' \<and> PID (task (kern M') (current (kern M'))) = 1 \<and>
     gate_offset (idt (ints M') 32) = 1"
  using boot_starts_first_process[OF power_on_blank, of blank_linkage] by (auto simp: blank_linkage_def)

subsection \<open>Example states\<close>

lemma booted:
  "\<exists>k F. kernel_inv k [7, 6, 5, 4, 3, 2, 1, 0] [] [] boot_kids 9 F \<and> current k = 8 \<and> esp k = (8, 1024) \<and>
     next_pid k = 2 \<and> quantum (task k 8) = 1 \<and> PID (task k 8) = 1 \<and> pending_unblocks (task k 8) = 0 \<and> ticks_since_last_switch k = 0 \<and>
     card (free_pages (mm k) 8) = 740 \<and> (\<forall>t. parent (task k t) = None)"
proof -
  obtain M' :: machine and F where M': "kernel_inv (kern M') [7, 6, 5, 4, 3, 2, 1, 0] [] [] boot_kids 9 F"
      "current (kern M') = 8" "esp (kern M') = (8, 1024)" "next_pid (kern M') = 2"
      "quantum (task (kern M') 8) = 1" "PID (task (kern M') 8) = 1" "pending_unblocks (task (kern M') 8) = 0" "ticks_since_last_switch (kern M') = 0"
      "\<forall>u p. u < 10 \<longrightarrow> 284 \<le> p \<and> p < 1024 \<longrightarrow> pt_entry (mm (kern M')) u p = 0"
      "\<forall>t. parent (task (kern M') t) = parent (task (kern blank_machine) t)"
    using boot_result[OF power_on_blank, of blank_linkage] by blast
  have "free_pages (mm (kern M')) 8 = {284..<1024}" using M'(9) by (auto simp: free_pages_def)
  then show ?thesis using M'(1-8,10)
    by (intro exI[of _ "kern M'"] exI[of _ F]) (simp add: blank_machine_def blank_kstate_def blank_pcb_def)
qed

lemma kernel_inv_ticks:
  assumes "kernel_inv k fq rq bq kids i F"
  shows "kernel_inv (k\<lparr>ticks_since_last_switch := w\<rparr>) fq rq bq kids i F"
proof (rule kernel_inv_proc_frame[OF assms])
  show "sched_inv (k\<lparr>ticks_since_last_switch := w\<rparr>) fq rq bq kids i"
    by (rule sched_inv_cong[OF kernel_invD(1)[OF assms]]) (simp_all add: same_view_def)
qed (simp_all add: users_def proc_frame_def)

lemma forked:
  "\<exists>k F. kernel_inv k [6, 5, 4, 3, 2, 1, 0] [7] [] [9 \<mapsto> [], 8 \<mapsto> [7], 7 \<mapsto> []] 9 F \<and> current k = 8 \<and>
     esp k = (8, 1024) \<and> next_pid k = 3 \<and> PID (task k 8) = 1 \<and> PID (task k 7) = 2 \<and>
     quantum (task k 8) = 1 \<and> quantum (task k 7) = 1 \<and> ticks_since_last_switch k = 0 \<and> state (task k 7) = ST_READY \<and>
     (\<forall>t. parent (task k t) = (if t = 7 then Some 8 else None)) \<and> pending_unblocks (task k 8) = 0 \<and>
     card (free_pages (mm k) 8) = 740"
proof -
  obtain k F where k: "kernel_inv k (7 # [6, 5, 4, 3, 2, 1, 0]) [] [] boot_kids 9 F" "current k = 8" "esp k = (8, 1024)"
      "next_pid k = 2" "quantum (task k 8) = 1" "PID (task k 8) = 1" "ticks_since_last_switch k = 0"
      "card (free_pages (mm k) 8) = 740" "\<forall>t. parent (task k t) = None" "pending_unblocks (task k 8) = 0"
    using booted by blast
  have c: "current k \<noteq> 9" "next_pid k < 2 ^ 31 - 1" "20 \<le> card (free_pages (mm k) (current k))"
    using k by simp_all
  obtain k' ks F' where "boot_kids (current k) = Some ks"
      "kernel_inv k' [6, 5, 4, 3, 2, 1, 0] ([] @ [7]) [] (boot_kids(7 \<mapsto> [], current k \<mapsto> ks @ [7])) 9 F'"
      "current k' = current k" "esp k' = esp k" "next_pid k' = next_pid k + 1"
      "ticks_since_last_switch k' = ticks_since_last_switch k" "task k' = (task k)(7 := child_pcb k 7)"
      "\<forall>t q. t \<noteq> 7 \<longrightarrow> q < 1024 \<longrightarrow> pt_entry (mm k') t q = pt_entry (mm k) t q"
    using fork_kernel[OF k(1) c] by blast
  moreover from this(8) have "free_pages (mm k') 8 = free_pages (mm k) 8" by (auto simp: free_pages_def)
  moreover have "[9 \<mapsto> [], 8 \<mapsto> [7], 7 \<mapsto> []] = boot_kids(7 \<mapsto> [], 8 \<mapsto> [7::nat])" by auto
  ultimately show ?thesis using k by (intro exI[of _ k'] exI[of _ F']) (simp add: child_pcb_def)
qed

lemma child_running:
  "\<exists>k F. kernel_inv k [6, 5, 4, 3, 2, 1, 0] [8] [] [9 \<mapsto> [], 8 \<mapsto> [7], 7 \<mapsto> []] 9 F \<and> current k = 7 \<and> esp k = (7, 1024) \<and>
     PID (task k 7) = 2 \<and> PID (task k 8) = 1 \<and> (\<forall>t. parent (task k t) = (if t = 7 then Some 8 else None))"
proof -
  obtain k F where k: "kernel_inv k [6, 5, 4, 3, 2, 1, 0] [7] [] [9 \<mapsto> [], 8 \<mapsto> [7], 7 \<mapsto> []] 9 F" "current k = 8"
      "PID (task k 8) = 1" "PID (task k 7) = 2" "quantum (task k 8) = 1" "\<forall>t. parent (task k t) = (if t = 7 then Some 8 else None)"
    using forked by blast
  let ?k0 = "k\<lparr>ticks_since_last_switch := 1\<rparr>"
  have c0: "current ?k0 = 8" using k(2) by (simp add: current_def)
  have "slot_ok (1000, \<lambda>_. KWord 0)" by (simp add: slot_ok_def)
  from clock_tick_kernel[OF kernel_inv_ticks[OF k(1)] this, of 1] obtain k' where
    k': "kernel_inv k' [6, 5, 4, 3, 2, 1, 0] [8] [] [9 \<mapsto> [], 8 \<mapsto> [7], 7 \<mapsto> []] 9 F" "current k' = 7" "proc_frame ?k0 k'"
    using k(5) c0 by (auto simp: pick_def quanta_def)
  let ?k = "k'\<lparr>mm := (mm k')\<lparr>ram := ram (mm k')\<rparr>, io := io k', esp := (current k', 1024)\<rparr>"
  have "kernel_inv ?k [6, 5, 4, 3, 2, 1, 0] [8] [] [9 \<mapsto> [], 8 \<mapsto> [7], 7 \<mapsto> []] 9 F"
    by (rule kernel_inv_user[OF k'(1) kernel_invD(6)[OF k'(1)]])
  moreover have "current ?k = 7" using k'(2) by (simp add: current_def)
  ultimately show ?thesis using k k'(2,3) by (intro exI[of _ ?k] exI[of _ F]) (simp add: proc_frame_def)
qed

end
