(* ===== verification/Zeos_Runs.thy ===== *)
theory Zeos_Runs
  imports Zeos_Entry Zeos_System
begin

text \<open>
  The kernel as a whole against the abstract machine of \<^verbatim>\<open>Zeos_Entry\<close>: every event that the kernel is prepared
  for is handled without a fault and has the effect on the processes that the abstract machine gives it. The
  lemmas \<open>..._represents\<close> are the simulation for the calls that manage processes, \<open>..._harmless\<close> for those that
  leave them alone; \<open>handle_represents\<close> puts them together and \<open>run_represents\<close> is the induction over the events.
\<close>

subsection \<open>Entering the kernel\<close>

lemma kernel_inv_cong:
  assumes inv: "kernel_inv k fq rq bq kids i F" and t: "\<And>t. same_view (task k' t) (task k t)" "\<And>t. parent (task k' t) = parent (task k t)"
    and s: "\<And>t. t \<noteq> current k \<Longrightarrow> stack k' t = stack k t" and c: "current k' = current k"
    and f: "heap k' = heap k" "idle_task k' = idle_task k" "tss_esp0 k' = tss_esp0 k" "msr_esp k' = msr_esp k" "mm k' = mm k"
      "next_pid k' = next_pid k" "cbuff k' = cbuff k" "io k' = io k"
  shows "kernel_inv k' fq rq bq kids i F"
proof -
  note D = kernel_invD[OF inv]
  have u: "users k' rq bq i = users k rq bq i" by (simp add: users_def c)
  have "sched_inv k' fq rq bq kids i" by (rule sched_inv_cong[OF D(1)]) (use t s c f in simp_all)
  moreover have "tree_ok k' fq rq bq kids i"
    by (rule tree_ok_cong[OF D(2) u]) (use t in \<open>simp_all add: same_view_def\<close>)
  ultimately show ?thesis using D(3-6) f u by (simp add: kernel_inv_def)
qed

lemma same_view_refl [simp]: "same_view p p"
  by (simp add: same_view_def)

text \<open>A call that changes no PCB, no queue and not the process that runs.\<close>

lemma represents_same:
  assumes "represents k p" "\<And>F. kernel_inv k (p_free p) (p_ready p) (p_blocked p) (p_sons p) (p_idle p) F \<Longrightarrow>
      \<exists>F'. kernel_inv k' (p_free p) (p_ready p) (p_blocked p) (p_sons p) (p_idle p) F'"
    and "task k' = task k" "current k' = current k" "ticks_since_last_switch k' = ticks_since_last_switch k" "next_pid k' = next_pid k"
  shows "represents k' p"
  using assms unfolding represents_def by (auto simp: pcb_agrees_def)

lemma represents_entry:
  assumes "represents k p"
  shows "represents (on_stack (current k) e ws k) p"
proof (rule represents_same[OF assms])
  show "\<exists>F'. kernel_inv (on_stack (current k) e ws k) (p_free p) (p_ready p) (p_blocked p) (p_sons p) (p_idle p) F'"
    if "kernel_inv k (p_free p) (p_ready p) (p_blocked p) (p_sons p) (p_idle p) F" for F
    by (rule exI[of _ F], rule kernel_inv_cong[OF that]) (simp_all add: on_stack_def current_def)
qed (simp_all add: on_stack_def current_def)

lemma representsE:
  assumes "represents k p"
  obtains F where "kernel_inv k (p_free p) (p_ready p) (p_blocked p) (p_sons p) (p_idle p) F"
    "current k = p_run p" "ticks_since_last_switch k = p_ticks p" "next_pid k = p_next p" "p_run p < NR_TASKS"
    "\<And>t. t < NR_TASKS \<Longrightarrow> pcb_agrees k p t"
  using assms sched_invD(6)[OF kernel_invD(1)] unfolding represents_def by metis

lemma sons_defined:
  assumes "kernel_inv k fq rq bq kids i F"
  shows "\<exists>ks. kids (current k) = Some ks"
proof -
  have "current k \<in> insert i (users k rq bq i)" by (auto simp: users_def)
  then have "current k \<in> dom kids" using kernel_invD(2)[OF assms] by (simp add: tree_ok_def)
  then show ?thesis by blast
qed

subsection \<open>Interrupts\<close>

lemma clock_represents:
  assumes r: "represents k p" and e: "slot_ok e"
  shows "\<exists>k'. clock_tick e k = Some k' \<and> represents k' (spec_clock p)"
proof -
  obtain F where F: "kernel_inv k (p_free p) (p_ready p) (p_blocked p) (p_sons p) (p_idle p) F" using r by (auto simp: represents_def)
  obtain k' rq' where k': "clock_tick e k = Some k'" "kernel_inv k' (p_free p) rq' (p_blocked p) (p_sons p) (p_idle p) F"
      "(current k', rq', ticks_since_last_switch k') =
        rr_tick (p_idle p) (quanta k) (current k, p_ready p, ticks_since_last_switch k)" "proc_frame k k'"
    using clock_tick_kernel[OF F e] by blast
  have c: "current k < 10" by (rule sched_invD(6)[OF kernel_invD(1)[OF F]])
  have "rr_tick (p_idle p) (quanta k) (current k, p_ready p, ticks_since_last_switch k) =
      rr_tick (p_idle p) (p_quantum p) (p_run p, p_ready p, p_ticks p)"
    using r c by (auto simp: represents_def quanta_def pcb_agrees_def)
  then have t: "rr_tick (p_idle p) (p_quantum p) (p_run p, p_ready p, p_ticks p) = (current k', rq', ticks_since_last_switch k')"
    by (simp only: k'(3))
  have s: "spec_clock p = p\<lparr>p_run := current k', p_ready := rq', p_ticks := ticks_since_last_switch k'\<rparr>"
    unfolding spec_clock_def t by simp
  then show ?thesis using r k'(1,2,4) by (auto simp: represents_def proc_frame_def pcb_agrees_def)
qed

lemma keyboard_represents:
  assumes "represents k p"
  shows "represents (kbd_routine behind key k) p"
proof (rule represents_same[OF assms])
  show "\<exists>F'. kernel_inv (kbd_routine behind key k) (p_free p) (p_ready p) (p_blocked p) (p_sons p) (p_idle p) F'"
    if "kernel_inv k (p_free p) (p_ready p) (p_blocked p) (p_sons p) (p_idle p) F" for F
    using kbd_kernel[OF that] by blast
qed (simp_all add: kbd_routine_def Let_def current_def)

subsection \<open>Calls that manage processes\<close>

lemma exit_represents:
  assumes r: "represents k p" and c: "p_run p \<noteq> p_idle p" and e: "7 \<le> snd (esp k)" "snd (esp k) \<le> KERNEL_STACK_SIZE"
    and ok: "p_pid p (p_run p) = 1 \<longrightarrow> orphan (p_sons p) (p_run p)"
      "\<forall>t<NR_TASKS. p_parent p t = Some (p_run p) \<longrightarrow> t \<in> set (the (p_sons p (p_run p)))"
  shows "\<exists>k'. sys_exit k = Some k' \<and> represents k' (spec_exit p)"
proof -
  obtain F where F: "kernel_inv k (p_free p) (p_ready p) (p_blocked p) (p_sons p) (p_idle p) F" using r by (auto simp: represents_def)
  have cu: "current k = p_run p" and pf: "\<And>t. t < 10 \<Longrightarrow> PID (task k t) = p_pid p t \<and> parent (task k t) = p_parent p t \<and>
        quantum (task k t) = p_quantum p t \<and> pending_unblocks (task k t) = p_pending p t" and np: "next_pid k = p_next p"
    using r by (auto simp: represents_def pcb_agrees_def)
  have c10: "current k < 10" by (rule sched_invD(6)[OF kernel_invD(1)[OF F]])
  have "current k \<in> dom (p_sons p)"
    using kernel_invD(2)[OF F] users_facts(3)[OF F] c cu by (simp add: tree_ok_def)
  then obtain ks where ks: "p_sons p (current k) = Some ks" by blast
  have o: "PID (task k (current k)) = 1 \<longrightarrow> orphan (p_sons p) (current k)"
      "\<forall>t<10. parent (task k t) = Some (current k) \<longrightarrow> (\<exists>ks. p_sons p (current k) = Some ks \<and> t \<in> set ks)"
    using ok pf[OF c10] pf ks cu by auto
  have cne: "current k \<noteq> p_idle p" using c cu by simp
  from exit_kernel[OF F cne e o] obtain k' where k': "sys_exit k = Some k'"
    "kernel_inv k' (p_free p @ [current k]) (tl (p_ready p)) (p_blocked p) (exit_kids (p_sons p) (current k) (p_idle p)) (p_idle p) F"
    "current k' = (if p_ready p = [] then p_idle p else hd (p_ready p))"
    "PID (task k' (current k)) = -1" "parent (task k' (current k)) = parent (task k (current k))"
    "\<forall>t<10. t \<noteq> current k \<longrightarrow> parent (task k' t) = (if parent (task k t) = Some (current k) then Some (p_idle p) else parent (task k t))"
    "ticks_since_last_switch k' = 0" "next_pid k' = next_pid k"
    "\<forall>t. quantum (task k' t) = quantum (task k t) \<and> pending_unblocks (task k' t) = pending_unblocks (task k t) \<and>
       (t \<noteq> current k \<longrightarrow> PID (task k' t) = PID (task k t))" by blast
  have "represents k' (spec_exit p)"
    unfolding represents_def spec_exit_def Let_def spec_next_def
    using k'(2-9) cu pf np c10 by (auto simp: pcb_agrees_def)
  then show ?thesis using k'(1) by blast
qed

lemma fork_represents:
  assumes r: "represents k p" and c: "p_run p \<noteq> p_idle p"
    and ok: "p_free p \<noteq> [] \<longrightarrow> p_next p < 2 ^ 31 - 1 \<and> 20 \<le> card (free_pages (mm k) (p_run p))"
  shows "\<exists>v k'. sys_fork k = Some (v, k') \<and> represents k' (spec_fork p)"
proof -
  from r obtain F where F: "kernel_inv k (p_free p) (p_ready p) (p_blocked p) (p_sons p) (p_idle p) F"
      and cu: "current k = p_run p" "ticks_since_last_switch k = p_ticks p" "next_pid k = p_next p" "p_run p < 10"
      and pf: "\<And>t. t < 10 \<Longrightarrow> pcb_agrees k p t" by (blast elim: representsE)
  note S = sched_invD[OF kernel_invD(1)[OF F]]
  show ?thesis
  proof (cases "p_free p")
    case Nil
    then have "list_empty (heap k) FreeQ" using klists.empty_law[OF S(1), of FreeQ "[]"] by simp
    then show ?thesis using r Nil by (simp add: sys_fork_def spec_fork_def)
  next
    case (Cons t ts)
    have h: "current k \<noteq> p_idle p" "next_pid k < 2 ^ 31 - 1" "20 \<le> card (free_pages (mm k) (current k))"
      using ok c cu Cons by simp_all
    from fork_kernel[OF F[unfolded Cons] h] obtain k' ks F' where k': "p_sons p (current k) = Some ks"
        "sys_fork k = Some (next_pid k, k')"
        "kernel_inv k' ts (p_ready p @ [t]) (p_blocked p) ((p_sons p)(t \<mapsto> [], current k \<mapsto> ks @ [t])) (p_idle p) F'"
        "current k' = current k" "next_pid k' = next_pid k + 1" "ticks_since_last_switch k' = ticks_since_last_switch k"
        "task k' = (task k)(t := child_pcb k t)" by blast
    have "represents k' (spec_fork p)"
      unfolding represents_def spec_fork_def using Cons k'(1,3-7) cu pf pf[OF cu(4)] by (auto simp: child_pcb_def pcb_agrees_def)
    then show ?thesis using k'(2) by blast
  qed
qed

lemma block_represents:
  assumes r: "represents k p" and c: "p_run p \<noteq> p_idle p" and e: "7 \<le> snd (esp k)" "snd (esp k) \<le> KERNEL_STACK_SIZE"
    and ok: "p_pending p (p_run p) = 0 \<longrightarrow> \<not> (p_quantum p (p_run p) < p_ticks p \<and> p_ready p = [])"
  shows "\<exists>v k'. sys_block k = Some (v, k') \<and> represents k' (spec_block p)"
proof -
  from r obtain F where F: "kernel_inv k (p_free p) (p_ready p) (p_blocked p) (p_sons p) (p_idle p) F"
      and cu: "current k = p_run p" "ticks_since_last_switch k = p_ticks p" "next_pid k = p_next p" "p_run p < 10"
      and pf: "\<And>t. t < 10 \<Longrightarrow> pcb_agrees k p t" by (blast elim: representsE)
  note pc = pf[OF cu(4), unfolded pcb_agrees_def]
  show ?thesis
  proof (cases "p_pending p (p_run p) = 0")
    case True
    have h: "current k \<noteq> p_idle p" "pending_unblocks (task k (current k)) = 0" "\<not> (expired k \<and> p_ready p = [])"
      using True c cu pc ok by (auto simp: expired_def)
    from block_kernel[OF F h(1) e h(2,3)] obtain k' where k': "sys_block k = Some (0, k')"
        "kernel_inv k' (p_free p) (tl (p_ready p)) (p_blocked p @ [current k]) (p_sons p) (p_idle p) F"
        "current k' = (if p_ready p = [] then p_idle p else hd (p_ready p))" "ticks_since_last_switch k' = 0" "proc_frame k k'" by blast
    have "represents k' (spec_block p)"
      unfolding represents_def spec_block_def spec_next_def using True k'(2-5) cu pf by (auto simp: proc_frame_def pcb_agrees_def)
    then show ?thesis using k'(1) by blast
  next
    case False
    let ?k = "upd_task (current k) (\<lambda>p. p\<lparr>pending_unblocks := wrap32 (pending_unblocks p - 1)\<rparr>) k"
    have "kernel_inv ?k (p_free p) (p_ready p) (p_blocked p) (p_sons p) (p_idle p) F"
      by (rule kernel_inv_cong[OF F]) (simp_all add: same_view_def)
    then have "represents ?k (spec_block p)"
      unfolding represents_def spec_block_def using False cu pf by (auto simp: pcb_agrees_def)
    moreover have "sys_block k = Some (0, ?k)" using False pc cu by (simp add: sys_block_def Let_def)
    ultimately show ?thesis by blast
  qed
qed

lemma unblock_represents:
  assumes r: "represents k p"
  shows "\<exists>v k'. sys_unblock pid k = Some (v, k') \<and> represents k' (spec_unblock pid p)"
proof -
  from r obtain F where F: "kernel_inv k (p_free p) (p_ready p) (p_blocked p) (p_sons p) (p_idle p) F"
      and cu: "current k = p_run p" "ticks_since_last_switch k = p_ticks p" "next_pid k = p_next p" "p_run p < 10"
      and pf: "\<And>t. t < 10 \<Longrightarrow> pcb_agrees k p t" by (blast elim: representsE)
  note D = kernel_invD[OF F] and U = users_facts[OF F] and S = sched_invD[OF kernel_invD(1)[OF F]]
  obtain ks where ks: "p_sons p (current k) = Some ks" using sons_defined[OF F] by blast
  have kk: "set ks \<subseteq> users k (p_ready p) (p_blocked p) (p_idle p) - {current k}" using D(2) ks by (auto simp: tree_ok_def)
  then have k10: "s < 10" if "s \<in> set ks" for s using U(1) that by auto
  then have fe: "List.find (\<lambda>s. PID (task k s) = pid) ks = List.find (\<lambda>s. p_pid p s = pid) ks"
    using pf by (intro find_cong) (auto simp: pcb_agrees_def)
  show ?thesis
  proof (cases "List.find (\<lambda>s. PID (task k s) = pid) ks")
    case None
    then show ?thesis using sys_unblock_other(1)[OF D(1) ks None] r fe ks cu(1) by (simp add: spec_unblock_def)
  next
    case (Some s)
    have s: "s \<in> set ks" using Some by (auto simp: find_Some_iff)
    have b: "state (task k s) = ST_BLOCKED \<longleftrightarrow> s \<in> set (p_blocked p)"
    proof -
      have "s \<in> set (p_ready p @ p_blocked p)" using s kk by (auto simp: users_def)
      then show ?thesis using D(1) S(2) by (auto simp: sched_inv_def queues_ok_def ready_ok_def blocked_ok_def)
    qed
    show ?thesis
    proof (cases "state (task k s) = ST_BLOCKED")
      case True
      from unblock_kernel[OF F ks Some True] obtain k' xs ys where k': "p_blocked p = xs @ s # ys" "sys_unblock pid k = Some (0, k')"
          "kernel_inv k' (p_free p) (p_ready p @ [s]) (xs @ ys) (p_sons p) (p_idle p) F" "current k' = current k"
          "task k' = (task k)(s := (task k s)\<lparr>state := ST_READY, pending_unblocks := 0\<rparr>)" "next_pid k' = next_pid k"
          "ticks_since_last_switch k' = ticks_since_last_switch k" by blast
      have "s \<notin> set xs" using S(2) k'(1) by auto
      then have "remove1 s (p_blocked p) = xs @ ys" using k'(1) by (simp add: remove1_append)
      then have "represents k' (spec_unblock pid p)"
        unfolding represents_def spec_unblock_def using k'(3-7) k'(1) cu pf Some fe ks by (auto simp: pcb_agrees_def)
      then show ?thesis using k'(2) by blast
    next
      case False
      let ?k = "upd_task s (\<lambda>p. p\<lparr>pending_unblocks := wrap32 (pending_unblocks p + 1)\<rparr>) k"
      have "kernel_inv ?k (p_free p) (p_ready p) (p_blocked p) (p_sons p) (p_idle p) F"
        by (rule kernel_inv_cong[OF F]) (simp_all add: same_view_def)
      then have "represents ?k (spec_unblock pid p)"
        unfolding represents_def spec_unblock_def using False b Some fe ks cu pf k10[OF s] by (auto simp: pcb_agrees_def)
      then show ?thesis using sys_unblock_other(2)[OF D(1) ks Some False] by blast
    qed
  qed
qed

subsection \<open>Calls that leave the processes alone\<close>

text \<open>Such a call returns, and the kernel state still stands for the same processes.\<close>

definition harmless :: "procs \<Rightarrow> (int \<times> kstate) option \<Rightarrow> bool" where
  "harmless p r \<longleftrightarrow> (\<exists>v k'. r = Some (v, k') \<and> represents k' p)"

lemma harmless_same [intro]: "represents k p \<Longrightarrow> harmless p (Some (v, k))"
  by (auto simp: harmless_def)

lemma user_buffer_offset:
  assumes "user_buffer a n"
  obtains off where "a = 0x100000 + of_nat off" "off + nat n \<le> 28 * 4096" "0 \<le> n"
proof
  show "a = 0x100000 + of_nat (unat a - 0x100000)"
  proof -
    have "0x100000 + of_nat (unat a - 0x100000) = (of_nat (0x100000 + (unat a - 0x100000)) :: DWord)" by simp
    also have "0x100000 + (unat a - 0x100000) = unat a" using assms by (simp add: user_buffer_def)
    finally show ?thesis by simp
  qed
qed (use assms in \<open>auto simp: user_buffer_def\<close>)

lemma write_harmless:
  assumes r: "represents k p" and c: "p_run p \<noteq> p_idle p" and kb: "kernel_buffer kb" and b: "fd = 1 \<longrightarrow> user_buffer buf n"
  shows "harmless p (sys_write kb fd buf n k)"
proof (cases "fd = 1")
  case False
  then show ?thesis using r by (auto simp: sys_write_def check_fd_def harmless_def)
next
  case True
  obtain off where off: "buf = 0x100000 + of_nat off" "off + nat n \<le> 28 * 4096" "0 \<le> n" using user_buffer_offset b True by blast
  from r obtain F where F: "kernel_inv k (p_free p) (p_ready p) (p_blocked p) (p_sons p) (p_idle p) F" and cu: "current k = p_run p"
    by (blast elim: representsE)
  from write_kernel[OF F _ kb off(2)] c cu obtain k' where k': "sys_write kb 1 (0x100000 + of_nat off) (int (nat n)) k = Some (int (nat n), k')"
      "written F (current k) off (nat n) k k'" "kernel_inv k' (p_free p) (p_ready p) (p_blocked p) (p_sons p) (p_idle p) F" by auto
  have "represents k' p"
    by (rule represents_same[OF r]) (use k'(2,3) in \<open>auto simp: written_def current_def\<close>)
  then show ?thesis using k'(1) off(1,3) True by (simp add: harmless_def)
qed

lemma read_harmless:
  assumes r: "represents k p" and c: "p_run p \<noteq> p_idle p" and b: "user_buffer buf n"
  shows "harmless p (sys_read buf n kb k)"
proof -
  obtain off where off: "buf = 0x100000 + of_nat off" "off + nat n \<le> 28 * 4096" "0 \<le> n" using user_buffer_offset b by blast
  from r obtain F where F: "kernel_inv k (p_free p) (p_ready p) (p_blocked p) (p_sons p) (p_idle p) F" and cu: "current k = p_run p"
    by (blast elim: representsE)
  from read_kernel[OF F _ off(2), of kb] c cu obtain v k' where k': "sys_read (0x100000 + of_nat off) (int (nat n)) kb k = Some (v, k')"
      "kernel_inv k' (p_free p) (p_ready p) (p_blocked p) (p_sons p) (p_idle p) F"
      "k' = k\<lparr>cbuff := cbuff k', mm := (mm k)\<lparr>ram := ram (mm k')\<rparr>\<rparr>" by auto
  have f: "task k' = task k" "current k' = current k" "ticks_since_last_switch k' = ticks_since_last_switch k" "next_pid k' = next_pid k"
    by (subst k'(3), simp add: current_def)+
  have "represents k' p" by (rule represents_same[OF r]) (use k'(2) f in auto)
  then show ?thesis using k'(1) off(1,3) by (simp add: harmless_def)
qed

lemma represents_devices:
  assumes r: "represents k p" and x: "cursor_ok (io k) \<Longrightarrow> cursor_ok x"
  shows "represents (k\<lparr>io := x\<rparr>) p"
proof (rule represents_same[OF r])
  show "\<exists>F'. kernel_inv (k\<lparr>io := x\<rparr>) (p_free p) (p_ready p) (p_blocked p) (p_sons p) (p_idle p) F'"
    if "kernel_inv k (p_free p) (p_ready p) (p_blocked p) (p_sons p) (p_idle p) F" for F
    using kernel_inv_devices[OF that kernel_invD(3)[OF that] sched_invD(9)[OF kernel_invD(1)[OF that]] kernel_invD(5)[OF that]
        x[OF kernel_invD(6)[OF that]]] by auto
qed (simp_all add: current_def)

lemma screen_harmless:
  assumes "represents k p"
  shows "harmless p (sys_gotoxy x y k)" "harmless p (sys_set_color fg bg k)"
proof -
  have "0 \<le> x \<Longrightarrow> x < 80 \<Longrightarrow> 0 \<le> y \<Longrightarrow> y < 25 \<Longrightarrow> represents (k\<lparr>io := (io k)\<lparr>x_screen := word_of_int x, y_screen := word_of_int y\<rparr>\<rparr>) p"
    by (rule represents_devices[OF assms]) (use sys_gotoxy_cursor[of x y k] in \<open>simp add: sys_gotoxy_def\<close>)
  then show "harmless p (sys_gotoxy x y k)" using assms by (auto simp: sys_gotoxy_def harmless_def not_le not_less)
  have "represents (k\<lparr>io := (io k)\<lparr>fg_color := word_of_int fg, bg_color := word_of_int bg\<rparr>\<rparr>) p"
    by (rule represents_devices[OF assms]) (simp add: cursor_ok_def)
  then show "harmless p (sys_set_color fg bg k)" using assms by (simp add: sys_set_color_def harmless_def)
qed

text \<open>Replacing the memory, with the same owners of the frames.\<close>

lemma represents_mm:
  assumes r: "represents k p" and inv: "kernel_inv (k\<lparr>mm := m\<rparr>) (p_free p) (p_ready p) (p_blocked p) (p_sons p) (p_idle p) F"
  shows "represents (k\<lparr>mm := m\<rparr>) p"
  by (rule represents_same[OF r]) (use inv in \<open>auto simp: current_def\<close>)

lemma shmat_harmless:
  assumes r: "represents k p" and c: "p_run p \<noteq> p_idle p"
    and ok: "0 \<le> sh_id \<and> sh_id \<le> 9 \<and> addr mod 4096 = 0 \<longrightarrow>
        unat (drop_bit 12 addr) < TOTAL_PAGES \<and> free_pages (mm k) (p_run p) \<noteq> {}"
  shows "harmless p (sys_shmat sh_id addr k)"
proof -
  from r obtain F where F: "kernel_inv k (p_free p) (p_ready p) (p_blocked p) (p_sons p) (p_idle p) F" and cu: "current k = p_run p"
    by (blast elim: representsE)
  note D = kernel_invD[OF F] and S = sched_invD[OF kernel_invD(1)[OF F]]
  have pt: "get_PT k (current k) = Some (row_addr (mm k) (current k))"
    using get_PT_Some[OF S(8) _ S(6)] D(3) by (simp add: space_inv_def tables_ok_def)
  consider "sh_id < 0 \<or> sh_id > 9" | "0 \<le> sh_id" "sh_id \<le> 9" "addr mod 4096 \<noteq> 0" | "0 \<le> sh_id" "sh_id \<le> 9" "addr mod 4096 = 0" by linarith
  then show ?thesis
  proof cases
    case 1
    then show ?thesis using r by (auto simp: sys_shmat_def harmless_def)
  next
    case 2
    then have "addr \<noteq> 0" by auto
    then show ?thesis using r 2 pt by (auto simp: sys_shmat_def harmless_def Let_def)
  next
    case 3
    have cn: "current k \<noteq> p_idle p" and a: "unat (drop_bit 12 addr) < 1024" "free_pages (mm k) (current k) \<noteq> {}"
      using c cu ok 3 by simp_all
    from shmat_kernel[OF F cn 3(1,2,3) a] obtain q where q: "q \<in> free_pages (mm k) (current k)"
      "sys_shmat sh_id addr k = Some (int (4096 * q), k\<lparr>mm := attached (current k) (nat sh_id) q (mm k)\<rparr>)" by blast
    have "space_inv (attached (current k) (nat sh_id) q (mm k)) (users k (p_ready p) (p_blocked p) (p_idle p)) F"
      by (rule attached_space[OF D(3) S(6)]) (use q(1) 3 in \<open>simp_all add: free_pages_def\<close>)
    from kernel_inv_mm[OF F this] have "represents (k\<lparr>mm := attached (current k) (nat sh_id) q (mm k)\<rparr>) p"
      by (intro represents_mm[OF r]) (simp add: attached_def Let_def)
    then show ?thesis using q(2) by (simp add: harmless_def)
  qed
qed

lemma page_aligned_word:
  assumes "(addr :: DWord) mod 4096 = 0"
  shows "addr = of_nat (4096 * unat (drop_bit 12 addr))"
proof -
  have "addr = addr div 4096 * 4096" using assms word_mod_div_equality[of addr 4096] by simp
  then show ?thesis by (simp add: drop_bit_eq_div mult.commute)
qed

lemma shmdt_harmless:
  assumes r: "represents k p" and c: "p_run p \<noteq> p_idle p"
    and ok: "addr \<noteq> 0 \<and> addr mod 4096 = 0 \<longrightarrow> USER_LAST_PAGE \<le> unat (drop_bit 12 addr) \<and> unat (drop_bit 12 addr) < TOTAL_PAGES"
  shows "harmless p (sys_shmdt addr k)"
proof -
  from r obtain F where F: "kernel_inv k (p_free p) (p_ready p) (p_blocked p) (p_sons p) (p_idle p) F" and cu: "current k = p_run p"
    by (blast elim: representsE)
  note D = kernel_invD[OF F] and S = sched_invD[OF kernel_invD(1)[OF F]]
  let ?q = "unat (drop_bit 12 addr)"
  have cn: "current k \<noteq> p_idle p" using c cu by simp
  have pt: "get_PT k (current k) = Some (row_addr (mm k) (current k))"
    using get_PT_Some[OF S(8) _ S(6)] D(3) by (simp add: space_inv_def tables_ok_def)
  consider "addr = 0" | "addr \<noteq> 0" "addr mod 4096 \<noteq> 0" | "addr \<noteq> 0" "addr mod 4096 = 0" by metis
  then show ?thesis
  proof cases
    case 1
    then show ?thesis using r by (simp add: sys_shmdt_def harmless_def)
  next
    case 2
    then show ?thesis using r by (simp add: sys_shmdt_def harmless_def)
  next
    case False: 3
    then have q: "284 \<le> ?q" "?q < 1024" using ok by auto
    have e: "pt_get (mm k) (row_addr (mm k) (current k)) ?q = pt_entry (mm k) (current k) ?q" by (rule pt_get_row[OF S(6)])
    have "high_entry (mm k) F (pt_entry (mm k) (current k) ?q)" using D(3) S(6) q by (simp add: space_inv_def high_ok_def)
    then consider "pt_entry (mm k) (current k) ?q = 0"
      | j where "j < 10" "pt_entry (mm k) (current k) ?q = mk_pte (of_nat (F (OShared j))) 7" by (auto simp: high_entry_def)
    then show ?thesis
    proof cases
      case 1
      then show ?thesis using r False pt e by (auto simp: sys_shmdt_def harmless_def Let_def is_logic_page_free_def)
    next
      case (2 j)
      have fr: "F (OShared j) < 2 ^ 20"
        using owner_frame(1)[of "mm k" "owners (users k (p_ready p) (p_blocked p) (p_idle p))" F "OShared j"] D(3) 2(1)
        by (simp add: space_inv_def fixed_in_owners)
      show ?thesis
      proof (cases "j = 0")
        case True
        have "is_frame_shared (mm k) (pte_pbase_addr (pt_entry (mm k) (current k) ?q)) = 0"
          using shared_index[OF D(3) 2(1)] pbase_mk_pte_of_nat[OF fr] 2(2) True by simp
        then show ?thesis using r False pt e by (auto simp: sys_shmdt_def harmless_def Let_def)
      next
        case jn: False
        have a: "addr = of_nat (4096 * ?q)" by (rule page_aligned_word) (use False in simp)
        from shmdt_kernel[OF F cn q 2(2) _ 2(1)] jn obtain m where "sys_shmdt (of_nat (4096 * ?q)) k = Some (0, k\<lparr>mm := m\<rparr>)"
          "kernel_inv (k\<lparr>mm := m\<rparr>) (p_free p) (p_ready p) (p_blocked p) (p_sons p) (p_idle p) F" by auto
        then show ?thesis using represents_mm[OF r] a unfolding harmless_def by metis
      qed
    qed
  qed
qed

lemma shmrm_harmless:
  assumes r: "represents k p"
  shows "harmless p (sys_shmrm sh_id k)"
proof -
  let ?m = "(mm k)\<lparr>shared_pages := (shared_pages (mm k))(nat sh_id := (shared_pages (mm k) (nat sh_id))\<lparr>to_clear := 1\<rparr>)\<rparr>"
  have "represents (k\<lparr>mm := ?m\<rparr>) p"
  proof -
    from r obtain F where F: "kernel_inv k (p_free p) (p_ready p) (p_blocked p) (p_sons p) (p_idle p) F" by (blast elim: representsE)
    have e: "pt_entry ?m = pt_entry (mm k)" by (simp add: fun_eq_iff pt_entry_def)
    have d: "dirs_ok ?m = dirs_ok (mm k)" by (simp add: dirs_ok_def row_addr_def cong: if_cong)
    have "space_inv ?m S F = space_inv (mm k) S F" for S
      by (auto simp: space_inv_def frames_ok_def tables_ok_def code_ok_def high_ok_def high_entry_def e d)
    then have "space_inv ?m (users k (p_ready p) (p_blocked p) (p_idle p)) F" using kernel_invD(3)[OF F] by simp
    from kernel_inv_mm[OF F this] show ?thesis
      by (intro represents_mm[OF r]) (use sched_invD(9)[OF kernel_invD(1)[OF F]] in simp)
  qed
  then show ?thesis using r by (auto simp: sys_shmrm_def harmless_def on_mm_def)
qed

lemma sons_dlist:
  assumes "lists_rep h (family fq rq bq kids)" "kids p = Some ks"
  shows "dlist h (Sons p) (map Bros ks)"
  using lists_repD[OF assms(1), of "Sons p"] assms(2) by simp

text \<open>Both calls subtract one from the length of a list that has no entry for its head: \<^verbatim>\<open>numsons\<close> is one less than the
  number of children. The list of the siblings, from the caller on, has the head of the list in the caller's place.\<close>

lemma family_counts:
  assumes r: "represents k p"
  shows "sys_numsons k = Some (int (length (the (p_sons p (p_run p)))) - 1, k)"
    "p_sons p q = Some l \<Longrightarrow> p_run p \<in> set l \<Longrightarrow> sys_numbros k = Some (int (length l) - 1, k)"
proof -
  from r obtain F where F: "kernel_inv k (p_free p) (p_ready p) (p_blocked p) (p_sons p) (p_idle p) F" and cu: "current k = p_run p"
    by (blast elim: representsE)
  note L = sched_invD(1)[OF kernel_invD(1)[OF F]]
  have len: "length ks \<le> 10" if "p_sons p q = Some ks" for q ks
  proof -
    have "set ks \<subseteq> users k (p_ready p) (p_blocked p) (p_idle p)" using kernel_invD(2)[OF F] that unfolding tree_ok_def by blast
    then have "set ks \<subseteq> {..<10}" using users_facts(1)[OF F] by blast
    then show ?thesis using sons_distinct[OF L that] card_mono[of "{..<10}" "set ks"] by (simp add: distinct_card)
  qed
  obtain ks where ks: "p_sons p (current k) = Some ks" using sons_defined[OF F] by blast
  have "list_size (heap k) (Some (Sons (current k))) = Some (int (length (map Bros ks)))"
    by (rule list_size_dlist[OF sons_dlist[OF L ks]]) (use len[OF ks] in simp)
  then show "sys_numsons k = Some (int (length (the (p_sons p (p_run p)))) - 1, k)"
    using ks cu len[OF ks] by (simp add: sys_numsons_def wrap32_id)
  assume q: "p_sons p q = Some l" "p_run p \<in> set l"
  from split_list[OF q(2)] obtain xs ys where l: "l = xs @ current k # ys" unfolding cu by blast
  have "dlist (heap k) (Bros (current k)) (map Bros ys @ Sons q # map Bros xs)"
    by (rule dlist_rotate) (use sons_dlist[OF L q(1)] l in simp)
  from list_size_dlist[OF this] len[OF q(1)] l show "sys_numbros k = Some (int (length l) - 1, k)"
    by (simp add: sys_numbros_def wrap32_id)
qed

lemma family_harmless:
  assumes r: "represents k p"
  shows "harmless p (sys_numsons k)" "\<not> orphan (p_sons p) (p_run p) \<Longrightarrow> harmless p (sys_numbros k)"
  using family_counts[OF r] r by (auto simp: harmless_def orphan_def)

subsection \<open>Every event\<close>

text \<open>The calls that manage processes, and the others.\<close>

lemma process_call_represents:
  assumes r: "represents k p" and c: "p_run p \<noteq> p_idle p" and e: "7 \<le> snd (esp k)" "snd (esp k) \<le> KERNEL_STACK_SIZE"
    and n: "n = 1 \<or> n = 2 \<or> n = 18 \<or> n = 19" and ok: "call_ok n a k p"
  shows "\<exists>v k'. sys_call_table img n a k = Some (v, k') \<and> represents k' (proc_step (Syscall s n a) p)"
proof -
  note ok' = ok[unfolded call_ok_def]
  from n show ?thesis
  proof (elim disjE)
    assume "n = 1"
    then show ?thesis using exit_represents[OF r c e] ok' by (auto simp: sys_call_table_def)
  next
    assume "n = 2"
    then show ?thesis using fork_represents[OF r c] ok' by (auto simp: sys_call_table_def returning_def)
  next
    assume "n = 18"
    then show ?thesis using block_represents[OF r c e] ok' by (auto simp: sys_call_table_def returning_def)
  next
    assume "n = 19"
    then show ?thesis using unblock_represents[OF r, of "sint (arg_edx a)"] by (auto simp: sys_call_table_def returning_def)
  qed
qed

lemma other_call_harmless:
  assumes r: "represents k p" and c: "p_run p \<noteq> p_idle p" and kb: "kernel_buffer (kern_buff img)"
    and n: "0 \<le> n" "n < 23" "\<not> (n = 1 \<or> n = 2 \<or> n = 18 \<or> n = 19)" and ok: "call_ok n a k p"
  shows "\<exists>x. sys_call_table img n a k = returning x \<and> harmless p x"
proof -
  note ok' = ok[unfolded call_ok_def]
  consider "n = 3" | "n = 4" | "n = 10" | "n = 11" | "n = 12" | "n = 15" | "n = 16" | "n = 17" | "n = 20" | "n = 21" | "n = 22"
    | "n \<notin> {3, 4, 10, 11, 12, 15, 16, 17, 20, 21, 22}" by auto
  then show ?thesis
  proof cases
    case 1
    then show ?thesis using read_harmless[OF r c] ok' by (auto simp: sys_call_table_def)
  next
    case 2
    then show ?thesis using write_harmless[OF r c kb] ok' by (auto simp: sys_call_table_def)
  next
    case 3
    then show ?thesis using r by (auto simp: sys_call_table_def sys_gettime_def)
  next
    case 4
    then show ?thesis using screen_harmless(1)[OF r] by (auto simp: sys_call_table_def)
  next
    case 5
    then show ?thesis using screen_harmless(2)[OF r] by (auto simp: sys_call_table_def)
  next
    case 6
    have "harmless p (sys_shmat (sint (arg_edx a)) (arg_ecx a) k)" by (rule shmat_harmless[OF r c]) (use ok' 6 in metis)
    then show ?thesis using 6 by (auto simp: sys_call_table_def)
  next
    case 7
    have "harmless p (sys_shmdt (arg_edx a) k)" by (rule shmdt_harmless[OF r c]) (use ok' 7 in metis)
    then show ?thesis using 7 by (auto simp: sys_call_table_def)
  next
    case 8
    then show ?thesis using shmrm_harmless[OF r] by (auto simp: sys_call_table_def)
  next
    case 9
    then show ?thesis using r by (auto simp: sys_call_table_def sys_getpid_def)
  next
    case 10
    then show ?thesis using family_harmless(1)[OF r] by (auto simp: sys_call_table_def)
  next
    case 11
    then show ?thesis using family_harmless(2)[OF r] ok' by (auto simp: sys_call_table_def)
  next
    case 12
    then have "sys_call_table img n a k = returning (sys_ni_syscall k)"
      using n by (simp add: sys_call_table_def)
    then show ?thesis using r by (auto simp: sys_ni_syscall_def)
  qed
qed

lemma syscall_represents:
  assumes r: "represents k p" and c: "p_run p \<noteq> p_idle p" and e: "7 \<le> snd (esp k)" "snd (esp k) \<le> KERNEL_STACK_SIZE"
    and kb: "kernel_buffer (kern_buff img)" and n: "0 \<le> n" "n \<le> MAX_SYSCALL" and ok: "call_ok n a k p"
  shows "\<exists>v k'. sys_call_table img n a k = Some (v, k') \<and> represents k' (proc_step (Syscall s n a) p)"
proof (cases "n = 1 \<or> n = 2 \<or> n = 18 \<or> n = 19")
  case True
  then show ?thesis by (rule process_call_represents[OF r c e _ ok])
next
  case False
  have "n < 23" using n ok by (auto simp: call_ok_def)
  from other_call_harmless[OF r c kb n(1) this False ok] show ?thesis using False by (auto simp: returning_def harmless_def)
qed

lemma handle_represents:
  assumes r: "represents k p" and en: "enabled img ev k p"
  shows "\<exists>k'. handle img ev k = Some k' \<and> represents k' (proc_step ev p)"
proof (cases ev)
  case (Clock e)
  then show ?thesis using clock_represents[OF r] en by simp
next
  case (Keyboard key)
  then show ?thesis using keyboard_represents[OF r] by simp
next
  case (Syscall e n a)
  have ok: "slot_ok e" "p_run p \<noteq> p_idle p" "kernel_buffer (kern_buff img)" "call_ok n a k p" using en Syscall by simp_all
  from r obtain F where F: "kernel_inv k (p_free p) (p_ready p) (p_blocked p) (p_sons p) (p_idle p) F" by (blast elim: representsE)
  have m: "fst (msr_esp k) = current k" using kernel_invD(1)[OF F] by (simp add: sched_inv_def cpu_ok_def)
  let ?k = "on_stack (current k) (fst e) (snd e) k"
  have r': "represents ?k p" by (rule represents_entry[OF r])
  have e: "7 \<le> snd (esp ?k)" "snd (esp ?k) \<le> 1024" using ok(1) by (simp_all add: slot_ok_def on_stack_def)
  have ok': "call_ok n a ?k p" using ok(4) by (simp add: call_ok_def on_stack_def)
  show ?thesis
  proof (cases "n < 0 \<or> n > 23")
    case True
    then show ?thesis using Syscall r' m by (auto simp: sys_call_handler_sysenter_def Let_def)
  next
    case False
    then show ?thesis
      using syscall_represents[OF r' ok(2) e ok(3) _ _ ok', where s = e] Syscall m
      by (fastforce simp: sys_call_handler_sysenter_def Let_def)
  qed
qed

lemma run_represents:
  "represents k p \<Longrightarrow> admissible img evs k p \<Longrightarrow>
     \<exists>k'. run_events img evs k = Some k' \<and> represents k' (fold proc_step evs p)"
proof (induction evs arbitrary: k p)
  case (Cons ev evs)
  then obtain k1 where "handle img ev k = Some k1" "represents k1 (proc_step ev p)" using handle_represents by fastforce
  then show ?case using Cons by fastforce
qed simp

subsection \<open>Runs from power on\<close>

definition booted_procs :: "kstate \<Rightarrow> procs" where
  "booted_procs k = \<lparr>p_idle = 9, p_run = 8, p_free = [7, 6, 5, 4, 3, 2, 1, 0], p_ready = [], p_blocked = [],
     p_sons = [9 \<mapsto> [], 8 \<mapsto> []], p_ticks = 0, p_next = 2, p_pid = (\<lambda>t. PID (task k t)), p_parent = (\<lambda>t. parent (task k t)),
     p_quantum = (\<lambda>t. quantum (task k t)), p_pending = (\<lambda>t. pending_unblocks (task k t))\<rparr>"

lemma booted_represents:
  assumes "power_on M"
  shows "\<exists>M'. zeos_main l M = Some M' \<and> represents (kern M') (booted_procs (kern M')) \<and>
    PID (task (kern M') 8) = 1 \<and> quantum (task (kern M') 8) = 1 \<and> card (free_pages (mm (kern M')) 8) = 740"
proof -
  obtain M' F where M': "zeos_main l M = Some M'" "kernel_inv (kern M') [7, 6, 5, 4, 3, 2, 1, 0] [] [] [9 \<mapsto> [], 8 \<mapsto> []] 9 F"
      "current (kern M') = 8" "PID (task (kern M') 8) = 1" "quantum (task (kern M') 8) = 1"
      "ticks_since_last_switch (kern M') = 0" "next_pid (kern M') = 2"
      "\<forall>u p. u < 10 \<longrightarrow> 284 \<le> p \<and> p < 1024 \<longrightarrow> pt_entry (mm (kern M')) u p = 0"
    using boot_result[OF assms, of l] by blast
  have "represents (kern M') (booted_procs (kern M'))"
    unfolding represents_def using M'(2,3,6,7) by (auto simp: booted_procs_def pcb_agrees_def)
  moreover have "free_pages (mm (kern M')) 8 = {284..<1024}" using M'(8) by (auto simp: free_pages_def)
  ultimately show ?thesis using M'(1,4,5) by (intro exI[of _ M']) simp
qed

text \<open>C1: The kernel as a whole refines the abstract machine of processes. After power on, \<^verbatim>\<open>main\<close> reaches a
  state in which process 1 runs, idle and no other process exists; from there every sequence of clock
  interrupts, key strokes and system calls that the kernel is prepared for is handled without a fault,
  and the running process, the queues, the process tree, the PIDs, quanta and pending unblocks are at
  every moment those of the abstract machine, which moves only lists.\<close>

theorem kernel_runs_refine:
  assumes "power_on M"
  shows "\<exists>M'. zeos_main l M = Some M' \<and> represents (kern M') (booted_procs (kern M')) \<and>
    PID (task (kern M') 8) = 1 \<and> quantum (task (kern M') 8) = 1 \<and> card (free_pages (mm (kern M')) 8) = 740 \<and>
    (\<forall>img evs. admissible img evs (kern M') (booted_procs (kern M')) \<longrightarrow>
       (\<exists>k. run_events img evs (kern M') = Some k \<and> represents k (fold proc_step evs (booted_procs (kern M')))))"
  using booted_represents[OF assms, of l] run_represents by blast

theorem kernel_runs_refine_witness:
  "\<exists>M' k. zeos_main blank_linkage blank_machine = Some M' \<and>
     run_events \<lparr>kern_buff = 0x20000, behind_map = (\<lambda>_. 0), stack_bytes = (\<lambda>_. 0), behind_table = (\<lambda>_ _. None)\<rparr>
       [Keyboard 30, Syscall (1000, \<lambda>_. KWord 0) 2 \<lparr>arg_edx = 0, arg_ecx = 0, arg_ebx = 0\<rparr>,
        Clock (1000, \<lambda>_. KWord 0), Clock (1000, \<lambda>_. KWord 0)] (kern M') = Some k \<and>
     current k = 7 \<and> PID (task k 7) = 2 \<and> parent (task k 7) = Some 8"
proof -
  let ?img = "\<lparr>kern_buff = 0x20000, behind_map = (\<lambda>_. 0), stack_bytes = (\<lambda>_. 0), behind_table = (\<lambda>_ _. None)\<rparr>"
  let ?s = "(1000::nat, \<lambda>_::nat. KWord 0)" and ?a = "\<lparr>arg_edx = 0, arg_ecx = 0, arg_ebx = 0\<rparr>"
  let ?evs = "[Keyboard 30, Syscall ?s 2 ?a, Clock ?s, Clock ?s]"
  obtain M' where M': "zeos_main blank_linkage blank_machine = Some M'" "PID (task (kern M') 8) = 1" "quantum (task (kern M') 8) = 1"
      "card (free_pages (mm (kern M')) 8) = 740"
      "\<And>img evs. admissible img evs (kern M') (booted_procs (kern M')) \<Longrightarrow>
         \<exists>k. run_events img evs (kern M') = Some k \<and> represents k (fold proc_step evs (booted_procs (kern M')))"
    using kernel_runs_refine[OF power_on_blank, of blank_linkage] by blast
  let ?p = "booted_procs (kern M')"
  have "admissible ?img ?evs (kern M') ?p"
    using M'(4) by (simp add: slot_ok_def call_ok_def kernel_buffer_def booted_procs_def kbd_routine_def Let_def)
  from M'(5)[OF this] obtain k where k: "run_events ?img ?evs (kern M') = Some k" "represents k (fold proc_step ?evs ?p)" by blast
  have "p_run (fold proc_step ?evs ?p) = 7" "p_pid (fold proc_step ?evs ?p) 7 = 2" "p_parent (fold proc_step ?evs ?p) 7 = Some 8"
    using M'(3) by (simp_all add: booted_procs_def spec_fork_def spec_clock_def pick_def)
  then show ?thesis using M'(1) k by (auto simp: represents_def pcb_agrees_def)
qed

end
