(* ===== verification/Zeos_Pacman.thy ===== *)
theory Zeos_Pacman
  imports Zeos_Libc Zeos_Io
begin

text \<open>
  The game of the user program: \<^verbatim>\<open>pacman.c\<close>, \<^verbatim>\<open>include/pacman.h\<close> and the frame of \<^verbatim>\<open>user.c\<close>.

  Coordinates, scores and timers are 32-bit unsigned words. The board \<^verbatim>\<open>map[y][x]\<close> is a function of
  row and column; reading outside of it yields some character of memory (the invariant below
  shows that the game never does). The seed of \<^verbatim>\<open>rand\<close> is passed along. A routine that draws
  returns the list of the console calls it makes.
\<close>

subsection \<open>Data\<close>

datatype Algorithm = RANDOM | BFS | DFS | DIJKSTRA
datatype Direction = UP | DOWN | RIGHT | LEFT | NONE
datatype Behaviour = CHASE | RUN_AWAY | STILL

record Point =
  px :: DWord
  py :: DWord

record LeaderboardEntry =
  lb_name :: string
  lb_score :: DWord

record Ghost =
  g_spawnPoint :: Point
  g_position :: Point
  g_direction :: Direction
  g_skin :: char
  g_tile :: char
  g_fg_color :: int
  g_bg_color :: int
  g_isAlive :: DWord
  g_deadTimer :: DWord
  g_algorithm :: Algorithm
  g_behaviour :: Behaviour

record Pacman =
  p_position :: Point
  p_spawnPoint :: Point
  p_direction :: Direction
  p_fg_color :: int
  p_bg_color :: int
  p_skin :: char
  p_isBoosted :: DWord
  p_boostedTimer :: DWord
  p_isAlive :: DWord
  p_respawnTimer :: DWord

record GameState =
  pacman :: Pacman
  ghosts :: "nat \<Rightarrow> Ghost"
  score :: DWord
  lives :: DWord
  pelletsRemaining :: DWord
  level :: DWord
  gmap :: "nat \<Rightarrow> nat \<Rightarrow> char"
  leaderboard :: "nat \<Rightarrow> LeaderboardEntry"
  leaderboardSize :: int
  currentPlayer :: string

record PriorityNode =
  pn_position :: Point
  pn_priority :: int

abbreviation (input) MAX_NAME_LENGTH :: nat where "MAX_NAME_LENGTH \<equiv> 10"
abbreviation (input) MAX_LEADERBOARD_ENTRIES :: int where "MAX_LEADERBOARD_ENTRIES \<equiv> 2"
abbreviation (input) NUM_LIVES :: DWord where "NUM_LIVES \<equiv> 1"
abbreviation (input) MAP_HEIGHT :: nat where "MAP_HEIGHT \<equiv> 24"
abbreviation (input) MAP_WIDTH :: nat where "MAP_WIDTH \<equiv> 80"
abbreviation (input) NUM_GHOSTS :: nat where "NUM_GHOSTS \<equiv> 4"
abbreviation (input) PELLET_POINTS :: DWord where "PELLET_POINTS \<equiv> 10"
abbreviation (input) BOOSTER_POINTS :: DWord where "BOOSTER_POINTS \<equiv> 50"
abbreviation (input) GHOST_POINTS :: DWord where "GHOST_POINTS \<equiv> 200"
abbreviation (input) BOOSTED_TIME :: DWord where "BOOSTED_TIME \<equiv> 5000"
abbreviation (input) RESPAWN_TIME :: DWord where "RESPAWN_TIME \<equiv> 3000"

abbreviation (input) GREEN :: int where "GREEN \<equiv> 2"
abbreviation (input) CYAN :: int where "CYAN \<equiv> 3"
abbreviation (input) RED :: int where "RED \<equiv> 4"
abbreviation (input) LIGHT_GREEN :: int where "LIGHT_GREEN \<equiv> 10"
abbreviation (input) LIGHT_CYAN :: int where "LIGHT_CYAN \<equiv> 11"
abbreviation (input) LIGHT_RED :: int where "LIGHT_RED \<equiv> 12"
abbreviation (input) LIGHT_MAGENTA :: int where "LIGHT_MAGENTA \<equiv> 13"

subsection \<open>The priority queue\<close>

text \<open>The queue is an array with the indices \<^verbatim>\<open>front\<close> and \<^verbatim>\<open>rear\<close>.\<close>

definition enqueue ::
  "(nat \<Rightarrow> PriorityNode) \<Rightarrow> nat \<Rightarrow> Point \<Rightarrow> int \<Rightarrow> (nat \<Rightarrow> PriorityNode) \<times> nat" where
  "enqueue queue rear position priority =
     (queue(rear := \<lparr>pn_position = position, pn_priority = priority\<rparr>), rear + 1)"

definition min_index :: "(nat \<Rightarrow> PriorityNode) \<Rightarrow> nat \<Rightarrow> nat \<Rightarrow> nat" where
  "min_index queue front rear =
     fold (\<lambda>i minIndex. if pn_priority (queue i) < pn_priority (queue minIndex) then i else minIndex)
       [front + 1..<rear] front"

definition dequeue ::
  "(nat \<Rightarrow> PriorityNode) \<Rightarrow> nat \<Rightarrow> nat \<Rightarrow> PriorityNode \<times> (nat \<Rightarrow> PriorityNode) \<times> nat" where
  "dequeue queue front rear =
     (let minIndex = min_index queue front rear;
          node = queue minIndex;
          queue = fold (\<lambda>i queue. queue(i := queue (i + 1))) [minIndex..<rear - 1] queue
      in (node, queue, front + 1))"

subsection \<open>The boards\<close>

definition board0 :: "string list" where
  "board0 =
     [''################################################################################'',
      ''#*...................................#####....................................*#'',
      ''#.###.###.###.###.###.###.###.###.##.#####.##.###.###.###.###.###.###.###.####.#'',
      ''#.###.###.###.###.###.###.###.###.##.#####.##.###.###.###.###.###.###.###.####.#'',
      ''#.###.###.###.###.###*###.###.###.##.#####.##.###.###.###*###.###.###.###.####.#'',
      ''#.............###.###.###.###.###.##.#####.##.###.###.###.###.###..............#'',
      ''#.###.###.###.###.###.###.###.###.##.#####.##.###.###.###.###.###.###.###.####.#'',
      ''#.###.###.###.###.###.###..............*..............###.###.###.###.###.####.#'',
      ''#.###.###.###.###.###.###.#######.###########.#######.###.###.###.###.###.####.#'',
      ''#*........................#######.#.........#.#######.........................*#'',
      ''#################.###.###.........#.........#.........###.###.##################'',
      ''#################*###.###.#########.........#########.###*###.##################'',
      ''#################.###.###..............*..............###.###.##################'',
      ''#################.###.###.#########.........#########.###.###.##################'',
      ''#*................................#.........#.................................*#'',
      ''#.###.###.###.###.###.###.#######.#.........#.#######.###.###.###.###.###.####.#'',
      ''#.###.###.###.###.###.###.#######.#.........#.#######.###.###.###.###.###.####.#'',
      ''#.###.###.###.###.###.###.#######.###########.#######.###.###.###.###.###.####.#'',
      ''#.............###.###.###..............*..............###.###.###..............#'',
      ''#.###.###.###.###.###*###.###.###.##.#####.##.###.###.###*###.###.###.###.####.#'',
      ''#.###.###.###.###.###.###.###.###.##.#####.##.###.###.###.###.###.###.###.####.#'',
      ''#.###.###.###.###.###.###.###.###.##.#####.##.###.###.###.###.###.###.###.####.#'',
      ''#*...................................#####....................................*#'',
      ''################################################################################'']"

definition board1 :: "string list" where
  "board1 =
     [''################################################################################'',
      ''#.................*..........................................................*.#'',
      ''#..............................................................................#'',
      ''#...######...############...####...############...#######...####...#########...#'',
      ''#...######...############...####...############...#######...####...#########...#'',
      ''#..........*....................................*..............................#'',
      ''#...######...####...############...#######...#######...############.*.#######..#'',
      ''#...######...####...############.*.#######...#######...############...#######..#'',
      ''#..............................................................................#'',
      ''#..*######...################...########...#######...########...###########....#'',
      ''#...######...################...########...#######...########...###########*...#'',
      ''#..............................................................................#'',
      ''#...####...*..###############....########...*..#################...*...####....#'',
      ''#...####......###############....########......#################.......####....#'',
      ''#..............................................................................#'',
      ''#...######...##########...#######.......###############...#######...########...#'',
      ''#...######...##########...#######.......###############...#######...########...#'',
      ''#..............................................................................#'',
      ''#...######...################...#######...#######...################...#####...#'',
      ''#...######.*.################...#######...#######.*.################.*.#####...#'',
      ''#...######...################...#######...#######...################...#####...#'',
      ''#..............................................................................#'',
      ''#.*...........................*................................................#'',
      ''################################################################################'']"

text \<open>A row with its terminator. Only the levels 0 and 1 exist.\<close>

definition predefinedMaps :: "nat \<Rightarrow> nat \<Rightarrow> string" where
  "predefinedMaps lvl row = (if lvl = 0 then board0 else board1) ! row @ [CHR 0x00]"

subsection \<open>Input\<close>

definition with_pacman :: "(Pacman \<Rightarrow> Pacman) \<Rightarrow> GameState \<Rightarrow> GameState" where
  "with_pacman f game = game\<lparr>pacman := f (pacman game)\<rparr>"

definition with_ghost :: "nat \<Rightarrow> (Ghost \<Rightarrow> Ghost) \<Rightarrow> GameState \<Rightarrow> GameState" where
  "with_ghost i f game = game\<lparr>ghosts := (ghosts game)(i := f (ghosts game i))\<rparr>"

definition processInput :: "GameState \<Rightarrow> Byte \<Rightarrow> GameState" where
  "processInput game input =
     (let input = lower input in
      with_pacman (\<lambda>p. p\<lparr>p_direction :=
        (if input = 119 then UP else if input = 115 then DOWN else if input = 97 then LEFT
         else if input = 100 then RIGHT else NONE)\<rparr>) game)"

subsection \<open>Initialisation\<close>

definition initializeMap :: "GameState \<Rightarrow> GameState" where
  "initializeMap game = game\<lparr>gmap := \<lambda>y x.
     if y < MAP_HEIGHT \<and> x \<le> MAP_WIDTH then predefinedMaps (unat (level game)) y ! x else gmap game y x\<rparr>"

definition ghost_alg :: "nat \<Rightarrow> Algorithm" where
  "ghost_alg i = [RANDOM, BFS, DFS, DIJKSTRA] ! i"

definition ghost_color :: "nat \<Rightarrow> int" where
  "ghost_color i = [LIGHT_CYAN, LIGHT_MAGENTA, LIGHT_GREEN, RED] ! i"

definition initializeGhosts :: "GameState \<Rightarrow> (nat \<Rightarrow> Point) \<Rightarrow> GameState" where
  "initializeGhosts game spawn = fold (\<lambda>i. with_ghost i (\<lambda>_.
     \<lparr>g_spawnPoint = spawn i, g_position = spawn i, g_direction = NONE, g_skin = CHR ''0'', g_tile = CHR ''.'',
       g_fg_color = ghost_color i, g_bg_color = BLACK, g_isAlive = 1, g_deadTimer = 0,
       g_algorithm = ghost_alg i, g_behaviour = CHASE\<rparr>)) [0..<NUM_GHOSTS] game"

definition set_cell :: "Point \<Rightarrow> char \<Rightarrow> GameState \<Rightarrow> GameState" where
  "set_cell p c game = game\<lparr>gmap := (gmap game)(unat (py p) := (gmap game (unat (py p)))(unat (px p) := c))\<rparr>"

definition get_cell :: "GameState \<Rightarrow> Point \<Rightarrow> char" where
  "get_cell game p = gmap game (unat (py p)) (unat (px p))"

definition initializePacman :: "GameState \<Rightarrow> Point \<Rightarrow> GameState" where
  "initializePacman game spawn = set_cell spawn (CHR ''C'') (with_pacman (\<lambda>_.
     \<lparr>p_position = spawn, p_spawnPoint = spawn, p_direction = NONE, p_fg_color = WHITE, p_bg_color = BLACK,
       p_skin = CHR ''C'', p_isBoosted = 0, p_boostedTimer = 0, p_isAlive = 1, p_respawnTimer = 0\<rparr>) game)"

definition initializeLeaderboard :: "GameState \<Rightarrow> GameState" where
  "initializeLeaderboard game = fold (\<lambda>i game. game\<lparr>leaderboard := (leaderboard game)(i :=
     \<lparr>lb_name = ''sus'', lb_score = 0\<rparr>)\<rparr>) [0..<nat MAX_LEADERBOARD_ENTRIES] (game\<lparr>leaderboardSize := 0\<rparr>)"

definition pt :: "DWord \<Rightarrow> DWord \<Rightarrow> Point" where
  "pt x y = \<lparr>px = x, py = y\<rparr>"

definition initializeRound :: "GameState \<Rightarrow> DWord \<Rightarrow> DWord \<Rightarrow> DWord \<Rightarrow> string \<Rightarrow> GameState" where
  "initializeRound game lv li sc player =
     (let game = game\<lparr>score := sc, lives := li, level := lv, currentPlayer := player\<rparr>;
          pacman_spawn = (if level game = 0 then pt 36 1 else pt 42 10);
          ghost_spawns = (\<lambda>i. (if level game = 0 then [pt 38 11, pt 40 11, pt 38 13, pt 40 13]
                               else [pt 78 1, pt 1 22, pt 1 1, pt 78 22]) ! i);
          game = game\<lparr>pelletsRemaining := if level game = 0 then 736 else 1013\<rparr>
      in initializeGhosts (initializePacman (initializeMap game) pacman_spawn) ghost_spawns)"

subsection \<open>Collision and movement\<close>

definition isPellet :: "GameState \<Rightarrow> Point \<Rightarrow> bool" where
  "isPellet game p \<longleftrightarrow> get_cell game p = CHR ''.''"

definition isWall :: "GameState \<Rightarrow> Point \<Rightarrow> bool" where
  "isWall game p \<longleftrightarrow> get_cell game p = CHR ''#''"

definition isBooster :: "GameState \<Rightarrow> Point \<Rightarrow> bool" where
  "isBooster game p \<longleftrightarrow> get_cell game p = CHR ''*''"

definition isEmpty :: "GameState \<Rightarrow> Point \<Rightarrow> bool" where
  "isEmpty game p \<longleftrightarrow> get_cell game p = CHR '' ''"

definition equalPoints :: "Point \<Rightarrow> Point \<Rightarrow> bool" where
  "equalPoints a b \<longleftrightarrow> px a = px b \<and> py a = py b"

definition isGhost :: "GameState \<Rightarrow> Point \<Rightarrow> bool" where
  "isGhost game p \<longleftrightarrow> list_ex (\<lambda>i. equalPoints (g_position (ghosts game i)) p) [0..<NUM_GHOSTS]"

definition isValidMove :: "GameState \<Rightarrow> Point \<Rightarrow> bool" where
  "isValidMove game p \<longleftrightarrow> px p \<ge> 0 \<and> px p < of_nat MAP_WIDTH \<and> py p \<ge> 0 \<and> py p < of_nat MAP_HEIGHT \<and>
     \<not> isWall game p"

definition determineDirection :: "Point \<Rightarrow> Point \<Rightarrow> Direction" where
  "determineDirection start nx =
     (if px nx > px start then RIGHT else if px nx < px start then LEFT
      else if py nx > py start then DOWN else if py nx < py start then UP else NONE)"

text \<open>\<^verbatim>\<open>rand_range(0, 4)\<close> never divides by zero.\<close>

definition random :: "DWord \<Rightarrow> Direction \<times> DWord" where
  "random seed = (case rand_range 0 4 seed of None \<Rightarrow> (NONE, seed)
     | Some (r, seed) \<Rightarrow>
         (if r = 0 then UP else if r = 1 then DOWN else if r = 2 then LEFT else if r = 3 then RIGHT else NONE, seed))"

definition getNextPoint :: "Point \<Rightarrow> Direction \<Rightarrow> Point" where
  "getNextPoint p d = (case d of UP \<Rightarrow> p\<lparr>py := py p + 1\<rparr> | DOWN \<Rightarrow> p\<lparr>py := py p - 1\<rparr>
     | RIGHT \<Rightarrow> p\<lparr>px := px p + 1\<rparr> | LEFT \<Rightarrow> p\<lparr>px := px p - 1\<rparr> | NONE \<Rightarrow> p)"

definition removeItem :: "GameState \<Rightarrow> Point \<Rightarrow> GameState" where
  "removeItem game p = set_cell p (CHR '' '') game"

subsection \<open>Updating the state\<close>

definition updateLeaderboard :: "GameState \<Rightarrow> string \<Rightarrow> int \<Rightarrow> GameState" where
  "updateLeaderboard game name sc =
     (if leaderboardSize game < MAX_LEADERBOARD_ENTRIES then
        game\<lparr>leaderboard := (leaderboard game)(nat (leaderboardSize game) :=
              \<lparr>lb_name = name, lb_score = word_of_int sc\<rparr>),
            leaderboardSize := leaderboardSize game + 1\<rparr>
      else game)"

definition changeGhostsBehaviour :: "Behaviour \<Rightarrow> GameState \<Rightarrow> GameState" where
  "changeGhostsBehaviour bh game = fold (\<lambda>i. with_ghost i (\<lambda>g. g\<lparr>g_behaviour := bh,
     g_fg_color := (if bh = RUN_AWAY then CYAN else ghost_color i)\<rparr>)) [0..<NUM_GHOSTS] game"

definition pacman_next :: "Pacman \<Rightarrow> Point" where
  "pacman_next p = (case p_direction p of
     UP \<Rightarrow> (p_position p)\<lparr>py := py (p_position p) - 1\<rparr> | DOWN \<Rightarrow> (p_position p)\<lparr>py := py (p_position p) + 1\<rparr>
   | LEFT \<Rightarrow> (p_position p)\<lparr>px := px (p_position p) - 1\<rparr> | RIGHT \<Rightarrow> (p_position p)\<lparr>px := px (p_position p) + 1\<rparr>
   | NONE \<Rightarrow> p_position p)"

definition consume :: "Point \<Rightarrow> GameState \<Rightarrow> GameState" where
  "consume nx game =
     (if isPellet game nx then removeItem (game\<lparr>score := score game + PELLET_POINTS\<rparr>) nx
      else if isBooster game nx then
        changeGhostsBehaviour RUN_AWAY
          (with_pacman (\<lambda>p. p\<lparr>p_isBoosted := 1, p_boostedTimer := BOOSTED_TIME\<rparr>)
            (removeItem (game\<lparr>score := score game + BOOSTER_POINTS\<rparr>) nx))
      else game)"

definition pacman_move :: "Point \<Rightarrow> GameState \<Rightarrow> GameState" where
  "pacman_move nx game =
     (if \<not> isWall game nx then
        let game = set_cell (p_position (pacman game)) (CHR '' '') game;
            game = with_pacman (\<lambda>p. p\<lparr>p_position := nx\<rparr>) game;
            game = consume nx game
        in set_cell (p_position (pacman game)) (CHR ''C'') game
      else game)"

text \<open>The loop over the ghosts, with the \<^verbatim>\<open>break\<close> when a ghost has caught the player.\<close>

fun ghost_collisions :: "Point \<Rightarrow> nat list \<Rightarrow> GameState \<Rightarrow> GameState" where
  "ghost_collisions nx [] game = game"
| "ghost_collisions nx (i # is) game =
     (let hit = (equalPoints (g_position (ghosts game i)) nx \<and> g_isAlive (ghosts game i) \<noteq> 0) in
      if p_isBoosted (pacman game) \<noteq> 0 then
        ghost_collisions nx is
          (if hit then (with_ghost i (\<lambda>g. g\<lparr>g_position := g_spawnPoint g, g_deadTimer := RESPAWN_TIME, g_isAlive := 0\<rparr>) game)
             \<lparr>score := score game + GHOST_POINTS\<rparr>
           else game)
      else if hit then
        changeGhostsBehaviour STILL (with_pacman (\<lambda>p. p\<lparr>p_position := p_spawnPoint p, p_isAlive := 0,
          p_respawnTimer := RESPAWN_TIME\<rparr>) (game\<lparr>lives := lives game - 1\<rparr>))
      else ghost_collisions nx is game)"

definition updatePacmanPosition :: "GameState \<Rightarrow> GameState" where
  "updatePacmanPosition game =
     (let nextPosition = pacman_next (pacman game);
          game = pacman_move nextPosition game
      in if isGhost game nextPosition then ghost_collisions nextPosition [0..<NUM_GHOSTS] game else game)"

text \<open>The timers are unsigned: \<^verbatim>\<open><= 0\<close> is a test for 0.\<close>

definition ghost_timer :: "DWord \<Rightarrow> nat \<Rightarrow> GameState \<Rightarrow> GameState" where
  "ghost_timer elapsedTime i game =
     (if g_isAlive (ghosts game i) = 0 then
        let game = with_ghost i (\<lambda>g. g\<lparr>g_deadTimer := g_deadTimer g - elapsedTime\<rparr>) game
        in if g_deadTimer (ghosts game i) \<le> 0 then with_ghost i (\<lambda>g. g\<lparr>g_isAlive := 1\<rparr>) game else game
      else game)"

definition boost_timer :: "DWord \<Rightarrow> GameState \<Rightarrow> GameState" where
  "boost_timer elapsedTime game =
     (if p_isBoosted (pacman game) \<noteq> 0 then
        let game = with_pacman (\<lambda>p. p\<lparr>p_boostedTimer := p_boostedTimer p - elapsedTime\<rparr>) game
        in if p_boostedTimer (pacman game) \<le> 0
           then changeGhostsBehaviour CHASE (with_pacman (\<lambda>p. p\<lparr>p_isBoosted := 0\<rparr>) game) else game
      else game)"

definition respawn_timer :: "DWord \<Rightarrow> GameState \<Rightarrow> GameState" where
  "respawn_timer elapsedTime game =
     (if p_isAlive (pacman game) = 0 then
        let game = with_pacman (\<lambda>p. p\<lparr>p_respawnTimer := p_respawnTimer p - elapsedTime\<rparr>) game
        in if p_respawnTimer (pacman game) \<le> 0
           then changeGhostsBehaviour CHASE (with_pacman (\<lambda>p. p\<lparr>p_isAlive := 1\<rparr>) game) else game
      else game)"

definition updateTimerState :: "DWord \<Rightarrow> GameState \<Rightarrow> GameState" where
  "updateTimerState elapsedTime game =
     fold (ghost_timer elapsedTime) [0..<NUM_GHOSTS] (respawn_timer elapsedTime (boost_timer elapsedTime game))"

subsection \<open>Ghosts\<close>

text \<open>The loop that draws directions until the ghost faces neither a wall nor a ghost; it need not end.\<close>

partial_function (option) ghost_retry :: "GameState \<Rightarrow> Point \<Rightarrow> Point \<Rightarrow> DWord \<Rightarrow> (Point \<times> DWord) option" where
  "ghost_retry game initial nx seed =
     (if isWall game nx \<or> isGhost game nx then
        (case random seed of (d, seed') \<Rightarrow> ghost_retry game initial (getNextPoint initial d) seed')
      else Some (nx, seed))"

definition ghost_char :: "nat \<Rightarrow> char" where
  "ghost_char i = [CHR ''0'', CHR ''1'', CHR ''2'', CHR ''3''] ! i"

text \<open>A valid move: the old cell gets back its tile, the ghost remembers the tile it covers. The
  direction is computed after the position has been changed.\<close>

definition ghost_move :: "nat \<Rightarrow> Point \<Rightarrow> GameState \<Rightarrow> GameState" where
  "ghost_move i nx game =
     (if isValidMove game nx then
        let initialPosition = g_position (ghosts game i);
            game = set_cell initialPosition (g_tile (ghosts game i)) game;
            game = with_ghost i (\<lambda>g. g\<lparr>g_tile := get_cell game nx\<rparr>) game;
            game = (if \<not> isEmpty game nx \<and> \<not> isBooster game nx \<and> \<not> isPellet game nx
                    then with_ghost i (\<lambda>g. g\<lparr>g_tile := CHR '' ''\<rparr>) game else game);
            game = with_ghost i (\<lambda>g. g\<lparr>g_position := nx\<rparr>) game;
            game = set_cell nx (ghost_char i) game
        in with_ghost i (\<lambda>g. g\<lparr>g_direction := determineDirection (g_position g) nx\<rparr>) game
      else game)"

text \<open>Every algorithm of the table calls \<^verbatim>\<open>random\<close>; a ghost that stands still ends the whole update.\<close>

fun updateGhosts_from :: "nat list \<Rightarrow> GameState \<Rightarrow> DWord \<Rightarrow> (GameState \<times> DWord) option" where
  "updateGhosts_from [] game seed = Some (game, seed)"
| "updateGhosts_from (i # is) game seed =
     (if g_isAlive (ghosts game i) \<noteq> 0 then
        if g_behaviour (ghosts game i) = STILL then Some (game, seed)
        else
          let initialPosition = g_position (ghosts game i);
              (dir, seed) = random seed
          in case ghost_retry game initialPosition (getNextPoint initialPosition dir) seed of
               None \<Rightarrow> None
             | Some (nx, seed) \<Rightarrow> updateGhosts_from is (ghost_move i nx game) seed
      else updateGhosts_from is game seed)"

definition updateGhostsPositions :: "GameState \<Rightarrow> DWord \<Rightarrow> (GameState \<times> DWord) option" where
  "updateGhostsPositions game seed = updateGhosts_from [0..<NUM_GHOSTS] game seed"

definition isRoundOver :: "GameState \<Rightarrow> bool" where
  "isRoundOver game \<longleftrightarrow> pelletsRemaining game \<le> 0"

definition playerHasNoLife :: "GameState \<Rightarrow> bool" where
  "playerHasNoLife game \<longleftrightarrow> lives game \<le> 0"

text \<open>The elapsed time is ignored: the timers advance by 100 per update.\<close>

definition updateGameState :: "GameState \<Rightarrow> DWord \<Rightarrow> DWord \<Rightarrow> (GameState \<times> DWord) option" where
  "updateGameState game elapsedTime seed =
     map_option (\<lambda>(game, seed). (updateTimerState 100 game, seed))
       (updateGhostsPositions (updatePacmanPosition game) seed)"

subsection \<open>Drawing\<close>

datatype console_call = Set_color int int | Gotoxy int int | Print "char list"

definition getMapColors :: "GameState \<Rightarrow> char \<Rightarrow> int \<times> int" where
  "getMapColors game c =
     (if c = CHR ''#'' then (LIGHT_RED, BLACK) else if c = CHR ''*'' then (LIGHT_GREEN, BLACK)
      else if c = CHR ''.'' then (LIGHT_CYAN, BLACK) else if c = CHR '' '' then (BLACK, BLACK)
      else if c = CHR ''C'' then (p_fg_color (pacman game), p_bg_color (pacman game))
      else if c = CHR ''0'' then (g_fg_color (ghosts game 0), g_bg_color (ghosts game 0))
      else if c = CHR ''1'' then (g_fg_color (ghosts game 1), g_bg_color (ghosts game 1))
      else if c = CHR ''2'' then (g_fg_color (ghosts game 2), g_bg_color (ghosts game 2))
      else if c = CHR ''3'' then (g_fg_color (ghosts game 3), g_bg_color (ghosts game 3))
      else (WHITE, BLACK))"

text \<open>\<^verbatim>\<open>clear_line\<close> prints a local array of which only the terminator has been set: its contents are
  whatever the stack holds.\<close>

definition clear_line :: "char list \<Rightarrow> int \<Rightarrow> console_call list" where
  "clear_line garbage row = [Set_color BLACK BLACK, Gotoxy 0 row, Print garbage]"

definition renderEntities :: "GameState \<Rightarrow> console_call list" where
  "renderEntities game =
     [Set_color (p_fg_color (pacman game)) (p_bg_color (pacman game)),
      Gotoxy (sint (px (p_position (pacman game)))) (sint (py (p_position (pacman game)))),
      Print [p_skin (pacman game)]] @
     concat (map (\<lambda>i. if g_isAlive (ghosts game i) \<noteq> 0 then
         [Set_color (g_fg_color (ghosts game i)) (p_bg_color (pacman game)),
          Gotoxy (sint (px (g_position (ghosts game i)))) (sint (py (g_position (ghosts game i)))),
          Print [g_skin (ghosts game i)]] else []) [0..<NUM_GHOSTS])"

text \<open>The text \<^verbatim>\<open>itodeca\<close> produces for an \<^verbatim>\<open>int\<close>.\<close>

definition deca_text :: "int \<Rightarrow> char list" where
  "deca_text a = (if a < 0 then [] else map (char_of \<circ> unat) (show_nat 10 dec_digit (nat a)))"

definition renderFooter :: "char list \<Rightarrow> GameState \<Rightarrow> DWord \<Rightarrow> console_call list" where
  "renderFooter garbage game ticks =
     clear_line garbage (int MAP_HEIGHT) @
     [Gotoxy 0 (int MAP_HEIGHT), Set_color WHITE BLACK, Print ''Lives: '', Print (deca_text (sint (lives game))),
      Gotoxy 12 (int MAP_HEIGHT), Set_color WHITE BLACK,
      Print (''FPS: '' @ deca_text (sint (400 div (ticks + 1)))), Print ''     '',
      Print ''Score: '', Print (deca_text (sint (score game))), Print ''                       '',
      Print ''Player: '', Print (currentPlayer game)]"

definition renderCell :: "GameState \<Rightarrow> nat \<Rightarrow> nat \<Rightarrow> console_call list" where
  "renderCell game i j =
     (let c = gmap game i j in
      if c = CHR 0x00 then []
      else case getMapColors game c of (fg, bg) \<Rightarrow> [Set_color fg bg, Print [c]])"

definition renderMap :: "GameState \<Rightarrow> console_call list" where
  "renderMap game =
     Gotoxy 0 0 # concat (map (\<lambda>i. concat (map (renderCell game i) [0..<MAP_WIDTH])) [0..<MAP_HEIGHT])"

definition renderGame :: "char list \<Rightarrow> GameState \<Rightarrow> DWord \<Rightarrow> console_call list" where
  "renderGame garbage game ticks = renderMap game @ renderFooter garbage game ticks"

definition clear_screen :: "console_call list" where
  "clear_screen = Set_color BLACK BLACK #
     concat (map (\<lambda>y. concat (map (\<lambda>x. [Gotoxy (int x) (int y), Print '' '']) [0..<MAP_WIDTH])) [0..<MAP_HEIGHT])"

definition renderIntroduceName :: "console_call list" where
  "renderIntroduceName =
     clear_screen @ [Set_color GREEN BLACK, Gotoxy 10 5] @ replicate 30 (Print ''#'') @
     concat (map (\<lambda>i. [Gotoxy 10 (5 + int i), Print ''#'', Gotoxy (10 + 30 - 1) (5 + int i), Print ''#'']) [1..<3]) @
     Gotoxy 10 (5 + 3) # replicate 30 (Print ''#'') @
     [Gotoxy (10 + 2) (5 + 1), Set_color WHITE BLACK, Print ''Enter your name:'', Gotoxy (10 + 2) (5 + 2)]"

definition renderLeaderboard :: "GameState \<Rightarrow> console_call list" where
  "renderLeaderboard game =
     clear_screen @ [Gotoxy 10 5, Set_color GREEN BLACK, Print ''Leaderboard:'', Set_color GREEN BLACK] @
     concat (map (\<lambda>i. [Gotoxy 10 (7 + int i), Print (deca_text (int i)), Print ''.   '',
         Print (lb_name (leaderboard game i)), Print ''  -  '', Print (deca_text (sint (lb_score (leaderboard game i)))),
         Print [CHR 0x0A]]) [0..<nat (leaderboardSize game)]) @
     [Gotoxy 10 (7 + leaderboardSize game + 2), Print ''Press any key to continue...'']"

definition renderGameOver :: "GameState \<Rightarrow> console_call list" where
  "renderGameOver game =
     clear_screen @ [Gotoxy 10 5, Set_color RED BLACK, Print ''Game Over!!!'', Gotoxy 10 7, Set_color WHITE BLACK,
       Print ''Final Score: '', Print (deca_text (sint (score game))), Gotoxy 10 9,
       Print ''Wait 3 seconds until the next round begins...'']"

subsection \<open>Specification side\<close>

text \<open>A direction in which a ghost meets neither a wall nor a ghost.\<close>

definition free_dir :: "GameState \<Rightarrow> Point \<Rightarrow> Direction \<Rightarrow> bool" where
  "free_dir game p d \<longleftrightarrow> \<not> isWall game (getNextPoint p d) \<and> \<not> isGhost game (getNextPoint p d)"

text \<open>The walls of a level; a cell of the board without a wall. \<open>board_ok\<close>: the walls are those of the
  level, the player and the ghosts are on open cells and so are the cells they return to, and no
  ghost carries a wall as the tile it will put back.\<close>

definition wall_at :: "nat \<Rightarrow> nat \<Rightarrow> nat \<Rightarrow> bool" where
  "wall_at lv y x \<longleftrightarrow> predefinedMaps lv y ! x = CHR ''#''"

definition in_board :: "Point \<Rightarrow> bool" where
  "in_board p \<longleftrightarrow> unat (px p) < 80 \<and> unat (py p) < 24"

definition open_cell :: "(nat \<Rightarrow> nat \<Rightarrow> bool) \<Rightarrow> Point \<Rightarrow> bool" where
  "open_cell wall p \<longleftrightarrow> in_board p \<and> \<not> wall (unat (py p)) (unat (px p))"

definition board_ok :: "(nat \<Rightarrow> nat \<Rightarrow> bool) \<Rightarrow> GameState \<Rightarrow> bool" where
  "board_ok wall game \<longleftrightarrow>
     (\<forall>y<24. \<forall>x<80. gmap game y x = CHR ''#'' \<longleftrightarrow> wall y x) \<and>
     open_cell wall (p_position (pacman game)) \<and> open_cell wall (p_spawnPoint (pacman game)) \<and>
     (\<forall>i<4. open_cell wall (g_position (ghosts game i)) \<and> open_cell wall (g_spawnPoint (ghosts game i)) \<and>
        g_tile (ghosts game i) \<noteq> CHR ''#'')"

text \<open>A running timer is a positive multiple of 100 up to its start value, so that it reaches 0
  exactly and does not wrap.\<close>

definition running :: "bool \<Rightarrow> DWord \<Rightarrow> DWord \<Rightarrow> bool" where
  "running on t mx \<longleftrightarrow> (on \<longrightarrow> 0 < unat t \<and> unat t \<le> unat mx \<and> 100 dvd unat t)"

definition timers_ok :: "GameState \<Rightarrow> bool" where
  "timers_ok game \<longleftrightarrow>
     running (p_isBoosted (pacman game) \<noteq> 0) (p_boostedTimer (pacman game)) BOOSTED_TIME \<and>
     running (p_isAlive (pacman game) = 0) (p_respawnTimer (pacman game)) RESPAWN_TIME \<and>
     (\<forall>i<4. running (g_isAlive (ghosts game i) = 0) (g_deadTimer (ghosts game i)) RESPAWN_TIME)"

subsection \<open>Drawing a free direction\<close>

lemma random_eq:
  "random s = (let r = fst (rand s) mod 5 in
     if r = 0 then UP else if r = 1 then DOWN else if r = 2 then LEFT else if r = 3 then RIGHT else NONE, fst (rand s))"
  by (simp add: random_def rand_range_def rand_def Let_def)

lemma random_seed: "snd (random s) = fst (rand s)"
  by (simp add: random_eq)

lemma random_reaches:
  "\<exists>n. fst (random (((snd \<circ> random) ^^ n) s)) = d"
proof -
  define t :: DWord where "t = (case d of UP \<Rightarrow> 0 | DOWN \<Rightarrow> 1 | LEFT \<Rightarrow> 2 | RIGHT \<Rightarrow> 3 | NONE \<Rightarrow> 4)"
  have "unat t < 2 ^ 31" by (cases d) (simp_all add: t_def)
  then obtain n where n: "((fst \<circ> rand) ^^ Suc n) s = t" using rand_reaches by blast
  have "snd \<circ> random = fst \<circ> rand" by (rule ext) (simp add: random_seed)
  then have "fst (rand (((snd \<circ> random) ^^ n) s)) = t" using n by simp
  then have "fst (random (((snd \<circ> random) ^^ n) s)) = d"
    by (cases d) (simp_all add: random_eq t_def)
  then show ?thesis ..
qed

lemma ghost_retry_within:
  assumes "fst (random (((snd \<circ> random) ^^ n) seed)) = d" "free_dir game p d"
  shows "\<exists>nx' seed'. ghost_retry game p nx seed = Some (nx', seed')"
  using assms(1)
proof (induction n arbitrary: nx seed)
  case 0
  obtain s' where r: "random seed = (d, s')" using 0 by (cases "random seed") simp
  have "ghost_retry game p (getNextPoint p d) s' = Some (getNextPoint p d, s')"
    using assms(2) by (subst ghost_retry.simps) (simp add: free_dir_def)
  then show ?case by (subst ghost_retry.simps) (simp add: r)
next
  case (Suc n)
  obtain d' s' where r: "random seed = (d', s')" by fastforce
  have "((snd \<circ> random) ^^ Suc n) seed = ((snd \<circ> random) ^^ n) s'"
    by (simp add: funpow_Suc_right r del: funpow.simps)
  then have "\<exists>nx' seed'. ghost_retry game p (getNextPoint p d') s' = Some (nx', seed')"
    using Suc.IH[of s'] Suc.prems by metis
  then show ?case by (subst ghost_retry.simps) (simp add: r)
qed

lemma ghost_retry_result:
  assumes "ghost_retry game p nx seed = Some (nx', seed')"
  shows "\<not> isWall game nx' \<and> \<not> isGhost game nx' \<and> (nx' = nx \<or> (\<exists>d. nx' = getNextPoint p d))"
proof -
  let ?P = "\<lambda>game p nx seed r. \<not> isWall game (fst r) \<and> \<not> isGhost game (fst r) \<and>
    (fst r = nx \<or> (\<exists>d. fst r = getNextPoint p d))"
  have "?P game p nx seed (nx', seed')"
    by (rule ghost_retry.raw_induct[OF _ assms, of ?P]) (fastforce split: if_splits prod.splits)
  then show ?thesis by simp
qed

lemma ghost_retry_diverges:
  assumes "\<And>d. \<not> free_dir game p d"
  shows "ghost_retry game p (getNextPoint p d) seed = None"
proof (rule ccontr)
  assume "\<not> ?thesis"
  then obtain nx' seed' where "ghost_retry game p (getNextPoint p d) seed = Some (nx', seed')" by auto
  from ghost_retry_result[OF this] assms show False by (auto simp: free_dir_def)
qed

lemma ghost_retry_returns:
  "(\<exists>r. ghost_retry game p (getNextPoint p d) seed = Some r) \<longleftrightarrow> (\<exists>d'. free_dir game p d')"
proof
  assume "\<exists>r. ghost_retry game p (getNextPoint p d) seed = Some r"
  then show "\<exists>d'. free_dir game p d'" using ghost_retry_diverges[of game p d seed] by force
next
  assume "\<exists>d'. free_dir game p d'"
  then show "\<exists>r. ghost_retry game p (getNextPoint p d) seed = Some r"
    using random_reaches[of seed] ghost_retry_within by blast
qed

subsection \<open>The invariants of the game\<close>

lemma board_ok_fields [simp]:
  "board_ok wall (game\<lparr>score := s\<rparr>) = board_ok wall game"
  "board_ok wall (game\<lparr>lives := l\<rparr>) = board_ok wall game"
  by (simp_all add: board_ok_def)

lemma timers_ok_fields [simp]:
  "timers_ok (game\<lparr>score := s\<rparr>) = timers_ok game"
  "timers_ok (game\<lparr>lives := l\<rparr>) = timers_ok game"
  "timers_ok (set_cell p c game) = timers_ok game"
  by (simp_all add: timers_ok_def set_cell_def)

lemma set_cell_simps [simp]:
  "pacman (set_cell p c game) = pacman game" "ghosts (set_cell p c game) = ghosts game"
  "score (set_cell p c game) = score game" "lives (set_cell p c game) = lives game"
  by (simp_all add: set_cell_def)

lemma with_pacman_simps [simp]:
  "pacman (with_pacman f game) = f (pacman game)" "ghosts (with_pacman f game) = ghosts game"
  "gmap (with_pacman f game) = gmap game" "lives (with_pacman f game) = lives game"
  by (simp_all add: with_pacman_def)

lemma with_ghost_simps [simp]:
  "pacman (with_ghost i f game) = pacman game"
  "ghosts (with_ghost i f game) = (ghosts game)(i := f (ghosts game i))"
  "gmap (with_ghost i f game) = gmap game" "lives (with_ghost i f game) = lives game"
  by (simp_all add: with_ghost_def)

lemma changeGhostsBehaviour_simps [simp]:
  "pacman (changeGhostsBehaviour bh game) = pacman game"
  "gmap (changeGhostsBehaviour bh game) = gmap game"
  "lives (changeGhostsBehaviour bh game) = lives game"
  by (simp_all add: changeGhostsBehaviour_def upt_rec)

lemma changeGhostsBehaviour_ghost:
  "ghosts (changeGhostsBehaviour bh game) i =
    (if i < 4 then (ghosts game i)\<lparr>g_behaviour := bh, g_fg_color := (if bh = RUN_AWAY then CYAN else ghost_color i)\<rparr>
     else ghosts game i)"
  by (auto simp: changeGhostsBehaviour_def upt_rec eval_nat_numeral less_Suc_eq)

lemma set_cell_board:
  "board_ok wall game \<Longrightarrow> open_cell wall p \<Longrightarrow> c \<noteq> CHR ''#'' \<Longrightarrow> board_ok wall (set_cell p c game)"
  by (auto simp: board_ok_def set_cell_def open_cell_def)

lemma with_pacman_board:
  "board_ok wall game \<Longrightarrow> open_cell wall (p_position (f (pacman game))) \<Longrightarrow>
   open_cell wall (p_spawnPoint (f (pacman game))) \<Longrightarrow> board_ok wall (with_pacman f game)"
  by (simp add: board_ok_def)

lemma with_ghost_board:
  "board_ok wall game \<Longrightarrow> open_cell wall (g_position (f (ghosts game i))) \<Longrightarrow>
   open_cell wall (g_spawnPoint (f (ghosts game i))) \<Longrightarrow> g_tile (f (ghosts game i)) \<noteq> CHR ''#'' \<Longrightarrow>
   board_ok wall (with_ghost i f game)"
  by (simp add: board_ok_def)

lemma changeGhostsBehaviour_board [simp]:
  "board_ok wall (changeGhostsBehaviour bh game) = board_ok wall game"
  by (auto simp: board_ok_def changeGhostsBehaviour_ghost)

lemma changeGhostsBehaviour_timers [simp]:
  "timers_ok (changeGhostsBehaviour bh game) = timers_ok game"
  by (auto simp: timers_ok_def changeGhostsBehaviour_ghost)

lemma with_pacman_timers:
  "timers_ok game \<Longrightarrow>
   running (p_isBoosted (f (pacman game)) \<noteq> 0) (p_boostedTimer (f (pacman game))) BOOSTED_TIME \<Longrightarrow>
   running (p_isAlive (f (pacman game)) = 0) (p_respawnTimer (f (pacman game))) RESPAWN_TIME \<Longrightarrow>
   timers_ok (with_pacman f game)"
  by (simp add: timers_ok_def)

lemma with_ghost_timers:
  "timers_ok game \<Longrightarrow>
   running (g_isAlive (f (ghosts game i)) = 0) (g_deadTimer (f (ghosts game i))) RESPAWN_TIME \<Longrightarrow>
   timers_ok (with_ghost i f game)"
  by (simp add: timers_ok_def)

lemma timers_okD:
  assumes "timers_ok game"
  shows "running (p_isBoosted (pacman game) \<noteq> 0) (p_boostedTimer (pacman game)) BOOSTED_TIME"
    "running (p_isAlive (pacman game) = 0) (p_respawnTimer (pacman game)) RESPAWN_TIME"
    "i < 4 \<Longrightarrow> running (g_isAlive (ghosts game i) = 0) (g_deadTimer (ghosts game i)) RESPAWN_TIME"
  using assms by (auto simp: timers_ok_def)

lemmas timers_intros = with_pacman_timers with_ghost_timers

lemma running_start [simp]: "running on 5000 5000" "running on 3000 3000"
  by (simp_all add: running_def)

lemma running_off [simp]: "running False t mx"
  by (simp add: running_def)

lemma board_okD:
  assumes "board_ok wall game"
  shows "open_cell wall (p_position (pacman game))" "open_cell wall (p_spawnPoint (pacman game))"
    "i < 4 \<Longrightarrow> open_cell wall (g_position (ghosts game i))"
    "i < 4 \<Longrightarrow> open_cell wall (g_spawnPoint (ghosts game i))"
    "i < 4 \<Longrightarrow> g_tile (ghosts game i) \<noteq> CHR ''#''"
  using assms by (auto simp: board_ok_def)

lemma isWall_board:
  "board_ok wall game \<Longrightarrow> in_board p \<Longrightarrow> isWall game p \<longleftrightarrow> wall (unat (py p)) (unat (px p))"
  by (auto simp: board_ok_def isWall_def get_cell_def in_board_def)

lemma open_cell_iff: "board_ok wall game \<Longrightarrow> in_board p \<Longrightarrow> open_cell wall p \<longleftrightarrow> \<not> isWall game p"
  by (simp add: isWall_board open_cell_def)

lemmas board_intros = set_cell_board with_pacman_board with_ghost_board

lemma consume_board:
  "board_ok wall game \<Longrightarrow> open_cell wall p \<Longrightarrow> board_ok wall (consume p game)"
  by (auto simp: consume_def removeItem_def board_okD intro!: board_intros)

lemma consume_position [simp]: "p_position (pacman (consume p game)) = p_position (pacman game)"
  by (simp add: consume_def removeItem_def)

lemma consume_timers: "timers_ok game \<Longrightarrow> timers_ok (consume p game)"
  by (auto simp: consume_def removeItem_def timers_okD intro!: timers_intros)

lemma pacman_move_board:
  "board_ok wall game \<Longrightarrow> in_board nx \<Longrightarrow> board_ok wall (pacman_move nx game)"
  by (auto simp: pacman_move_def Let_def board_okD open_cell_iff intro!: board_intros consume_board)

lemma pacman_move_timers: "timers_ok game \<Longrightarrow> timers_ok (pacman_move nx game)"
  by (auto simp: pacman_move_def Let_def timers_okD intro!: consume_timers timers_intros)

lemma ghost_collisions_board:
  "board_ok wall game \<Longrightarrow> set is \<subseteq> {..<4} \<Longrightarrow> board_ok wall (ghost_collisions nx is game)"
proof (induction nx "is" game rule: ghost_collisions.induct)
  case (2 nx i "is" game)
  have "board_ok wall (with_ghost i (\<lambda>g. g\<lparr>g_position := g_spawnPoint g, g_deadTimer := RESPAWN_TIME, g_isAlive := 0\<rparr>) game)"
    using 2(3,4) by (auto simp: board_okD intro!: board_intros)
  then show ?case using 2 by (simp add: Let_def) (auto simp: board_okD intro!: board_intros)
qed simp

lemma ghost_collisions_timers:
  "timers_ok game \<Longrightarrow> timers_ok (ghost_collisions nx is game)"
proof (induction nx "is" game rule: ghost_collisions.induct)
  case (2 nx i "is" game)
  have "timers_ok (with_ghost i (\<lambda>g. g\<lparr>g_position := g_spawnPoint g, g_deadTimer := RESPAWN_TIME, g_isAlive := 0\<rparr>) game)"
    using 2(3) by (auto intro!: timers_intros)
  then show ?case using 2 by (simp add: Let_def) (auto simp: timers_okD intro!: timers_intros)
qed simp

lemma running_tick:
  assumes "running on t mx" on "\<not> t - 100 \<le> 0"
  shows "running on' (t - 100) mx"
proof -
  have d: "100 \<le> unat t" "100 dvd unat t" "unat t \<le> unat mx" using assms(1,2) by (auto simp: running_def elim!: dvdE)
  then have u: "unat (t - 100) = unat t - 100" by (simp add: unat_sub word_le_nat_alt)
  have "t - 100 \<noteq> 0" using assms(3) by auto
  then have "0 < unat (t - 100)" by (metis unat_gt_0)
  then show ?thesis using d u by (auto simp: running_def)
qed

lemma ghost_timer_ok:
  assumes "i < 4"
  shows "board_ok wall game \<Longrightarrow> board_ok wall (ghost_timer e i game)"
    "timers_ok game \<Longrightarrow> timers_ok (ghost_timer 100 i game)"
  using assms running_tick[OF timers_okD(3)[OF _ assms], of game]
  by (auto simp: ghost_timer_def Let_def board_okD timers_ok_def intro!: board_intros)

lemma boost_timer_ok:
  shows "board_ok wall game \<Longrightarrow> board_ok wall (boost_timer e game)"
    "timers_ok game \<Longrightarrow> timers_ok (boost_timer 100 game)"
  using running_tick[OF timers_okD(1), of game]
  by (auto simp: boost_timer_def Let_def board_okD timers_ok_def changeGhostsBehaviour_ghost intro!: board_intros)

lemma respawn_timer_ok:
  shows "board_ok wall game \<Longrightarrow> board_ok wall (respawn_timer e game)"
    "timers_ok game \<Longrightarrow> timers_ok (respawn_timer 100 game)"
  using running_tick[OF timers_okD(2), of game]
  by (auto simp: respawn_timer_def Let_def board_okD timers_ok_def changeGhostsBehaviour_ghost intro!: board_intros)

lemma updateTimerState_ok:
  "board_ok wall game \<Longrightarrow> board_ok wall (updateTimerState e game)"
  "timers_ok game \<Longrightarrow> timers_ok (updateTimerState 100 game)"
  unfolding updateTimerState_def
  by (rule fold_inv; simp add: boost_timer_ok respawn_timer_ok ghost_timer_ok)+

text \<open>A board closed by walls: an open cell is not on the border, so that each step from it stays
  within the array.\<close>

locale walled_board =
  fixes wall :: "nat \<Rightarrow> nat \<Rightarrow> bool"
  assumes border: "y < 24 \<Longrightarrow> x < 80 \<Longrightarrow> y = 0 \<or> y = 23 \<or> x = 0 \<or> x = 79 \<Longrightarrow> wall y x"
begin

lemma open_inside:
  assumes "open_cell wall p"
  shows "0 < unat (px p) \<and> unat (px p) < 79 \<and> 0 < unat (py p) \<and> unat (py p) < 23"
proof -
  let ?x = "unat (px p)" and ?y = "unat (py p)"
  have b: "?x < 80" "?y < 24" "\<not> wall ?y ?x" using assms by (auto simp: open_cell_def in_board_def)
  then have "\<not> (?y = 0 \<or> ?y = 23 \<or> ?x = 0 \<or> ?x = 79)" using border by blast
  then show ?thesis using b by linarith
qed

lemma step_in_board:
  assumes "open_cell wall p"
  shows "in_board (p\<lparr>px := px p + 1\<rparr>)" "in_board (p\<lparr>px := px p - 1\<rparr>)"
    "in_board (p\<lparr>py := py p + 1\<rparr>)" "in_board (p\<lparr>py := py p - 1\<rparr>)"
proof -
  have "unat (z + 1) = Suc (unat z)" "unat (z - 1) = unat z - 1" if "0 < unat z" "unat z < 80" for z :: DWord
  proof -
    show "unat (z + 1) = Suc (unat z)" using that by (simp add: unat_word_ariths)
    have "1 \<le> z" using that by (simp add: word_le_nat_alt)
    then show "unat (z - 1) = unat z - 1" by (simp add: unat_sub)
  qed
  then show "in_board (p\<lparr>px := px p + 1\<rparr>)" "in_board (p\<lparr>px := px p - 1\<rparr>)"
    "in_board (p\<lparr>py := py p + 1\<rparr>)" "in_board (p\<lparr>py := py p - 1\<rparr>)"
    using open_inside[OF assms] by (simp_all add: in_board_def less_imp_diff_less)
qed

lemma pacman_next_in_board: "board_ok wall game \<Longrightarrow> in_board (pacman_next (pacman game))"
  using step_in_board[of "p_position (pacman game)"] board_okD(1)[of wall game]
  by (auto simp: pacman_next_def open_cell_def split: Direction.split)

lemma getNextPoint_in_board: "open_cell wall p \<Longrightarrow> in_board (getNextPoint p d)"
  using step_in_board[of p] by (cases d) (auto simp: getNextPoint_def open_cell_def)

lemma updatePacmanPosition_ok:
  "board_ok wall game \<Longrightarrow> board_ok wall (updatePacmanPosition game)"
  by (auto simp: updatePacmanPosition_def Let_def
      intro!: ghost_collisions_board pacman_move_board pacman_next_in_board)


lemma ghost_move_ok:
  assumes "board_ok wall game" "i < 4" "in_board nx"
  shows "board_ok wall (ghost_move i nx game)"
proof (cases "isValidMove game nx")
  case True
  then have nx: "open_cell wall nx" using assms by (simp add: isValidMove_def open_cell_iff)
  define g1 where "g1 = set_cell (g_position (ghosts game i)) (g_tile (ghosts game i)) game"
  have g1: "board_ok wall g1" using assms by (auto simp: g1_def board_okD intro!: board_intros)
  then have "get_cell g1 nx \<noteq> CHR ''#''" using nx assms(3) by (simp add: open_cell_iff isWall_def)
  moreover have "open_cell wall (g_spawnPoint (ghosts g1 i))" "open_cell wall (g_position (ghosts g1 i))"
    using g1 assms(2) by (simp_all add: board_okD)
  ultimately have "board_ok wall (let g2 = with_ghost i (\<lambda>g. g\<lparr>g_tile := get_cell g1 nx\<rparr>) g1 in
      if \<not> isEmpty g2 nx \<and> \<not> isBooster g2 nx \<and> \<not> isPellet g2 nx
      then with_ghost i (\<lambda>g. g\<lparr>g_tile := CHR '' ''\<rparr>) g2 else g2)" (is "board_ok wall ?g3")
    using g1 by (auto simp: Let_def intro!: board_intros)
  then have "board_ok wall (with_ghost i (\<lambda>g. g\<lparr>g_direction := determineDirection (g_position g) nx\<rparr>)
      (set_cell nx (ghost_char i) (with_ghost i (\<lambda>g. g\<lparr>g_position := nx\<rparr>) ?g3)))"
    using nx assms(2)
    by (intro board_intros) (auto simp: board_okD ghost_char_def less_Suc_eq eval_nat_numeral)
  then show ?thesis using True by (simp add: ghost_move_def Let_def g1_def)
qed (use assms in \<open>simp add: ghost_move_def\<close>)

lemma updateGhosts_from_ok:
  "board_ok wall game \<Longrightarrow> set is \<subseteq> {..<4} \<Longrightarrow> updateGhosts_from is game seed = Some (game', seed') \<Longrightarrow>
   board_ok wall game'"
proof (induction "is" arbitrary: game seed)
  case (Cons i "is")
  have i: "i < 4" using Cons.prems(2) by simp
  let ?p = "g_position (ghosts game i)"
  have p: "open_cell wall ?p" using Cons.prems(1) i by (simp add: board_okD)
  have "board_ok wall (ghost_move i nx game)"
    if "ghost_retry game ?p (getNextPoint ?p d) s = Some (nx, s')" for d s nx s'
    using ghost_retry_result[OF that] getNextPoint_in_board[OF p] ghost_move_ok[OF Cons.prems(1) i] by auto
  then show ?case using Cons.prems Cons.IH
    by (auto simp: Let_def split: if_splits option.splits prod.splits) blast
qed simp

lemma updateGameState_board:
  assumes "board_ok wall game" "updateGameState game e seed = Some (game', seed')"
  shows "board_ok wall game'"
proof -
  obtain g where "updateGhosts_from [0..<4] (updatePacmanPosition game) seed = Some (g, seed')"
    and g': "game' = updateTimerState 100 g"
    using assms(2) by (auto simp: updateGameState_def updateGhostsPositions_def)
  then have "board_ok wall g"
    using updateGhosts_from_ok[OF updatePacmanPosition_ok[OF assms(1)], of "[0..<4]"] by (simp add: lessThan_atLeast0)
  then show ?thesis unfolding g' by (rule updateTimerState_ok)
qed

end

lemma ghost_move_simps [simp]:
  "pacman (ghost_move i nx game) = pacman game" "lives (ghost_move i nx game) = lives game"
  by (simp_all add: ghost_move_def Let_def)

lemma ghost_move_timers: "timers_ok game \<Longrightarrow> timers_ok (ghost_move i nx game)"
  by (auto simp: ghost_move_def Let_def timers_ok_def)

lemma updateGhosts_from_timers:
  "timers_ok game \<Longrightarrow> updateGhosts_from is game seed = Some (game', seed') \<Longrightarrow> timers_ok game'"
  by (induction "is" arbitrary: game seed)
    (auto simp: Let_def split: if_splits option.splits prod.splits intro: ghost_move_timers)

lemma updatePacmanPosition_timers: "timers_ok game \<Longrightarrow> timers_ok (updatePacmanPosition game)"
  by (auto simp: updatePacmanPosition_def Let_def intro!: ghost_collisions_timers pacman_move_timers)

lemma updateGameState_timers:
  assumes "timers_ok game" "updateGameState game e seed = Some (game', seed')"
  shows "timers_ok game'"
proof -
  obtain g where "updateGhosts_from [0..<4] (updatePacmanPosition game) seed = Some (g, seed')"
    and g': "game' = updateTimerState 100 g"
    using assms(2) by (auto simp: updateGameState_def updateGhostsPositions_def)
  then have "timers_ok g"
    using updateGhosts_from_timers[OF updatePacmanPosition_timers[OF assms(1)]] by blast
  then show ?thesis unfolding g' by (rule updateTimerState_ok)
qed

lemma processInput_ok [simp]:
  "board_ok wall (processInput game key) = board_ok wall game"
  "timers_ok (processInput game key) = timers_ok game"
  by (simp_all add: processInput_def Let_def board_ok_def timers_ok_def)

text \<open>Both boards are closed.\<close>

lemma walls_border:
  "list_all (\<lambda>lv. list_all (\<lambda>x. wall_at lv 0 x \<and> wall_at lv 23 x) [0..<80] \<and>
      list_all (\<lambda>y. wall_at lv y 0 \<and> wall_at lv y 79) [0..<24]) [0, 1]"
  by code_simp

lemma walled_wall_at:
  assumes "lv < 2"
  shows "walled_board (wall_at lv)"
proof
  fix x y :: nat
  assume xy: "y < 24" "x < 80" "y = 0 \<or> y = 23 \<or> x = 0 \<or> x = 79"
  have "lv \<in> set [0, 1]" using assms by force
  then have "\<forall>x\<in>{0..<80}. wall_at lv 0 x \<and> wall_at lv 23 x" "\<forall>y\<in>{0..<24}. wall_at lv y 0 \<and> wall_at lv y 79"
    using walls_border unfolding list_all_iff set_upt by blast+
  then show "wall_at lv y x" using xy by auto
qed

interpretation level0: walled_board "wall_at 0"
  by (simp add: walled_wall_at)

interpretation level1: walled_board "wall_at 1"
  by (simp add: walled_wall_at)

lemma spawns_open:
  "list_all (open_cell (wall_at 0)) [pt 36 1, pt 38 11, pt 40 11, pt 38 13, pt 40 13]"
  "list_all (open_cell (wall_at 1)) [pt 42 10, pt 78 1, pt 1 22, pt 1 1, pt 78 22]"
  by code_simp+

lemma less_4_iff: "i < 4 \<longleftrightarrow> i = 0 \<or> i = 1 \<or> i = 2 \<or> i = (3 :: nat)"
  by auto

lemma initializeGhosts_ok:
  assumes "\<And>i. i < 4 \<Longrightarrow> open_cell wall (spawn i)"
  shows "board_ok wall (initializeGhosts game spawn) \<longleftrightarrow> 
      (\<forall>y<24. \<forall>x<80. gmap game y x = CHR ''#'' \<longleftrightarrow> wall y x) \<and>
      open_cell wall (p_position (pacman game)) \<and> open_cell wall (p_spawnPoint (pacman game))"
    "timers_ok (initializeGhosts game spawn) \<longleftrightarrow>
      running (p_isBoosted (pacman game) \<noteq> 0) (p_boostedTimer (pacman game)) BOOSTED_TIME \<and>
      running (p_isAlive (pacman game) = 0) (p_respawnTimer (pacman game)) RESPAWN_TIME"
  using assms by (auto simp: initializeGhosts_def board_ok_def timers_ok_def less_4_iff upt_rec)

lemma initializeRound_spawns:
  assumes "lv = 0 \<or> lv = (1 :: DWord)" "i < 4"
  shows "open_cell (wall_at (unat lv)) ((if lv = 0 then [pt 38 11, pt 40 11, pt 38 13, pt 40 13]
                               else [pt 78 1, pt 1 22, pt 1 1, pt 78 22]) ! i)"
    "open_cell (wall_at (unat lv)) (if lv = 0 then pt 36 1 else pt 42 10)"
  using assms spawns_open by (auto simp: less_4_iff)

lemma initializePacman_ok:
  assumes "open_cell (wall_at (unat (level game))) spawn"
  shows "y < 24 \<Longrightarrow> x < 80 \<Longrightarrow> gmap (initializePacman (initializeMap game) spawn) y x = CHR ''#'' \<longleftrightarrow>
      wall_at (unat (level game)) y x"
    "p_position (pacman (initializePacman (initializeMap game) spawn)) = spawn"
    "p_spawnPoint (pacman (initializePacman (initializeMap game) spawn)) = spawn"
    "p_isBoosted (pacman (initializePacman (initializeMap game) spawn)) = 0"
    "p_isAlive (pacman (initializePacman (initializeMap game) spawn)) = 1"
  using assms
  by (auto simp: initializePacman_def set_cell_def initializeMap_def wall_at_def open_cell_def)

lemma level_cases: "unat (lv :: DWord) < 2 \<Longrightarrow> lv = 0 \<or> lv = 1"
  by (metis less_2_cases unat_eq_zero unsigned_1 unsigned_word_eqI One_nat_def)

lemma initializeRound_ok:
  assumes "unat lv < 2"
  shows "board_ok (wall_at (unat lv)) (initializeRound game lv li sc player) \<and>
    timers_ok (initializeRound game lv li sc player)"
proof -
  have lv: "lv = 0 \<or> lv = 1" using assms by (rule level_cases)
  note sp = initializeRound_spawns[OF lv]
  define g where "g = game\<lparr>score := sc, lives := li, level := lv, currentPlayer := player,
    pelletsRemaining := if lv = 0 then 736 else 1013\<rparr>"
  define p where "p = (if lv = 0 then pt 36 1 else pt 42 10)"
  define f where "f = (\<lambda>i. (if lv = 0 then [pt 38 11, pt 40 11, pt 38 13, pt 40 13]
                               else [pt 78 1, pt 1 22, pt 1 1, pt 78 22]) ! i)"
  have eq: "initializeRound game lv li sc player = initializeGhosts (initializePacman (initializeMap g) p) f"
    unfolding initializeRound_def Let_def g_def p_def f_def by simp
  have "open_cell (wall_at (unat (level g))) p" using sp(2)[of 0] by (simp add: g_def p_def)
  note pac = initializePacman_ok[OF this]
  have level: "level g = lv" by (simp add: g_def)
  have f: "open_cell (wall_at (unat lv)) (f i)" if "i < 4" for i using sp(1)[OF that] by (simp add: f_def)
  have p: "open_cell (wall_at (unat lv)) p" using sp(2)[of 0] by (simp add: p_def)
  show ?thesis
    using initializeGhosts_ok[of "wall_at (unat lv)" f "initializePacman (initializeMap g) p", OF f] pac p
    by (simp add: eq level)
qed

text \<open>An uninitialised game.\<close>

definition blank_game :: GameState where
  "blank_game = \<lparr>pacman = \<lparr>p_position = pt 0 0, p_spawnPoint = pt 0 0, p_direction = NONE, p_fg_color = 0, p_bg_color = 0,
       p_skin = CHR '' '', p_isBoosted = 0, p_boostedTimer = 0, p_isAlive = 0, p_respawnTimer = 0\<rparr>,
     ghosts = \<lambda>_. \<lparr>g_spawnPoint = pt 0 0, g_position = pt 0 0, g_direction = NONE, g_skin = CHR '' '', g_tile = CHR '' '',
       g_fg_color = 0, g_bg_color = 0, g_isAlive = 0, g_deadTimer = 0, g_algorithm = RANDOM, g_behaviour = CHASE\<rparr>,
     score = 0, lives = 0, pelletsRemaining = 0, level = 0, gmap = \<lambda>_ _. CHR '' '',
     leaderboard = \<lambda>_. \<lparr>lb_name = '''', lb_score = 0\<rparr>, leaderboardSize = 0, currentPlayer = ''''\<rparr>"

end
