(* ===== verification/Zeos_Search.thy ===== *)
theory Zeos_Search
  imports Zeos_Pacman
begin

text \<open>
  The path searches of \<^verbatim>\<open>pacman.c\<close>: \<^verbatim>\<open>dfs\<close>, \<^verbatim>\<open>bfs\<close> and \<^verbatim>\<open>dijkstra\<close>. The game has them for its
  ghosts but calls none of them.

  The arrays on the stack are functions of row and column; an access outside of an array is \<^term>\<open>None\<close>. What
  an uninitialised array holds is a parameter.
\<close>

subsection \<open>Common parts\<close>

abbreviation (input) MAP_CELLS :: nat where "MAP_CELLS \<equiv> 1920"
abbreviation (input) INFINITY :: int where "INFINITY \<equiv> 2147483647"

definition on_board :: "Point \<Rightarrow> bool" where
  "on_board p \<longleftrightarrow> unat (px p) < MAP_WIDTH \<and> unat (py p) < MAP_HEIGHT"

text \<open>The array \<^verbatim>\<open>moves\<close>: left, right, up, down of a cell.\<close>

definition moves :: "Point \<Rightarrow> Point list" where
  "moves p = [\<lparr>px = px p - 1, py = py p\<rparr>, \<lparr>px = px p + 1, py = py p\<rparr>, \<lparr>px = px p, py = py p - 1\<rparr>, \<lparr>px = px p, py = py p + 1\<rparr>]"

text \<open>\<^verbatim>\<open>f[p.y][p.x]\<close>, read and written.\<close>

definition at_cell :: "(nat \<Rightarrow> nat \<Rightarrow> 'a) \<Rightarrow> Point \<Rightarrow> 'a" where
  "at_cell f p = f (unat (py p)) (unat (px p))"

definition mark :: "Point \<Rightarrow> 'a \<Rightarrow> (nat \<Rightarrow> nat \<Rightarrow> 'a) \<Rightarrow> nat \<Rightarrow> nat \<Rightarrow> 'a" where
  "mark p v f = f(unat (py p) := (f (unat (py p)))(unat (px p) := v))"

text \<open>The walk back from the target along \<^verbatim>\<open>previous\<close> to the cell that follows the start; reading \<^verbatim>\<open>previous\<close>
  outside the array is \<^term>\<open>None\<close>.\<close>

partial_function (option) backtrack :: "Point \<Rightarrow> (nat \<Rightarrow> nat \<Rightarrow> Point) \<Rightarrow> Point \<Rightarrow> Point option" where
  "backtrack start prev pos =
     (if \<not> on_board pos then None
      else let b = at_cell prev pos in
        if equalPoints b start then Some pos else backtrack start prev b)"

subsection \<open>Breadth first\<close>

text \<open>\<open>cells\<close> is the part of \<^verbatim>\<open>queue\<close> (or of \<^verbatim>\<open>stack\<close>) that is in use, so \<^verbatim>\<open>rear\<close> (or \<^verbatim>\<open>top + 1\<close>) is its length.\<close>

record search =
  cells :: "Point list"
  visited :: "nat \<Rightarrow> nat \<Rightarrow> bool"
  previous :: "nat \<Rightarrow> nat \<Rightarrow> Point"

definition push_cell :: "Point \<Rightarrow> Point \<Rightarrow> search \<Rightarrow> search option" where
  "push_cell cur nx s =
     (if length (cells s) < MAP_CELLS
      then Some (s\<lparr>cells := cells s @ [nx], visited := mark nx True (visited s), previous := mark nx cur (previous s)\<rparr>)
      else None)"

definition bfs_visit :: "GameState \<Rightarrow> Point \<Rightarrow> Point \<Rightarrow> search \<Rightarrow> search option" where
  "bfs_visit game cur nx s =
     (if isValidMove game nx \<and> \<not> at_cell (visited s) nx then push_cell cur nx s else Some s)"

partial_function (option) bfs_loop :: "GameState \<Rightarrow> Point \<Rightarrow> Point \<Rightarrow> nat \<Rightarrow> search \<Rightarrow> Direction option" where
  "bfs_loop game start target front s =
     (if front < length (cells s) then
        let cur = cells s ! front in
        if equalPoints cur target then
          Option.bind (backtrack start (previous s) cur) (\<lambda>pos. Some (determineDirection pos target))
        else Option.bind (fold_option (bfs_visit game cur) (moves cur) s) (bfs_loop game start target (front + 1))
      else Some NONE)"

text \<open>\<open>junk\<close> is what the uninitialised array \<^verbatim>\<open>previous\<close> holds.\<close>

definition bfs :: "(nat \<Rightarrow> nat \<Rightarrow> Point) \<Rightarrow> GameState \<Rightarrow> Point \<Rightarrow> Point \<Rightarrow> Direction option" where
  "bfs junk game start target =
     (if on_board start
      then bfs_loop game start target 0 \<lparr>cells = [start], visited = mark start True (\<lambda>_ _. False), previous = junk\<rparr>
      else None)"

subsection \<open>Depth first\<close>

text \<open>The test reads \<^verbatim>\<open>visited[next.x][next.y]\<close>, with the indices the wrong way round: outside the array when
  the column is 24 or more.\<close>

definition dfs_visit :: "GameState \<Rightarrow> Point \<Rightarrow> Point \<Rightarrow> search \<Rightarrow> search option" where
  "dfs_visit game cur nx s =
     (if isValidMove game nx then
        if unat (px nx) \<ge> MAP_HEIGHT then None
        else if \<not> visited s (unat (px nx)) (unat (py nx)) then push_cell cur nx s else Some s
      else Some s)"

partial_function (option) dfs_loop :: "GameState \<Rightarrow> Point \<Rightarrow> Point \<Rightarrow> search \<Rightarrow> Direction option" where
  "dfs_loop game start target s =
     (if cells s \<noteq> [] then
        let cur = last (cells s); s = s\<lparr>cells := butlast (cells s)\<rparr> in
        if equalPoints cur target then
          Option.bind (backtrack start (previous s) cur) (\<lambda>pos. Some (determineDirection pos target))
        else Option.bind (fold_option (dfs_visit game cur) (moves cur) s) (dfs_loop game start target)
      else Some NONE)"

definition dfs :: "(nat \<Rightarrow> nat \<Rightarrow> Point) \<Rightarrow> GameState \<Rightarrow> Point \<Rightarrow> Point \<Rightarrow> Direction option" where
  "dfs junk game start target =
     (if on_board start
      then dfs_loop game start target \<lparr>cells = [start], visited = mark start True (\<lambda>_ _. False), previous = junk\<rparr>
      else None)"

subsection \<open>Dijkstra\<close>

record dijkstra_state =
  distances :: "nat \<Rightarrow> nat \<Rightarrow> int"
  d_previous :: "nat \<Rightarrow> nat \<Rightarrow> Point"
  d_queue :: "nat \<Rightarrow> PriorityNode"
  d_rear :: nat

definition relax :: "GameState \<Rightarrow> Point \<Rightarrow> Point \<Rightarrow> dijkstra_state \<Rightarrow> dijkstra_state option" where
  "relax game pos nx s =
     (let d = wrap32 (at_cell (distances s) pos + 1) in
      if isValidMove game nx \<and> at_cell (distances s) nx > d then
        if d_rear s < MAP_CELLS then
          (case enqueue (d_queue s) (d_rear s) nx d of (queue, rear) \<Rightarrow>
             Some (s\<lparr>distances := mark nx d (distances s), d_previous := mark nx pos (d_previous s), d_queue := queue, d_rear := rear\<rparr>))
        else None
      else Some s)"

partial_function (option) dijkstra_loop :: "GameState \<Rightarrow> Point \<Rightarrow> Point \<Rightarrow> nat \<Rightarrow> dijkstra_state \<Rightarrow> Direction option" where
  "dijkstra_loop game start target front s =
     (if front < d_rear s then
        case dequeue (d_queue s) front (d_rear s) of (node, queue, front) \<Rightarrow>
          let pos = pn_position node; s = s\<lparr>d_queue := queue\<rparr> in
          if equalPoints pos target then
            Option.bind (backtrack start (d_previous s) pos) (\<lambda>pos. Some (determineDirection start pos))
          else Option.bind (fold_option (relax game pos) (moves pos) s) (dijkstra_loop game start target front)
      else Some NONE)"

definition dijkstra :: "(nat \<Rightarrow> PriorityNode) \<Rightarrow> GameState \<Rightarrow> Point \<Rightarrow> Point \<Rightarrow> Direction option" where
  "dijkstra junk game start target =
     (if on_board start then
        case enqueue junk 0 start 0 of (queue, rear) \<Rightarrow>
          dijkstra_loop game start target 0 \<lparr>distances = mark start 0 (\<lambda>_ _. INFINITY),
            d_previous = (\<lambda>_ _. \<lparr>px = - 1, py = - 1\<rparr>), d_queue = queue, d_rear = rear\<rparr>
      else None)"

declare backtrack.simps [code] bfs_loop.simps [code] dfs_loop.simps [code] dijkstra_loop.simps [code]

subsection \<open>Walks\<close>

text \<open>A step goes to one of the four neighbours that is a valid move; a walk counts its steps.\<close>

definition walk_step :: "GameState \<Rightarrow> Point \<Rightarrow> Point \<Rightarrow> bool" where
  "walk_step game p q \<longleftrightarrow> q \<in> set (moves p) \<and> isValidMove game q"

inductive walk :: "GameState \<Rightarrow> nat \<Rightarrow> Point \<Rightarrow> Point \<Rightarrow> bool" for game where
  walk_0: "walk game 0 p p"
| walk_Suc: "walk game n p q \<Longrightarrow> walk_step game q r \<Longrightarrow> walk game (Suc n) p r"

lemma walk_Cons: "walk game n q r \<Longrightarrow> walk_step game p q \<Longrightarrow> walk game (Suc n) p r"
  by (induction rule: walk.induct) (auto intro: walk.intros)

lemma equalPoints_eq: "equalPoints p q \<longleftrightarrow> p = q"
  by (cases p; cases q) (simp add: equalPoints_def)

lemma valid_on_board: "isValidMove game p \<Longrightarrow> on_board p"
  by (auto simp: isValidMove_def on_board_def word_less_nat_alt)

lemma at_cell_mark: "at_cell (mark p v f) q = (if q = p then v else at_cell f q)"
proof (cases "q = p")
  case False
  then have "unat (py q) \<noteq> unat (py p) \<or> unat (px q) \<noteq> unat (px p)"
    by (cases p; cases q) (auto simp: word_unat_eq_iff)
  then show ?thesis using False by (auto simp: at_cell_def mark_def)
qed (simp add: at_cell_def mark_def)

text \<open>The array holds every cell of the board once.\<close>

lemma board_cells:
  assumes "distinct ps" "\<forall>p\<in>set ps. on_board p"
  shows "length ps \<le> MAP_CELLS"
proof -
  let ?f = "\<lambda>p::Point. (unat (px p), unat (py p))"
  have i: "inj_on ?f (set ps)"
  proof (rule inj_onI)
    fix p q assume "?f p = ?f q"
    then show "p = q" by (cases p; cases q) (auto simp: word_unat_eq_iff)
  qed
  have "?f ` set ps \<subseteq> {..<80} \<times> {..<24}" using assms(2) by (auto simp: on_board_def)
  from card_mono[OF _ this] have "card (?f ` set ps) \<le> 1920" by (simp add: card_cartesian_product)
  then show ?thesis using card_image[OF i] distinct_card[OF assms(1)] by simp
qed

subsection \<open>The tree of a breadth first search\<close>

text \<open>\<open>ds\<close> lists the depths of the cells: a cell other than the start was reached from an earlier one
  that is one step nearer to the start, and a cell of the board is marked as visited when it is listed.\<close>

definition search_tree :: "GameState \<Rightarrow> Point \<Rightarrow> search \<Rightarrow> nat list \<Rightarrow> bool" where
  "search_tree game start s ds \<longleftrightarrow>
     length ds = length (cells s) \<and> sorted ds \<and> distinct (cells s) \<and> (\<forall>p\<in>set (cells s). on_board p) \<and>
     cells s \<noteq> [] \<and> cells s ! 0 = start \<and> ds ! 0 = 0 \<and>
     (\<forall>p. on_board p \<longrightarrow> at_cell (visited s) p = (p \<in> set (cells s))) \<and>
     (\<forall>i. 0 < i \<and> i < length (cells s) \<longrightarrow> (\<exists>j<i. at_cell (previous s) (cells s ! i) = cells s ! j \<and>
        ds ! i = Suc (ds ! j) \<and> walk_step game (cells s ! j) (cells s ! i)))"

lemma search_tree_start:
  "on_board start \<Longrightarrow> search_tree game start \<lparr>cells = [start], visited = mark start True (\<lambda>_ _. False), previous = junk\<rparr> [0]"
  by (auto simp: search_tree_def at_cell_mark) (simp add: at_cell_def)

lemma push_tree:
  assumes t: "search_tree game start s ds" and c: "front < length (cells s)" "cur = cells s ! front"
    and d: "\<forall>d\<in>set ds. d \<le> Suc (ds ! front)" and n: "walk_step game cur nx" "nx \<notin> set (cells s)"
  shows "\<exists>s'. push_cell cur nx s = Some s' \<and> cells s' = cells s @ [nx] \<and> search_tree game start s' (ds @ [Suc (ds ! front)])"
proof -
  have b: "on_board nx" using n(1) by (auto simp: walk_step_def intro: valid_on_board)
  note t' = t[unfolded search_tree_def]
  have "length (cells s @ [nx]) \<le> MAP_CELLS" by (rule board_cells) (use t' n(2) b in auto)
  then have room: "length (cells s) < MAP_CELLS" by simp
  let ?s = "s\<lparr>cells := cells s @ [nx], visited := mark nx True (visited s), previous := mark nx cur (previous s)\<rparr>"
  let ?ds = "ds @ [Suc (ds ! front)]"
  have l: "length ds = length (cells s)" using t' by blast
  have prev: "\<exists>j<i. at_cell (previous ?s) (cells ?s ! i) = cells ?s ! j \<and> ?ds ! i = Suc (?ds ! j) \<and> walk_step game (cells ?s ! j) (cells ?s ! i)"
    if i: "0 < i" "i < length (cells ?s)" for i
  proof (cases "i = length (cells s)")
    case True
    then show ?thesis using c n(1) l by (intro exI[of _ front]) (simp add: nth_append at_cell_mark)
  next
    case False
    then have i': "i < length (cells s)" using i by simp
    then obtain j where j: "j < i" "at_cell (previous s) (cells s ! i) = cells s ! j" "ds ! i = Suc (ds ! j)"
      "walk_step game (cells s ! j) (cells s ! i)" using t' i by blast
    have "cells s ! i \<noteq> nx" using n(2) i' by (metis nth_mem)
    then show ?thesis using j i' l by (intro exI[of _ j]) (simp add: nth_append at_cell_mark)
  qed
  have "search_tree game start ?s ?ds"
    unfolding search_tree_def
  proof (intro conjI)
    show "sorted ?ds" using t' d by (simp add: sorted_append)
    show "\<forall>p. on_board p \<longrightarrow> at_cell (visited ?s) p = (p \<in> set (cells ?s))" using t' by (auto simp: at_cell_mark)
    show "cells ?s ! 0 = start" using t' by (simp add: nth_append)
    show "?ds ! 0 = 0" using t' by (simp add: nth_append)
    show "\<forall>i. 0 < i \<and> i < length (cells ?s) \<longrightarrow> (\<exists>j<i. at_cell (previous ?s) (cells ?s ! i) = cells ?s ! j \<and>
        ?ds ! i = Suc (?ds ! j) \<and> walk_step game (cells ?s ! j) (cells ?s ! i))" using prev by blast
  qed (use t' b n(2) in auto)
  then show ?thesis using room by (intro exI[of _ ?s]) (simp add: push_cell_def)
qed

lemma bfs_visit_tree:
  assumes t: "search_tree game start s ds" and c: "front < length (cells s)" "cur = cells s ! front"
    and d: "\<forall>d\<in>set ds. d \<le> Suc (ds ! front)" and n: "nx \<in> set (moves cur)"
  shows "\<exists>s' xs es. bfs_visit game cur nx s = Some s' \<and> cells s' = cells s @ xs \<and> search_tree game start s' (ds @ es) \<and>
    (\<forall>d\<in>set (ds @ es). d \<le> Suc (ds ! front)) \<and> (isValidMove game nx \<longrightarrow> nx \<in> set (cells s'))"
proof (cases "isValidMove game nx \<and> nx \<notin> set (cells s)")
  case True
  then have s: "walk_step game cur nx" "\<not> at_cell (visited s) nx"
    using n t valid_on_board[of game nx] by (auto simp: walk_step_def search_tree_def)
  from push_tree[OF t c d s(1)] True obtain s' where "push_cell cur nx s = Some s'" "cells s' = cells s @ [nx]"
    "search_tree game start s' (ds @ [Suc (ds ! front)])" by blast
  then show ?thesis using True s(2) d by (intro exI[of _ s'] exI[of _ "[nx]"] exI[of _ "[Suc (ds ! front)]"]) (simp add: bfs_visit_def)
next
  case False
  then have "isValidMove game nx \<Longrightarrow> at_cell (visited s) nx" using t valid_on_board[of game nx] by (auto simp: search_tree_def)
  then have "bfs_visit game cur nx s = Some s" by (auto simp: bfs_visit_def)
  then show ?thesis using t d False by (intro exI[of _ s] exI[of _ "[]"]) simp
qed

lemma bfs_visits_tree:
  assumes "search_tree game start s ds" "front < length (cells s)" "cur = cells s ! front"
    and "\<forall>d\<in>set ds. d \<le> Suc (ds ! front)" "set ms \<subseteq> set (moves cur)"
  shows "\<exists>s' xs es. fold_option (bfs_visit game cur) ms s = Some s' \<and> cells s' = cells s @ xs \<and> search_tree game start s' (ds @ es) \<and>
    (\<forall>d\<in>set (ds @ es). d \<le> Suc (ds ! front)) \<and> (\<forall>nx\<in>set ms. isValidMove game nx \<longrightarrow> nx \<in> set (cells s'))"
  using assms
proof (induction ms arbitrary: s ds)
  case Nil
  then show ?case by (intro exI[of _ s] exI[of _ "[]"]) simp
next
  case (Cons m ms)
  obtain s1 xs es where s1: "bfs_visit game cur m s = Some s1" "cells s1 = cells s @ xs" "search_tree game start s1 (ds @ es)"
    "\<forall>d\<in>set (ds @ es). d \<le> Suc (ds ! front)" "isValidMove game m \<longrightarrow> m \<in> set (cells s1)"
    using bfs_visit_tree[OF Cons.prems(1-4), of m] Cons.prems(5) by auto
  have l: "length ds = length (cells s)" using Cons.prems(1) by (simp add: search_tree_def)
  have f: "front < length (cells s1)" "cur = cells s1 ! front" "(ds @ es) ! front = ds ! front"
    using s1(2) Cons.prems(2,3) l by (simp_all add: nth_append)
  obtain s2 xs' es' where s2: "fold_option (bfs_visit game cur) ms s1 = Some s2" "cells s2 = cells s1 @ xs'"
    "search_tree game start s2 ((ds @ es) @ es')" "\<forall>d\<in>set ((ds @ es) @ es'). d \<le> Suc (ds ! front)"
    "\<forall>nx\<in>set ms. isValidMove game nx \<longrightarrow> nx \<in> set (cells s2)"
    using Cons.IH[OF s1(3) f(1,2)] s1(4) f(3) Cons.prems(5) by auto
  show ?case
    by (intro exI[of _ s2] exI[of _ "xs @ xs'"] exI[of _ "es @ es'"])
      (use s1 s2 in \<open>auto simp: fold_option_Cons\<close>)
qed

subsection \<open>Walking back\<close>

lemma backtrack_tree:
  assumes t: "search_tree game start s ds"
  shows "0 < i \<Longrightarrow> i < length (cells s) \<Longrightarrow> walk game k (cells s ! i) target \<Longrightarrow>
    \<exists>pos n. backtrack start (previous s) (cells s ! i) = Some pos \<and> walk_step game start pos \<and> walk game n pos target \<and> Suc n = k + ds ! i"
proof (induction i arbitrary: k rule: less_induct)
  case (less i)
  note t' = t[unfolded search_tree_def]
  obtain j where j: "j < i" "at_cell (previous s) (cells s ! i) = cells s ! j" "ds ! i = Suc (ds ! j)"
      "walk_step game (cells s ! j) (cells s ! i)" using t' less.prems by blast
  have b: "on_board (cells s ! i)" using t' less.prems(2) nth_mem by blast
  have st: "cells s ! j = start \<longleftrightarrow> j = 0"
    using t' j(1) less.prems(2) nth_eq_iff_index_eq[of "cells s" j 0] by auto
  show ?case
  proof (cases "j = 0")
    case True
    then have "backtrack start (previous s) (cells s ! i) = Some (cells s ! i)"
      by (subst backtrack.simps) (use b j(2) st in \<open>simp add: equalPoints_eq\<close>)
    then show ?thesis using True j st less.prems(3) t' by auto
  next
    case False
    have "backtrack start (previous s) (cells s ! i) = backtrack start (previous s) (cells s ! j)"
      by (subst backtrack.simps) (use False b j(2) st in \<open>simp add: equalPoints_eq\<close>)
    moreover have "walk game (Suc k) (cells s ! j) target" using walk_Cons less.prems(3) j(4) .
    ultimately show ?thesis using less.IH[of j "Suc k"] False j less.prems(2) by auto
  qed
qed

subsection \<open>The loop\<close>

definition bfs_inv :: "GameState \<Rightarrow> Point \<Rightarrow> Point \<Rightarrow> nat \<Rightarrow> search \<Rightarrow> nat list \<Rightarrow> bool" where
  "bfs_inv game start target front s ds \<longleftrightarrow>
     search_tree game start s ds \<and> front \<le> length (cells s) \<and>
     (front < length (cells s) \<longrightarrow> (\<forall>d\<in>set ds. d \<le> Suc (ds ! front))) \<and> (\<forall>i<front. cells s ! i \<noteq> target) \<and>
     (\<forall>i<front. \<forall>q. walk_step game (cells s ! i) q \<longrightarrow> (\<exists>j<length (cells s). cells s ! j = q \<and> ds ! j \<le> Suc (ds ! i)))"

text \<open>Whatever a walk of \<open>n\<close> steps reaches is in the queue with a depth of at most \<open>n\<close>, or an open cell is.\<close>

lemma walk_found:
  assumes "walk game n start q" "bfs_inv game start target front s ds"
  shows "(\<exists>j<length (cells s). cells s ! j = q \<and> ds ! j \<le> n) \<or> (\<exists>j. front \<le> j \<and> j < length (cells s) \<and> ds ! j \<le> n)"
  using assms
proof (induction rule: walk.induct)
  case (walk_0 p)
  then show ?case by (auto simp: bfs_inv_def search_tree_def intro!: exI[of _ 0])
next
  case (walk_Suc n p q r)
  then consider j where "j < length (cells s)" "cells s ! j = q" "ds ! j \<le> n" | j where "front \<le> j" "j < length (cells s)" "ds ! j \<le> n" by blast
  then show ?case
  proof cases
    case (1 j)
    show ?thesis
    proof (cases "j < front")
      case True
      then obtain i where "i < length (cells s)" "cells s ! i = r" "ds ! i \<le> Suc (ds ! j)"
        using walk_Suc.hyps(2) walk_Suc.prems 1(2) unfolding bfs_inv_def by blast
      then show ?thesis using 1(3) by (intro disjI1 exI[of _ i]) simp
    next
      case False
      then show ?thesis using 1 by (intro disjI2 exI[of _ j]) simp
    qed
  next
    case (2 j)
    then show ?thesis by (intro disjI2 exI[of _ j]) simp
  qed
qed

lemma bfs_inv_step:
  assumes inv: "bfs_inv game start target front s ds" and f: "front < length (cells s)" "cells s ! front \<noteq> target"
  shows "\<exists>s' ds'. fold_option (bfs_visit game (cells s ! front)) (moves (cells s ! front)) s = Some s' \<and> bfs_inv game start target (front + 1) s' ds'"
proof -
  note i = inv[unfolded bfs_inv_def]
  have l: "length ds = length (cells s)" using i by (simp add: search_tree_def)
  obtain s' xs es where s': "fold_option (bfs_visit game (cells s ! front)) (moves (cells s ! front)) s = Some s'"
    "cells s' = cells s @ xs" "search_tree game start s' (ds @ es)" "\<forall>d\<in>set (ds @ es). d \<le> Suc (ds ! front)"
    "\<forall>nx\<in>set (moves (cells s ! front)). isValidMove game nx \<longrightarrow> nx \<in> set (cells s')"
    using bfs_visits_tree[of game start s ds front "cells s ! front" "moves (cells s ! front)"] i f(1) by auto
  have l': "length (ds @ es) = length (cells s')" and so: "sorted (ds @ es)" using s'(3) by (simp_all add: search_tree_def)
  have old: "cells s' ! j = cells s ! j" "(ds @ es) ! j = ds ! j" if "j < length (cells s)" for j
    using that s'(2) l by (simp_all add: nth_append)
  have "\<exists>j<length (cells s'). cells s' ! j = q \<and> (ds @ es) ! j \<le> Suc ((ds @ es) ! k)"
    if k: "k < front + 1" and q: "walk_step game (cells s' ! k) q" for k q
  proof (cases "k = front")
    case True
    then have "q \<in> set (cells s')" using q s'(5) old(1)[OF f(1)] by (auto simp: walk_step_def)
    then obtain j where j: "j < length (cells s')" "cells s' ! j = q" by (auto simp: in_set_conv_nth)
    then have "(ds @ es) ! j \<in> set (ds @ es)" using l' nth_mem by metis
    then show ?thesis using j s'(4) True old(2)[OF f(1)] by metis
  next
    case False
    then have k': "k < front" "k < length (cells s)" using k f(1) by simp_all
    then obtain j where j: "j < length (cells s)" "cells s ! j = q" "ds ! j \<le> Suc (ds ! k)" using i q old(1)[OF k'(2)] by metis
    then show ?thesis using old[OF j(1)] old(2)[OF k'(2)] s'(2) by (intro exI[of _ j]) simp
  qed
  moreover have "\<forall>d\<in>set (ds @ es). d \<le> Suc ((ds @ es) ! (front + 1))" if "front + 1 < length (cells s')"
  proof -
    have "(ds @ es) ! front \<le> (ds @ es) ! (front + 1)" using so that l' by (intro sorted_nth_mono) simp_all
    then show ?thesis using s'(4) old(2)[OF f(1)] by (metis Suc_le_mono order_trans)
  qed
  moreover have "cells s' ! k \<noteq> target" if "k < front + 1" for k
    using that i f old(1)[of k] by (cases "k = front") auto
  ultimately have "bfs_inv game start target (front + 1) s' (ds @ es)"
    using s'(2,3) f(1) by (auto simp: bfs_inv_def)
  then show ?thesis using s'(1) by blast
qed

text \<open>What the search returns: \<^verbatim>\<open>NONE\<close> when no walk leads to the target; else the direction from the first
  cell after the start on a shortest walk, towards the target.\<close>

definition bfs_answer :: "GameState \<Rightarrow> Point \<Rightarrow> Point \<Rightarrow> Direction \<Rightarrow> bool" where
  "bfs_answer game start target d \<longleftrightarrow>
     (if \<exists>n. walk game n start target
      then \<exists>pos n. d = determineDirection pos target \<and> walk_step game start pos \<and> walk game n pos target \<and>
        (\<forall>m. walk game m start target \<longrightarrow> n < m)
      else d = NONE)"

lemma bfs_loop_answer:
  assumes "bfs_inv game start target front s ds" "start \<noteq> target"
  shows "\<exists>d. bfs_loop game start target front s = Some d \<and> bfs_answer game start target d"
  using assms(1)
proof (induction "MAP_CELLS - front" arbitrary: front s ds rule: less_induct)
  case less
  note i = less.prems[unfolded bfs_inv_def search_tree_def]
  have len: "length (cells s) \<le> MAP_CELLS" by (rule board_cells) (use i in blast)+
  consider "length (cells s) \<le> front" | "front < length (cells s)" "cells s ! front = target"
    | "front < length (cells s)" "cells s ! front \<noteq> target" by linarith
  then show ?case
  proof cases
    case 1
    then have f: "front = length (cells s)" using i by simp
    have "\<not> walk game n start target" for n
      using walk_found[OF _ less.prems, of n target] i f by auto
    then show ?thesis using 1 by (subst bfs_loop.simps) (simp add: bfs_answer_def)
  next
    case 2
    then have "0 < front" using i assms(2) by (cases front) auto
    from backtrack_tree[OF _ this 2(1), of game start ds 0 target] obtain pos n where
      p: "backtrack start (previous s) target = Some pos" "walk_step game start pos" "walk game n pos target" "Suc n = ds ! front"
      using less.prems 2(2) walk_0[of game target] by (auto simp: bfs_inv_def)
    have "n < m" if "walk game m start target" for m
    proof -
      have "ds ! front \<le> ds ! j" if "front \<le> j" "j < length (cells s)" for j using that i by (simp add: sorted_nth_mono)
      moreover have "j = front" if "j < length (cells s)" "cells s ! j = target" for j
        using that 2 i nth_eq_iff_index_eq[of "cells s" j front] by auto
      ultimately have "ds ! front \<le> m" using walk_found[OF that less.prems] by (metis order_trans)
      then show ?thesis using p(4) by simp
    qed
    then have "bfs_answer game start target (determineDirection pos target)"
      using p(2,3) walk_Cons[OF p(3,2)] by (auto simp: bfs_answer_def)
    then show ?thesis using 2 p(1) by (subst bfs_loop.simps) (simp add: equalPoints_eq)
  next
    case 3
    from bfs_inv_step[OF less.prems 3] obtain s' ds' where
      s': "fold_option (bfs_visit game (cells s ! front)) (moves (cells s ! front)) s = Some s'" "bfs_inv game start target (front + 1) s' ds'" by blast
    have "bfs_loop game start target front s = bfs_loop game start target (front + 1) s'"
      by (subst bfs_loop.simps) (use 3 s'(1) in \<open>simp add: equalPoints_eq\<close>)
    then show ?thesis using less.hyps[OF _ s'(2)] 3(1) len by auto
  qed
qed

lemma bfs_correct:
  assumes "on_board start" "start \<noteq> target"
  shows "\<exists>d. bfs junk game start target = Some d \<and> bfs_answer game start target d"
proof -
  have "bfs_inv game start target 0 \<lparr>cells = [start], visited = mark start True (\<lambda>_ _. False), previous = junk\<rparr> [0]"
    using search_tree_start[OF assms(1)] by (simp add: bfs_inv_def)
  from bfs_loop_answer[OF this assms(2)] show ?thesis using assms(1) by (simp add: bfs_def)
qed

subsection \<open>The other searches\<close>

text \<open>The depth first search reads outside of \<^verbatim>\<open>visited\<close> whenever a cell to the right of column 23 is a neighbour.\<close>

lemma dfs_reads_outside:
  assumes "start \<noteq> target" "walk_step game start nx" "24 \<le> unat (px nx)"
  shows "dfs junk game start target = None"
proof -
  have "fold_option (dfs_visit game start) (moves start) s = None" for s
    by (rule fold_option_None[of nx]) (use assms(2,3) in \<open>simp_all add: walk_step_def dfs_visit_def\<close>)
  then show ?thesis unfolding dfs_def using assms(1) by (subst dfs_loop.simps) (simp add: equalPoints_eq)
qed

text \<open>The queue of \<^verbatim>\<open>dijkstra\<close> forgets the second of three entries of the same priority.\<close>

lemma dequeue_three:
  "dequeue q f (f + 3) = (n, q', f') \<Longrightarrow> pn_priority (q f) \<le> pn_priority (q (f + 1)) \<Longrightarrow> pn_priority (q f) \<le> pn_priority (q (f + 2)) \<Longrightarrow>
    n = q f \<and> f' = f + 1 \<and> q' (f + 1) = q (f + 2) \<and> q' (f + 2) = q (f + 2)"
  by (auto simp: dequeue_def min_index_def Let_def upt_conv_Cons numeral_eq_Suc)

text \<open>A start with three neighbours, of which the search never sees the second.\<close>

definition corridor :: GameState where
  "corridor = blank_game\<lparr>gmap := \<lambda>y x. if y = 1 \<and> x < 4 \<or> y = 0 \<and> x = 1 then CHR '' '' else CHR ''#''\<rparr>"

lemma dijkstra_misses_target:
  "walk_step corridor (pt 1 1) (pt 2 1) \<and> dijkstra (\<lambda>_. \<lparr>pn_position = pt 0 0, pn_priority = 0\<rparr>) corridor (pt 1 1) (pt 2 1) = Some NONE"
  by code_simp
subsection \<open>Property\<close>

text \<open>C36: Breadth first search. From a cell of the board to a different one, \<^verbatim>\<open>bfs\<close> ends and stays inside its arrays,
  whatever the uninitialised array \<^verbatim>\<open>previous\<close> holds. It returns \<^verbatim>\<open>NONE\<close> when no walk leads to the target; otherwise
  it finds the first cell \<open>pos\<close> of a shortest walk and returns the direction from \<open>pos\<close> to the target, where the
  direction from the start to \<open>pos\<close> would be the move to make. So the answer for a neighbour is \<^verbatim>\<open>NONE\<close> as well.\<close>

theorem bfs_shortest_walk:
  assumes "on_board start" "start \<noteq> target"
  shows "(if \<exists>n. walk game n start target
      then \<exists>pos n. bfs junk game start target = Some (determineDirection pos target) \<and> walk_step game start pos \<and>
        walk game n pos target \<and> (\<forall>m. walk game m start target \<longrightarrow> n < m)
      else bfs junk game start target = Some NONE) \<and>
    (walk_step game start target \<longrightarrow> bfs junk game start target = Some NONE)"
proof -
  obtain d where d: "bfs junk game start target = Some d" "bfs_answer game start target d"
    using bfs_correct[OF assms] by blast
  have "d = NONE" if "walk_step game start target"
  proof -
    have w: "walk game 1 start target" using walk_Cons[OF walk_0 that] by simp
    then obtain pos where "d = determineDirection pos target" "walk game 0 pos target"
      using d(2) unfolding bfs_answer_def by (metis (mono_tags, lifting) less_one)
    then show ?thesis by (auto simp: determineDirection_def elim: walk.cases)
  qed
  then show ?thesis using d unfolding bfs_answer_def by (simp split: if_splits)
qed

theorem bfs_shortest_walk_witness:
  "walk corridor 2 (pt 1 1) (pt 3 1) \<and>
   (\<exists>pos n. bfs (\<lambda>_ _. pt 0 0) corridor (pt 1 1) (pt 3 1) = Some (determineDirection pos (pt 3 1)) \<and> walk_step corridor (pt 1 1) pos \<and>
     walk corridor n pos (pt 3 1) \<and> n < 2)"
proof -
  have s: "walk_step corridor (pt 1 1) (pt 2 1)" "walk_step corridor (pt 2 1) (pt 3 1)"
    by (simp_all add: walk_step_def moves_def pt_def isValidMove_def isWall_def get_cell_def corridor_def)
  have w: "walk corridor 2 (pt 1 1) (pt 3 1)" using walk_Cons[OF walk_Cons[OF walk_0 s(2)] s(1)] by (simp add: numeral_2_eq_2)
  have "on_board (pt 1 1)" "pt 1 1 \<noteq> pt 3 1" by (simp_all add: on_board_def pt_def)
  from bfs_shortest_walk[OF this, of corridor "\<lambda>_ _. pt 0 0"] w show ?thesis by metis
qed

end
