(* ===== verification/Zeos_Game.thy ===== *)
theory Zeos_Game
  imports Zeos_Search
begin

text \<open>
  The game process of \<^verbatim>\<open>user.c\<close> (\<^verbatim>\<open>gameloop\<close>); the keys come from the input process through one byte of a shared
  page.
  The game process is a state machine over its loops. The lemmas show its invariant, which names
  are entered, and that the board of \<^verbatim>\<open>pacman.c\<close> is never left.
\<close>

subsection \<open>The world of the game process\<close>

text \<open>What the process sees: \<open>clk n\<close> is what the \<open>n\<close>-th call of \<^verbatim>\<open>gettime\<close> returns and \<open>typed n\<close> the \<open>n\<close>-th byte
  read at \<^verbatim>\<open>addr[0]\<close>, the shared page that the input process writes. \<^verbatim>\<open>clear_str\<close> and \<open>currentTime0\<close> are the
  contents of locals that the program does not initialise. \<open>drawn\<close> collects the console calls.\<close>

record world =
  clk :: "nat \<Rightarrow> int"
  clk_n :: nat
  typed :: "nat \<Rightarrow> Byte"
  keys_n :: nat
  lcg_seed :: DWord
  clear_str :: "char list"
  currentTime0 :: DWord
  drawn :: "console_call list"

definition gettime :: "world \<Rightarrow> int \<times> world" where
  "gettime w = (clk w (clk_n w), w\<lparr>clk_n := clk_n w + 1\<rparr>)"

definition read_addr :: "world \<Rightarrow> Byte \<times> world" where
  "read_addr w = (typed w (keys_n w), w\<lparr>keys_n := keys_n w + 1\<rparr>)"

definition draw :: "console_call list \<Rightarrow> world \<Rightarrow> world" where
  "draw cs w = w\<lparr>drawn := drawn w @ cs\<rparr>"

definition sleep_w :: "DWord \<Rightarrow> world \<Rightarrow> world option" where
  "sleep_w ms w = map_option (\<lambda>n. w\<lparr>clk_n := clk_n w + n\<rparr>) (sleep (\<lambda>j. clk w (clk_n w + j)) ms)"

subsection \<open>The name of the player\<close>

text \<open>The array \<^verbatim>\<open>name\<close> has \<^verbatim>\<open>MAX_NAME_LENGTH + 1\<close> bytes; 46 is the full stop. The loop ends only if the keys
  make it end.\<close>

partial_function (option) name_loop :: "world \<Rightarrow> Byte list \<Rightarrow> nat \<Rightarrow> Byte \<Rightarrow> (Byte list \<times> world) option" where
  "name_loop w name numChars lastChar =
     (if numChars < MAX_NAME_LENGTH then
        let (input, w) = read_addr w in
        if input = 46 then Some (name, w)
        else
          let (name, numChars, lastChar) =
                (if input \<noteq> 0 \<and> input \<noteq> lastChar then (name[numChars := input], numChars + 1, input)
                 else (name, numChars, lastChar))
          in Option.bind (sleep_w 100 w) (\<lambda>w. name_loop w name numChars lastChar)
      else Some (name, w))"

definition c_string :: "Byte list \<Rightarrow> string" where
  "c_string bs = map (char_of \<circ> unat) (takeWhile (\<lambda>b. b \<noteq> 0) bs)"

definition get_player_name :: "world \<Rightarrow> Byte list \<Rightarrow> (Byte list \<times> world) option" where
  "get_player_name w name =
     map_option (\<lambda>(name, w). (name, draw [Print (c_string name)] w)) (name_loop w (name[MAX_NAME_LENGTH := 0]) 0 0)"

subsection \<open>The game loop\<close>

text \<open>\<^verbatim>\<open>TICKS_PER_SECOND/FPS\<close>.\<close>

abbreviation (input) TICKS_PER_FRAME :: DWord where "TICKS_PER_FRAME \<equiv> 80"

partial_function (option) frame_wait :: "DWord \<Rightarrow> world \<Rightarrow> world option" where
  "frame_wait prevTimer w =
     (let (t, w) = gettime w in
      if (word_of_int t :: DWord) - prevTimer < TICKS_PER_FRAME then frame_wait prevTimer w else Some w)"

text \<open>What both ends of a round do.\<close>

definition end_round :: "GameState \<Rightarrow> world \<Rightarrow> (GameState \<times> world) option" where
  "end_round game w =
     (let game = updateLeaderboard game (currentPlayer game) (sint (score game));
          w = draw (renderGameOver game) w
      in Option.bind (sleep_w 3000 w) (\<lambda>w.
         Option.bind (sleep_w 3000 (draw (renderLeaderboard game) w)) (\<lambda>w. Some (game, w))))"

text \<open>Where the process is: at the head of the loop over the rounds, at the head of the loop over the
  frames (with \<^verbatim>\<open>prevTimer\<close> and \<^verbatim>\<open>currentTime\<close>), or in the final empty loop. The array \<^verbatim>\<open>currentPlayer\<close> lives
  as long as the process.\<close>

datatype phase =
    Rounds GameState "Byte list"
  | Frames GameState "Byte list" DWord DWord
  | Ended GameState

definition next_round :: "GameState \<Rightarrow> Byte list \<Rightarrow> world \<Rightarrow> (phase \<times> world) option" where
  "next_round game name w =
     (if leaderboardSize game \<ge> MAX_LEADERBOARD_ENTRIES then Some (Ended game, draw (renderGameOver game) w)
      else
        Option.bind (get_player_name (draw renderIntroduceName w) name) (\<lambda>(name, w).
          let game = initializeRound game 0 NUM_LIVES 0 (c_string name);
              (lastTime, w) = gettime w;
              (t, w) = gettime w;
              w = draw (renderGame (clear_str w) game (word_of_int t)) w;
              (initTimer, w) = gettime w
          in Some (Frames game name (word_of_int initTimer) (currentTime0 w), w)))"

definition render_frame :: "GameState \<Rightarrow> Byte list \<Rightarrow> DWord \<Rightarrow> DWord \<Rightarrow> world \<Rightarrow> (phase \<times> world) option" where
  "render_frame game name prevTimer currentTime w =
     Option.bind (frame_wait prevTimer w) (\<lambda>w.
       let (t, w) = gettime w;
           w = draw (renderGame (clear_str w) game (word_of_int t - prevTimer)) w;
           (t, w) = gettime w
       in Some (Frames game name (word_of_int t) currentTime, w))"

text \<open>\<^verbatim>\<open>get_input\<close> is what the loop below does inline; no code calls it.\<close>

definition get_input :: "GameState \<Rightarrow> Byte \<Rightarrow> GameState" where
  "get_input game x = processInput game x"

definition game_frame :: "GameState \<Rightarrow> Byte list \<Rightarrow> DWord \<Rightarrow> DWord \<Rightarrow> world \<Rightarrow> (phase \<times> world) option" where
  "game_frame game name prevTimer currentTime w =
     (let (key, w) = read_addr w;
          game = processInput game key;
          lastTime = currentTime;
          (t, w) = gettime w;
          currentTime = get_time_ms t
      in Option.bind (updateGameState game (currentTime - lastTime) (lcg_seed w)) (\<lambda>(game, seed).
         let w = w\<lparr>lcg_seed := seed\<rparr> in
         if playerHasNoLife game then Option.bind (end_round game w) (\<lambda>(game, w). Some (Rounds game name, w))
         else if isRoundOver game then
           if level game = 0 then
             Option.bind (sleep_w 2000 w) (\<lambda>w.
               render_frame (initializeRound game 1 (lives game) (score game) (currentPlayer game)) name prevTimer currentTime w)
           else Option.bind (end_round game w) (\<lambda>(game, w). Some (Rounds game name, w))
         else render_frame game name prevTimer currentTime w))"

text \<open>One iteration of the loop the process is in; \<^const>\<open>None\<close> when a loop inside it does not end.\<close>

fun gameloop_step :: "phase \<times> world \<Rightarrow> (phase \<times> world) option" where
  "gameloop_step (Rounds game name, w) = next_round game name w"
| "gameloop_step (Frames game name prevTimer currentTime, w) = game_frame game name prevTimer currentTime w"
| "gameloop_step (Ended game, w) = Some (Ended game, w)"

definition gameloop_start :: "GameState \<Rightarrow> Byte list \<Rightarrow> world \<Rightarrow> phase \<times> world" where
  "gameloop_start game name w =
     (let w = w\<lparr>lcg_seed := srand 322321\<rparr>;
          game = initializeLeaderboard game
      in (Rounds game (name[MAX_NAME_LENGTH := 0]), draw [Print (deca_text (leaderboardSize game))] w))"

inductive game_reaches :: "phase \<times> world \<Rightarrow> phase \<times> world \<Rightarrow> bool" for c where
  start: "game_reaches c c"
| step: "game_reaches c d \<Longrightarrow> gameloop_step d = Some e \<Longrightarrow> game_reaches c e"

subsection \<open>What an update leaves alone\<close>

text \<open>The part of the state that an update of the game leaves alone.\<close>

definition settings :: "GameState \<Rightarrow> DWord \<times> DWord \<times> (nat \<Rightarrow> LeaderboardEntry) \<times> int \<times> string" where
  "settings game = (pelletsRemaining game, level game, leaderboard game, leaderboardSize game, currentPlayer game)"

lemma settings_simps [simp]:
  "settings (set_cell p c game) = settings game" "settings (with_pacman f game) = settings game"
  "settings (with_ghost i g game) = settings game" "settings (changeGhostsBehaviour bh game) = settings game"
  "settings (game\<lparr>score := s\<rparr>) = settings game" "settings (game\<lparr>lives := l\<rparr>) = settings game"
  by (simp_all add: settings_def set_cell_def with_pacman_def with_ghost_def changeGhostsBehaviour_def upt_rec)

lemma consume_settings [simp]: "settings (consume p game) = settings game" "lives (consume p game) = lives game"
  by (simp_all add: consume_def removeItem_def)

lemma pacman_move_settings [simp]:
  "settings (pacman_move p game) = settings game" "lives (pacman_move p game) = lives game"
  by (simp_all add: pacman_move_def Let_def)

lemma ghost_collisions_settings:
  "settings (ghost_collisions nx is game) = settings game \<and>
   (lives (ghost_collisions nx is game) = lives game \<or> lives (ghost_collisions nx is game) = lives game - 1)"
  by (induction nx "is" game rule: ghost_collisions.induct) (auto simp: Let_def)

lemma updatePacmanPosition_settings:
  "settings (updatePacmanPosition game) = settings game \<and>
   (lives (updatePacmanPosition game) = lives game \<or> lives (updatePacmanPosition game) = lives game - 1)"
  using ghost_collisions_settings[of "pacman_next (pacman game)" "[0..<4]" "pacman_move (pacman_next (pacman game)) game"]
  by (auto simp: updatePacmanPosition_def Let_def)

lemma ghost_move_settings [simp]: "settings (ghost_move i nx game) = settings game"
  by (simp add: ghost_move_def Let_def)

lemma updateGhosts_from_settings:
  "updateGhosts_from is game seed = Some (game', seed') \<Longrightarrow> settings game' = settings game \<and> lives game' = lives game"
  by (induction "is" arbitrary: game seed) (fastforce simp: Let_def split: if_splits option.splits prod.splits)+

lemma ghost_timer_settings: "settings (ghost_timer e i game) = settings game \<and> lives (ghost_timer e i game) = lives game"
  by (simp add: ghost_timer_def Let_def)

lemma updateTimerState_settings:
  "settings (updateTimerState e game) = settings game \<and> lives (updateTimerState e game) = lives game"
  unfolding updateTimerState_def
  by (rule fold_inv) (simp_all add: ghost_timer_settings boost_timer_def respawn_timer_def Let_def)

lemma updateGameState_settings:
  assumes "updateGameState game e seed = Some (game', seed')"
  shows "settings game' = settings game \<and> (lives game' = lives game \<or> lives game' = lives game - 1)"
proof -
  obtain g where "updateGhosts_from [0..<4] (updatePacmanPosition game) seed = Some (g, seed')"
    and "game' = updateTimerState 100 g"
    using assms by (auto simp: updateGameState_def updateGhostsPositions_def)
  then show ?thesis
    using updateGhosts_from_settings updateTimerState_settings updatePacmanPosition_settings by metis
qed

lemma processInput_settings [simp]:
  "settings (processInput game key) = settings game" "lives (processInput game key) = lives game"
  by (simp_all add: processInput_def Let_def)

text \<open>The invariant of the game process.\<close>

fun phase_ok :: "phase \<Rightarrow> bool" where
  "phase_ok (Rounds game name) \<longleftrightarrow> 0 \<le> leaderboardSize game \<and> leaderboardSize game \<le> 2 \<and> length name = 11"
| "phase_ok (Frames game name prevTimer currentTime) \<longleftrightarrow>
     0 \<le> leaderboardSize game \<and> leaderboardSize game < 2 \<and> length name = 11 \<and>
     board_ok (wall_at 0) game \<and> timers_ok game \<and> level game = 0 \<and> pelletsRemaining game = 736 \<and> lives game = 1"
| "phase_ok (Ended game) \<longleftrightarrow> leaderboardSize game = 2"

lemma name_loop_length:
  "name_loop w name n c = Some (name', w') \<Longrightarrow> length name' = length name"
proof -
  assume a: "name_loop w name n c = Some (name', w')"
  have "length (fst (name', w')) = length name"
    by (rule name_loop.raw_induct[OF _ a, of "\<lambda>w name n c r. length (fst r) = length name"])
      (force simp: Let_def bind_eq_Some_conv split: if_splits prod.splits)
  then show ?thesis by simp
qed

lemma initializeRound_settings:
  "settings (initializeRound game lv li sc player) =
     (if lv = 0 then 736 else 1013, lv, leaderboard game, leaderboardSize game, player)"
  "lives (initializeRound game lv li sc player) = li"
  by (simp_all add: initializeRound_def initializeGhosts_def initializePacman_def initializeMap_def Let_def upt_rec)
    (simp_all add: settings_def)

lemma next_round_ok:
  assumes "phase_ok (Rounds game name)" "next_round game name w = Some (ph, w')"
  shows "phase_ok ph"
proof (cases "leaderboardSize game \<ge> 2")
  case False
  let ?g = "\<lambda>n. initializeRound game 0 1 0 (c_string n)"
  have "board_ok (wall_at 0) (?g n) \<and> timers_ok (?g n) \<and> lives (?g n) = 1 \<and> level (?g n) = 0 \<and>
      pelletsRemaining (?g n) = 736 \<and> leaderboardSize (?g n) = leaderboardSize game" for n
    using initializeRound_ok[of 0 game 1 0 "c_string n"] initializeRound_settings[of game 0 1 0 "c_string n"]
    by (simp add: settings_def)
  then show ?thesis using assms False
    by (auto simp: next_round_def get_player_name_def bind_eq_Some_conv Let_def gettime_def dest!: name_loop_length)
qed (use assms in \<open>auto simp: next_round_def\<close>)

lemma end_round_size:
  "end_round game w = Some (game', w') \<Longrightarrow>
   leaderboardSize game' = (if leaderboardSize game < 2 then leaderboardSize game + 1 else leaderboardSize game)"
  by (auto simp: end_round_def Let_def bind_eq_Some_conv updateLeaderboard_def)

lemma render_frame_phase:
  "render_frame game name prevTimer currentTime w = Some (ph, w') \<Longrightarrow> \<exists>t. ph = Frames game name t currentTime"
  by (auto simp: render_frame_def bind_eq_Some_conv Let_def gettime_def)

lemma game_frame_ok:
  assumes ok: "phase_ok (Frames game name prevTimer currentTime)"
      and step: "game_frame game name prevTimer currentTime w = Some (ph, w')"
  shows "phase_ok ph"
proof -
  obtain key e s game' s' w1 t where upd: "updateGameState (processInput game key) e s = Some (game', s')"
    and rest: "(if playerHasNoLife game' then Option.bind (end_round game' w1) (\<lambda>(game, w). Some (Rounds game name, w))
         else if isRoundOver game' then
           if level game' = 0 then
             Option.bind (sleep_w 2000 w1) (\<lambda>w.
               render_frame (initializeRound game' 1 (lives game') (score game') (currentPlayer game')) name prevTimer t w)
           else Option.bind (end_round game' w1) (\<lambda>(game, w). Some (Rounds game name, w))
         else render_frame game' name prevTimer t w1) = Some (ph, w')"
    using step unfolding game_frame_def Let_def read_addr_def gettime_def prod.case
    by (auto simp only: bind_eq_Some_conv split_paired_Ex prod.case)
  have "board_ok (wall_at 0) game'" using level0.updateGameState_board[OF _ upd] ok by simp
  moreover have "timers_ok game'" using updateGameState_timers[OF _ upd] ok by simp
  moreover have "settings game' = settings game" "lives game' = 1 \<or> lives game' = 0"
    using updateGameState_settings[OF upd] ok by auto
  ultimately show ?thesis using rest ok end_round_size render_frame_phase
    by (fastforce simp: settings_def playerHasNoLife_def isRoundOver_def bind_eq_Some_conv split: if_splits)
qed

lemma gameloop_step_ok:
  "phase_ok ph \<Longrightarrow> gameloop_step (ph, w) = Some (ph', w') \<Longrightarrow> phase_ok ph'"
  by (cases ph) (auto simp del: phase_ok.simps dest: next_round_ok game_frame_ok)

lemma gameloop_start_ok:
  "length name = 11 \<Longrightarrow> phase_ok (fst (gameloop_start game name w))"
  by (simp add: gameloop_start_def Let_def initializeLeaderboard_def upt_rec)

subsection \<open>The cells an update looks at\<close>

text \<open>The cells that the ghost loop tests: the one in the first direction drawn and, as long as the last one tested
  holds a wall or a ghost, the one in the next direction drawn. The relation covers loops that do not end.\<close>

inductive retry_tests :: "GameState \<Rightarrow> Point \<Rightarrow> Point \<Rightarrow> DWord \<Rightarrow> Point \<Rightarrow> bool" for game initial where
  this: "retry_tests game initial nx seed nx"
| again: "isWall game nx \<or> isGhost game nx \<Longrightarrow> random seed = (d, seed') \<Longrightarrow>
    retry_tests game initial (getNextPoint initial d) seed' q \<Longrightarrow> retry_tests game initial nx seed q"

inductive ghosts_test :: "nat list \<Rightarrow> GameState \<Rightarrow> DWord \<Rightarrow> Point \<Rightarrow> bool" where
  dead: "g_isAlive (ghosts game i) = 0 \<Longrightarrow> ghosts_test is game seed q \<Longrightarrow> ghosts_test (i # is) game seed q"
| moves: "g_isAlive (ghosts game i) \<noteq> 0 \<Longrightarrow> g_behaviour (ghosts game i) \<noteq> STILL \<Longrightarrow> random seed = (d, seed') \<Longrightarrow>
    retry_tests game (g_position (ghosts game i)) (getNextPoint (g_position (ghosts game i)) d) seed' q \<Longrightarrow>
    ghosts_test (i # is) game seed q"
| moved: "g_isAlive (ghosts game i) \<noteq> 0 \<Longrightarrow> g_behaviour (ghosts game i) \<noteq> STILL \<Longrightarrow> random seed = (d, seed') \<Longrightarrow>
    ghost_retry game (g_position (ghosts game i)) (getNextPoint (g_position (ghosts game i)) d) seed' = Some (nx, seed'') \<Longrightarrow>
    ghosts_test is (ghost_move i nx game) seed'' q \<Longrightarrow> ghosts_test (i # is) game seed q"

text \<open>The cells tested in one update: the one the player is about to enter, then those of the ghosts.\<close>

definition update_tests :: "GameState \<Rightarrow> DWord \<Rightarrow> Point \<Rightarrow> bool" where
  "update_tests game seed q \<longleftrightarrow> q = pacman_next (pacman game) \<or> ghosts_test [0..<NUM_GHOSTS] (updatePacmanPosition game) seed q"

text \<open>The cell a ghost moves to is the last one tested.\<close>

lemma ghost_retry_tested: "ghost_retry game p nx seed = Some (nx', seed') \<Longrightarrow> retry_tests game p nx seed nx'"
proof -
  assume a: "ghost_retry game p nx seed = Some (nx', seed')"
  let ?P = "\<lambda>game p nx seed r. retry_tests game p nx seed (fst r)"
  have "?P game p nx seed (nx', seed')"
    by (rule ghost_retry.raw_induct[OF _ a, of ?P]) (auto intro: retry_tests.intros split: if_splits prod.splits)
  then show ?thesis by simp
qed

context walled_board
begin

lemma retry_tests_in_board:
  "retry_tests game p nx seed q \<Longrightarrow> open_cell wall p \<Longrightarrow> in_board nx \<Longrightarrow> in_board q"
  by (induction rule: retry_tests.induct) (simp_all add: getNextPoint_in_board)

lemma ghosts_test_in_board:
  "ghosts_test is game seed q \<Longrightarrow> board_ok wall game \<Longrightarrow> set is \<subseteq> {..<4} \<Longrightarrow> in_board q"
proof (induction rule: ghosts_test.induct)
  case (moves game i seed d seed' q "is")
  then have "open_cell wall (g_position (ghosts game i))" by (simp add: board_okD)
  then show ?case using moves(4) by (auto intro: retry_tests_in_board getNextPoint_in_board)
next
  case (moved game i seed d seed' nx seed'' "is" q)
  then have p: "open_cell wall (g_position (ghosts game i))" and i: "i < 4" by (simp_all add: board_okD)
  have "in_board nx"
    by (rule retry_tests_in_board[OF ghost_retry_tested[OF moved(4)] p getNextPoint_in_board[OF p]])
  then show ?case using moved ghost_move_ok[OF _ i] by simp
qed simp

lemma update_tests_in_board: "board_ok wall game \<Longrightarrow> update_tests game seed q \<Longrightarrow> in_board q"
  using ghosts_test_in_board[OF _ updatePacmanPosition_ok, of "[0..<4]" game seed q] pacman_next_in_board[of game]
  by (auto simp: update_tests_def lessThan_atLeast0)

end

subsection \<open>Entering a name\<close>

text \<open>The keys a player has entered when the bytes \<open>ks\<close> have been polled: a byte counts when it is not
  zero and differs from the one that counted before.\<close>

fun entered :: "Byte \<Rightarrow> Byte list \<Rightarrow> Byte list" where
  "entered c [] = []"
| "entered c (k # ks) = (if k \<noteq> 0 \<and> k \<noteq> c then k # entered k ks else entered c ks)"

lemma entered_remdups: "c # entered c ks = remdups_adj (c # filter (\<lambda>k. k \<noteq> 0) ks)"
  by (induction ks arbitrary: c) auto

lemma name_loop_entered:
  assumes "\<forall>k. sleep (\<lambda>j. clk w (k + j)) 100 \<noteq> None" "46 \<notin> set ks"
      "\<forall>j<length ks. typed w (keys_n w + j) = ks ! j" "typed w (keys_n w + length ks) = 46"
      "n \<le> 10" "length name = 11"
  shows "\<exists>w'. name_loop w name n c =
    Some (take n name @ take (10 - n) (entered c ks) @ drop (n + length (take (10 - n) (entered c ks))) name, w')"
  using assms
proof (induction ks arbitrary: w name n c)
  case Nil
  then show ?case by (subst name_loop.simps) (simp add: read_addr_def)
next
  case (Cons k ks)
  show ?case
  proof (cases "n = 10")
    case True
    then show ?thesis by (subst name_loop.simps) simp
  next
    case False
    then have n: "n < 10" using Cons.prems(5) by simp
    have k: "typed w (keys_n w) = k" "k \<noteq> 46" using Cons.prems(2,3) by auto
    let ?w = "w\<lparr>keys_n := keys_n w + 1\<rparr>"
    obtain m where m: "sleep (\<lambda>j. clk w (clk_n w + j)) 100 = Some m" using Cons.prems(1) by blast
    let ?w' = "?w\<lparr>clk_n := clk_n w + m\<rparr>"
    have sl: "sleep_w 100 ?w = Some ?w'" using m by (simp add: sleep_w_def)
    have ks: "typed w (Suc (keys_n w + j)) = ks ! j" if "j < length ks" for j
      using Cons.prems(3) that by (auto dest: spec[of _ "Suc j"])
    let ?new = "k \<noteq> 0 \<and> k \<noteq> c"
    let ?name = "if ?new then name[n := k] else name" and ?n = "if ?new then n + 1 else n" and ?c = "if ?new then k else c"
    have "name_loop w name n c = name_loop ?w' ?name ?n ?c"
      using n k sl by (subst name_loop.simps) (auto simp: read_addr_def Let_def)
    moreover have "\<exists>w'. name_loop ?w' ?name ?n ?c =
        Some (take ?n ?name @ take (10 - ?n) (entered ?c ks) @ drop (?n + length (take (10 - ?n) (entered ?c ks))) ?name, w')"
      by (rule Cons.IH) (use Cons.prems n ks in auto)
    ultimately show ?thesis using n Cons.prems(6)
      by (cases ?new) (auto simp: take_Suc_conv_app_nth take_Cons' numeral_eq_Suc)
  qed
qed

subsection \<open>Properties\<close>

text \<open>A round in which only the first ghost is alive.\<close>

definition lone_ghost :: GameState where
  "lone_ghost = fold (\<lambda>i. with_ghost i (\<lambda>g. g\<lparr>g_isAlive := 0, g_deadTimer := RESPAWN_TIME\<rparr>)) [1, 2, 3]
     (initializeRound blank_game 1 1 0 ''ana'')"

text \<open>A round of level 0 in which the first ghost stands in a corridor between two others.\<close>

definition enclosed_ghost :: GameState where
  "enclosed_ghost = with_ghost 0 (\<lambda>g. g\<lparr>g_position := pt 1 3\<rparr>) (with_ghost 1 (\<lambda>g. g\<lparr>g_position := pt 1 2\<rparr>)
     (with_ghost 2 (\<lambda>g. g\<lparr>g_position := pt 1 4\<rparr>) (initializeRound blank_game 0 1 0 ''ana'')))"

lemma lone_ghost_ok: "board_ok (wall_at 1) lone_ghost \<and> timers_ok lone_ghost"
  using initializeRound_ok[of 1 blank_game 1 0 "''ana''"]
  by (auto simp: lone_ghost_def board_okD intro!: board_intros timers_intros)

lemma upt_4: "[0..<4] = [0, 1, 2, 3 :: nat]"
  by (simp add: upt_rec)

lemma lone_ghost_moves:
  "\<exists>game' seed'. updateGameState (processInput lone_ghost 100) 0 322321 = Some (game', seed')"
proof -
  let ?g = "updatePacmanPosition (processInput lone_ghost 100)"
  have a: "g_isAlive (ghosts ?g 0) \<noteq> 0 \<and> g_behaviour (ghosts ?g 0) \<noteq> STILL \<and> free_dir ?g (g_position (ghosts ?g 0)) LEFT"
    by code_simp
  have d: "g_isAlive (ghosts ?g 1) = 0 \<and> g_isAlive (ghosts ?g 2) = 0 \<and> g_isAlive (ghosts ?g 3) = 0"
    by code_simp
  obtain dir s where "random 322321 = (dir, s)" by fastforce
  moreover obtain nx s' where
    "ghost_retry ?g (g_position (ghosts ?g 0)) (getNextPoint (g_position (ghosts ?g 0)) dir) s = Some (nx, s')"
    using ghost_retry_returns[of ?g "g_position (ghosts ?g 0)" dir s] a by auto
  moreover have "g_isAlive (ghosts (ghost_move 0 nx ?g) i) = g_isAlive (ghosts ?g i)" for i
    by (simp add: ghost_move_def Let_def)
  ultimately show ?thesis using a d
    by (simp add: updateGameState_def updateGhostsPositions_def upt_4)
qed

text \<open>C37: an update of the game keeps the maze and stays inside the board. Let the walls be those of the level, and the
  player, the ghosts and their return points be on open cells. Then every cell that the update tests after the player's
  input, for the player and for each of the ghosts in turn, however often the ghost loop draws, is within the array; and when the update
  ends, the walls and positions are again as required, no running timer has wrapped, and level, pellet counter and leaderboard are
  the same.\<close>

theorem game_update_keeps_maze:
  assumes "lv < 2" "board_ok (wall_at lv) game" "timers_ok game"
  shows "(\<forall>q. update_tests (processInput game key) seed q \<longrightarrow> in_board q) \<and>
    (\<forall>game' seed'. updateGameState (processInput game key) e seed = Some (game', seed') \<longrightarrow>
       board_ok (wall_at lv) game' \<and> timers_ok game' \<and> settings game' = settings game)"
proof -
  note w = walled_wall_at[OF assms(1)]
  have g: "board_ok (wall_at lv) (processInput game key)" "timers_ok (processInput game key)" using assms(2,3) by simp_all
  show ?thesis
    using walled_board.update_tests_in_board[OF w g(1)] walled_board.updateGameState_board[OF w g(1)]
      updateGameState_timers[OF g(2)] updateGameState_settings[of "processInput game key"] by fastforce
qed

theorem game_update_keeps_maze_witness:
  "\<exists>q r game' seed'. update_tests (processInput lone_ghost 100) 322321 q \<and> in_board q \<and> q = pacman_next (pacman (processInput lone_ghost 100)) \<and>
     ghosts_test [0..<4] (updatePacmanPosition (processInput lone_ghost 100)) 322321 r \<and> in_board r \<and>
     updateGameState (processInput lone_ghost 100) 0 322321 = Some (game', seed') \<and> board_ok (wall_at 1) game' \<and> timers_ok game'"
proof -
  let ?g = "updatePacmanPosition (processInput lone_ghost 100)"
  have a: "g_isAlive (ghosts ?g 0) \<noteq> 0 \<and> g_behaviour (ghosts ?g 0) \<noteq> STILL" by code_simp
  obtain d s where "random 322321 = (d, s)" by fastforce
  then have r: "ghosts_test [0..<4] ?g 322321 (getNextPoint (g_position (ghosts ?g 0)) d)"
    using a ghosts_test.moves[OF _ _ _ retry_tests.this, of ?g 0] by (simp add: upt_4)
  obtain game' seed' where u: "updateGameState (processInput lone_ghost 100) 0 322321 = Some (game', seed')"
    using lone_ghost_moves by blast
  have k: "(\<forall>q. update_tests (processInput lone_ghost 100) 322321 q \<longrightarrow> in_board q) \<and>
      (\<forall>game' seed'. updateGameState (processInput lone_ghost 100) 0 322321 = Some (game', seed') \<longrightarrow>
         board_ok (wall_at 1) game' \<and> timers_ok game' \<and> settings game' = settings lone_ghost)"
    by (rule game_update_keeps_maze) (use lone_ghost_ok in simp_all)
  show ?thesis
    by (intro exI[of _ "pacman_next (pacman (processInput lone_ghost 100))"] exI[of _ "getNextPoint (g_position (ghosts ?g 0)) d"] exI[of _ game'] exI[of _ seed'])
      (use k u r in \<open>auto simp: update_tests_def\<close>)
qed

text \<open>C38: the loop that draws a new direction for a ghost ends if and only if some direction is free, whatever
  the seed: the generator reaches every direction.\<close>

theorem ghost_draw_ends_iff:
  "(\<exists>nx seed'. ghost_retry game p (getNextPoint p d) seed = Some (nx, seed')) \<longleftrightarrow> (\<exists>d'. free_dir game p d')"
  using ghost_retry_returns[of game p d seed] by simp

text \<open>A ghost between two others in a corridor stops the game for good.\<close>

lemma enclosed_ghost_hangs:
  "board_ok (wall_at 0) enclosed_ghost \<and> timers_ok enclosed_ghost \<and> updateGhostsPositions enclosed_ghost seed = None"
proof -
  have "list_all (open_cell (wall_at 0)) [pt 1 2, pt 1 3, pt 1 4]" by code_simp
  then have ok: "board_ok (wall_at 0) enclosed_ghost \<and> timers_ok enclosed_ghost"
    using initializeRound_ok[of 0 blank_game 1 0 "''ana''"]
    by (auto simp: enclosed_ghost_def board_okD timers_okD intro!: board_intros timers_intros)
  let ?g = enclosed_ghost
  have a: "g_isAlive (ghosts ?g 0) \<noteq> 0 \<and> g_behaviour (ghosts ?g 0) \<noteq> STILL \<and>
      list_all (\<lambda>d. \<not> free_dir ?g (g_position (ghosts ?g 0)) d) [UP, DOWN, LEFT, RIGHT, NONE]" by code_simp
  then have "\<not> free_dir ?g (g_position (ghosts ?g 0)) d" for d by (cases d) simp_all
  then have "ghost_retry ?g (g_position (ghosts ?g 0)) (getNextPoint (g_position (ghosts ?g 0)) d) s = None" for d s
    by (rule ghost_retry_diverges)
  then show ?thesis using a ok
    by (simp add: updateGhostsPositions_def upt_rec Let_def split: prod.split)
qed

text \<open>C39: the invariant of the game process: whatever is typed and whatever the clock shows, while frames
  are played the game is in level 0 with its maze intact, one life and the initial pellet counter
  (so that the round is never won and level 1 never starts), the leaderboard has at most two entries,
  and the process ends when it is full.\<close>

theorem game_process_invariant:
  assumes "length name = 11" "game_reaches (gameloop_start game name w) (ph, w')"
  shows "phase_ok ph"
proof -
  have "phase_ok (fst c)" if "game_reaches (gameloop_start game name w) c" for c
    using that
  proof induction
    case start
    show ?case by (rule gameloop_start_ok[OF assms(1)])
  next
    case (step d e)
    then show ?case by (cases d; cases e) (auto dest: gameloop_step_ok)
  qed
  from this[OF assms(2)] show ?thesis by simp
qed

theorem game_process_invariant_witness:
  "\<exists>game name t c w'. game_reaches (gameloop_start blank_game (replicate 11 0)
       \<lparr>clk = int, clk_n = 0, typed = \<lambda>_. 46, keys_n = 0, lcg_seed = 0, clear_str = [], currentTime0 = 0, drawn = []\<rparr>)
     (Frames game name t c, w') \<and> phase_ok (Frames game name t c)"
proof -
  let ?w = "\<lparr>clk = int, clk_n = 0, typed = \<lambda>_. 46, keys_n = 0, lcg_seed = 0, clear_str = [], currentTime0 = 0, drawn = []\<rparr>"
  let ?s = "gameloop_start blank_game (replicate 11 0) ?w"
  have "\<exists>game name t c w'. gameloop_step ?s = Some (Frames game name t c, w')"
    by (simp add: gameloop_start_def Let_def next_round_def initializeLeaderboard_def blank_game_def upt_rec
        get_player_name_def name_loop.simps read_addr_def draw_def gettime_def)
  then obtain game name t c w' where "game_reaches ?s (Frames game name t c, w')"
    using game_reaches.step[OF game_reaches.start[of ?s]] by blast
  then show ?thesis using game_process_invariant[of "replicate 11 0" blank_game ?w] by (metis length_replicate)
qed

text \<open>With a clock that advances at each reading a pause ends.\<close>

lemma sleep_loop_ends: "\<not> (word_of_int (g (n + d)) :: DWord) < e \<Longrightarrow> sleep_loop g e n \<noteq> None"
  by (induction d arbitrary: n) (subst sleep_loop.simps; fastforce)+

lemma sleep_100_returns: "sleep (\<lambda>j. int (k + j)) 100 \<noteq> None"
proof -
  have "\<not> (word_of_int (int (k + (1 + 49))) :: DWord) < word_of_int (int (k + 0)) + 100 div word_of_int TICKS_PER_MILISECOND"
    by simp
  then show ?thesis unfolding sleep_def Let_def by (rule sleep_loop_ends)
qed

text \<open>C40: entering a name ends when a full stop is typed (if the pauses end), and yields the bytes typed before
  it without zeros and without repetitions of the byte before, up to ten. The rest of the array keeps
  its old contents, apart from the final zero.\<close>

theorem get_player_name_spec:
  assumes "\<forall>k. sleep (\<lambda>j. clk w (k + j)) 100 \<noteq> None" "46 \<notin> set ks"
      "\<forall>j<length ks. typed w (keys_n w + j) = ks ! j" "typed w (keys_n w + length ks) = 46" "length name = 11"
  shows "\<exists>name' w'. get_player_name w name = Some (name', w') \<and> length name' = 11 \<and> name' ! 10 = 0 \<and>
    (let typed = take 10 (remdups_adj (filter (\<lambda>k. k \<noteq> 0) ks)) in
     take (length typed) name' = typed \<and> (\<forall>j<10. length typed \<le> j \<longrightarrow> name' ! j = name ! j))"
proof -
  define t where "t = take 10 (entered 0 ks)"
  have "entered 0 ks = remdups_adj (filter (\<lambda>k. k \<noteq> 0) ks)"
  proof (cases "filter (\<lambda>k. k \<noteq> 0) ks")
    case Nil
    then show ?thesis using entered_remdups[of 0 ks] by simp
  next
    case (Cons a as)
    then have "a \<noteq> 0" by (auto dest: filter_eq_ConsD)
    then show ?thesis using entered_remdups[of 0 ks] Cons by simp
  qed
  then have e: "take 10 (remdups_adj (filter (\<lambda>k. k \<noteq> 0) ks)) = t" by (simp add: t_def)
  have len: "length t \<le> 10" by (simp add: t_def)
  let ?n = "t @ drop (length t) (name[10 := 0])"
  obtain w' where w': "name_loop w (name[10 := 0]) 0 0 = Some (?n, w')"
    using name_loop_entered[OF assms(1-4), of 0 "name[10 := 0]" 0] assms(5) by (auto simp: t_def)
  have n: "length ?n = 11" "?n ! 10 = 0" using assms(5) len by (simp_all add: nth_append)
  moreover have "?n ! j = name ! j" if "j < 10" "length t \<le> j" for j
    using assms(5) len that by (simp add: nth_append)
  moreover have "take (length t) ?n = t" by simp
  moreover have "get_player_name w name = Some (?n, draw [Print (c_string ?n)] w')"
    using w' by (simp add: get_player_name_def)
  ultimately show ?thesis unfolding e Let_def by blast
qed

theorem get_player_name_spec_witness:
  "\<exists>name' w'. get_player_name \<lparr>clk = int, clk_n = 0, typed = \<lambda>n. if n < 3 then 97 else if n = 3 then 98 else 46, keys_n = 0,
       lcg_seed = 0, clear_str = [], currentTime0 = 0, drawn = []\<rparr> (replicate 11 120) = Some (name', w') \<and>
     take 2 name' = [97, 98] \<and> name' ! 2 = 120 \<and> name' ! 10 = 0"
proof -
  let ?w = "\<lparr>clk = int, clk_n = 0, typed = \<lambda>n. if n < 3 then 97 else if n = 3 then 98 else 46, keys_n = 0,
       lcg_seed = 0, clear_str = [], currentTime0 = 0, drawn = []\<rparr>"
  have "\<forall>j<length [97, 97, 97, 98 :: Byte]. typed ?w (keys_n ?w + j) = [97, 97, 97, 98] ! j"
    by (auto simp: less_Suc_eq numeral_eq_Suc)
  note spec = get_player_name_spec[of ?w "[97, 97, 97, 98]" "replicate 11 120", OF _ _ this]
  have typed: "take 10 (remdups_adj (filter (\<lambda>k. k \<noteq> 0) [97, 97, 97, 98 :: Byte])) = [97, 98]" by simp
  obtain name' w' where
    n: "get_player_name ?w (replicate 11 120) = Some (name', w')" "name' ! 10 = 0" "take (length [97, 98 :: Byte]) name' = [97, 98]"
      "\<forall>j<10. length [97, 98 :: Byte] \<le> j \<longrightarrow> name' ! j = replicate 11 (120 :: Byte) ! j"
    using spec sleep_100_returns unfolding Let_def typed by auto
  then have "name' ! 2 = 120" "take 2 name' = [97, 98]" by (auto simp: numeral_2_eq_2)
  then show ?thesis using n by blast
qed

end
