(* ===== verification/Zeos_User.thy ===== *)
theory Zeos_User
  imports Zeos_Runs Zeos_Game
begin

text \<open>
  The user side of the system calls and the program that makes them: the wrappers of \<^verbatim>\<open>user_misc.S\<close>, and
  \<^verbatim>\<open>main\<close> and \<^verbatim>\<open>input_processing\<close> of \<^verbatim>\<open>user.c\<close> on top of the kernel. The memory accesses of the program go through
  the page table of its process. The lemmas follow a key from the keyboard to the game, and show that the address spaces stay apart and
  what the kernel answers to calls that change nothing.
\<close>

subsection \<open>Wrappers\<close>

text \<open>Behind \<^verbatim>\<open>sysenter_return\<close>: a negative result becomes -1 and its amount goes to \<^verbatim>\<open>errno\<close>.\<close>

definition sysenter_return :: "int \<Rightarrow> int \<Rightarrow> int \<times> int" where
  "sysenter_return v errno = (if 0 \<le> v then (v, errno) else (-1, wrap32 (- v)))"

text \<open>
  A wrapper loads the number into \<^verbatim>\<open>%eax\<close> and its parameters into \<^verbatim>\<open>%edx\<close>, \<^verbatim>\<open>%ecx\<close> and \<^verbatim>\<open>%ebx\<close>; the registers it does
  not load keep what the caller had in them, \<open>r\<close>. The result is the value in \<^verbatim>\<open>%eax\<close> with the new \<^verbatim>\<open>errno\<close>, or
  \<^term>\<open>None\<close> when the call does not come back.
\<close>

type_synonym entry_state = "image \<times> (nat \<times> (nat \<Rightarrow> kword)) \<times> syscall_args"

definition sysenter ::
  "int \<Rightarrow> (syscall_args \<Rightarrow> syscall_args) \<Rightarrow> entry_state \<Rightarrow> int \<Rightarrow> kstate \<Rightarrow> ((int \<times> int) option \<times> kstate) option" where
  "sysenter n load es errno k = (case es of (img, e, r) \<Rightarrow>
     map_option (\<lambda>(v, k). (map_option (\<lambda>w. sysenter_return w errno) v, k)) (sys_call_handler_sysenter img e n (load r) k))"

definition u_write :: "DWord \<Rightarrow> DWord \<Rightarrow> DWord \<Rightarrow> entry_state \<Rightarrow> int \<Rightarrow> kstate \<Rightarrow> ((int \<times> int) option \<times> kstate) option" where
  "u_write fd buffer sz = sysenter 4 (\<lambda>r. r\<lparr>arg_edx := fd, arg_ecx := buffer, arg_ebx := sz\<rparr>)"

definition u_gettime :: "entry_state \<Rightarrow> int \<Rightarrow> kstate \<Rightarrow> ((int \<times> int) option \<times> kstate) option" where
  "u_gettime = sysenter 10 id"

definition u_getpid :: "entry_state \<Rightarrow> int \<Rightarrow> kstate \<Rightarrow> ((int \<times> int) option \<times> kstate) option" where
  "u_getpid = sysenter 20 id"

definition u_fork :: "entry_state \<Rightarrow> int \<Rightarrow> kstate \<Rightarrow> ((int \<times> int) option \<times> kstate) option" where
  "u_fork = sysenter 2 id"

definition u_exit :: "entry_state \<Rightarrow> int \<Rightarrow> kstate \<Rightarrow> ((int \<times> int) option \<times> kstate) option" where
  "u_exit = sysenter 1 id"

definition u_block :: "entry_state \<Rightarrow> int \<Rightarrow> kstate \<Rightarrow> ((int \<times> int) option \<times> kstate) option" where
  "u_block = sysenter 0x12 id"

definition u_unblock :: "DWord \<Rightarrow> entry_state \<Rightarrow> int \<Rightarrow> kstate \<Rightarrow> ((int \<times> int) option \<times> kstate) option" where
  "u_unblock pid = sysenter 0x13 (\<lambda>r. r\<lparr>arg_edx := pid\<rparr>)"

definition u_numsons :: "entry_state \<Rightarrow> int \<Rightarrow> kstate \<Rightarrow> ((int \<times> int) option \<times> kstate) option" where
  "u_numsons = sysenter 0x15 id"

definition u_numbros :: "entry_state \<Rightarrow> int \<Rightarrow> kstate \<Rightarrow> ((int \<times> int) option \<times> kstate) option" where
  "u_numbros = sysenter 0x16 id"

definition u_read :: "DWord \<Rightarrow> DWord \<Rightarrow> entry_state \<Rightarrow> int \<Rightarrow> kstate \<Rightarrow> ((int \<times> int) option \<times> kstate) option" where
  "u_read b maxchars = sysenter 3 (\<lambda>r. r\<lparr>arg_edx := b, arg_ecx := maxchars\<rparr>)"

definition u_gotoxy :: "DWord \<Rightarrow> DWord \<Rightarrow> entry_state \<Rightarrow> int \<Rightarrow> kstate \<Rightarrow> ((int \<times> int) option \<times> kstate) option" where
  "u_gotoxy x y = sysenter 0x0B (\<lambda>r. r\<lparr>arg_edx := x, arg_ecx := y\<rparr>)"

definition u_set_color :: "DWord \<Rightarrow> DWord \<Rightarrow> entry_state \<Rightarrow> int \<Rightarrow> kstate \<Rightarrow> ((int \<times> int) option \<times> kstate) option" where
  "u_set_color fg bg = sysenter 0x0C (\<lambda>r. r\<lparr>arg_edx := fg, arg_ecx := bg\<rparr>)"

definition u_shmat :: "DWord \<Rightarrow> DWord \<Rightarrow> entry_state \<Rightarrow> int \<Rightarrow> kstate \<Rightarrow> ((int \<times> int) option \<times> kstate) option" where
  "u_shmat sh_id addr = sysenter 0x0F (\<lambda>r. r\<lparr>arg_edx := sh_id, arg_ecx := addr\<rparr>)"

definition u_shmdt :: "DWord \<Rightarrow> entry_state \<Rightarrow> int \<Rightarrow> kstate \<Rightarrow> ((int \<times> int) option \<times> kstate) option" where
  "u_shmdt addr = sysenter 0x10 (\<lambda>r. r\<lparr>arg_edx := addr\<rparr>)"

definition u_shmrm :: "DWord \<Rightarrow> entry_state \<Rightarrow> int \<Rightarrow> kstate \<Rightarrow> ((int \<times> int) option \<times> kstate) option" where
  "u_shmrm sh_id = sysenter 0x11 (\<lambda>r. r\<lparr>arg_edx := sh_id\<rparr>)"

subsection \<open>main and the input process\<close>

text \<open>\<^verbatim>\<open>main\<close> runs in both processes after the fork; \<open>pid\<close> is what \<^verbatim>\<open>fork\<close> returned.\<close>

datatype routine = Input_processing | Gameloop

definition user_main :: "int \<Rightarrow> routine" where
  "user_main pid = (if pid = 0 then Input_processing else Gameloop)"

subsection \<open>Memory in user mode\<close>

text \<open>In user mode the walk through the tables also asks, of both entries, for the user bit and, for a store, for the
  writable bit; otherwise the CPU raises a page fault (\<^verbatim>\<open>Zeos_Fault\<close>), \<^term>\<open>None\<close> here.\<close>

definition user_entry :: "bool \<Rightarrow> page_table_entry \<Rightarrow> bool" where
  "user_entry wr e \<longleftrightarrow> pte_present e \<noteq> 0 \<and> pte_user e \<noteq> 0 \<and> (wr \<longrightarrow> pte_rw e \<noteq> 0)"

definition user_walk :: "bool \<Rightarrow> mm_state \<Rightarrow> translation" where
  "user_walk wr m va =
     (case cr3 m of None \<Rightarrow> None
      | Some d \<Rightarrow>
          let pde = dir_pages m d (unat (drop_bit 22 va));
              pte = pt_get m (push_bit 12 (pte_pbase_addr pde)) (unat (drop_bit 12 va AND 0x3FF))
          in if user_entry wr pde \<and> user_entry wr pte then translate m va else None)"

definition user_load :: "DWord \<Rightarrow> kstate \<Rightarrow> Byte option" where
  "user_load a k = load8 (user_walk False (mm k)) a (ram (mm k))"

definition user_store :: "DWord \<Rightarrow> Byte \<Rightarrow> kstate \<Rightarrow> kstate option" where
  "user_store a b k = map_option (\<lambda>r. k\<lparr>mm := (mm k)\<lparr>ram := r\<rparr>\<rparr>) (store8 (user_walk True (mm k)) a b (ram (mm k)))"

text \<open>What another process finds at its address \<open>a\<close> when it runs.\<close>

definition load_as :: "nat \<Rightarrow> DWord \<Rightarrow> kstate \<Rightarrow> Byte option" where
  "load_as t a k = load8 (user_walk False ((mm k)\<lparr>cr3 := Some t\<rparr>)) a (ram (mm k))"

text \<open>The separation of the processes \<open>S\<close>: each of them can write to the whole of its data area; in user mode nobody gets at the first
  megabyte, which is the kernel; and no byte that one can write can be read by another, those of the shared pages apart.\<close>

definition isolated :: "kstate \<Rightarrow> nat set \<Rightarrow> bool" where
  "isolated k S \<longleftrightarrow> (let walk = (\<lambda>t wr. user_walk wr ((mm k)\<lparr>cr3 := Some t\<rparr>)) in
     (\<forall>t\<in>S. \<forall>j<NUM_PAG_DATA * 4096. walk t True (0x100000 + of_nat j) \<noteq> None) \<and>
     (\<forall>t\<in>S. \<forall>wr a x. walk t wr a = Some x \<longrightarrow> 0x100000 \<le> unat x) \<and>
     (\<forall>t\<in>S. \<forall>u\<in>S. \<forall>a b x. t \<noteq> u \<longrightarrow> walk t True a = Some x \<longrightarrow> walk u False b = Some x \<longrightarrow>
        (\<exists>idx<NUM_SHARED_PAGES. x \<in> frame_bytes (nat (sh_frame (shared_pages (mm k) idx))))))"

text \<open>A run in which the running process stores into its memory between the entries into the kernel.\<close>

datatype step = Kernel kevent | Store DWord Byte

fun run_step :: "image \<Rightarrow> step \<Rightarrow> kstate \<Rightarrow> kstate option" where
  "run_step img (Kernel ev) k = handle img ev k"
| "run_step img (Store a b) k = user_store a b k"

fun run_steps :: "image \<Rightarrow> step list \<Rightarrow> kstate \<Rightarrow> kstate option" where
  "run_steps img [] k = Some k"
| "run_steps img (s # ss) k = Option.bind (run_step img s k) (run_steps img ss)"

fun after_step :: "step \<Rightarrow> procs \<Rightarrow> procs" where
  "after_step (Kernel ev) p = proc_step ev p"
| "after_step (Store a b) p = p"

fun step_ok :: "image \<Rightarrow> step \<Rightarrow> kstate \<Rightarrow> procs \<Rightarrow> bool" where
  "step_ok img (Kernel ev) k p \<longleftrightarrow> enabled img ev k p"
| "step_ok img (Store a b) k p \<longleftrightarrow> p_run p \<noteq> p_idle p \<and> user_walk True (mm k) a \<noteq> None"

fun steps_ok :: "image \<Rightarrow> step list \<Rightarrow> kstate \<Rightarrow> procs \<Rightarrow> bool" where
  "steps_ok img [] k p \<longleftrightarrow> True"
| "steps_ok img (s # ss) k p \<longleftrightarrow> step_ok img s k p \<and> (\<forall>k'. run_step img s k = Some k' \<longrightarrow> steps_ok img ss k' (after_step s p))"

definition processes :: "procs \<Rightarrow> nat set" where
  "processes p = insert (p_run p) (set (p_ready p @ p_blocked p)) - {p_idle p}"

subsection \<open>The loop of the input process\<close>

text \<open>One round of the loop of \<^verbatim>\<open>input_processing\<close>: \<open>x\<close> is the address of its buffer on the stack and \<open>addr\<close> the address of
  the shared byte. The store to \<^verbatim>\<open>x[2]\<close> goes behind the array of two bytes. The compiler decides what lies there: \<open>overrun\<close> is
  what clearing that byte does to the locals \<^verbatim>\<open>nc\<close> and \<^verbatim>\<open>addr\<close>.\<close>

definition input_round ::
  "(int \<times> DWord \<Rightarrow> int \<times> DWord) \<Rightarrow> DWord \<Rightarrow> DWord \<Rightarrow> entry_state \<Rightarrow> int \<Rightarrow> kstate \<Rightarrow> (DWord \<times> int \<times> kstate) option" where
  "input_round overrun x addr es errno k = do {
     (v, k) \<leftarrow> u_read x 1 es errno k;
     (nc, errno) \<leftarrow> v;
     k \<leftarrow> user_store (x + 2) 0 k;
     let (nc, addr) = overrun (nc, addr);
     if nc = 0 then Some (addr, errno, k)
     else do {
       b \<leftarrow> user_load x k;
       k \<leftarrow> user_store addr b k;
       Some (addr, errno, k) }
   }"

fun input_rounds ::
  "(int \<times> DWord \<Rightarrow> int \<times> DWord) \<Rightarrow> DWord \<Rightarrow> DWord \<Rightarrow> entry_state list \<Rightarrow> int \<Rightarrow> kstate \<Rightarrow> (DWord \<times> int \<times> kstate) option" where
  "input_rounds overrun x addr [] errno k = Some (addr, errno, k)"
| "input_rounds overrun x addr (es # ess) errno k =
     Option.bind (input_round overrun x addr es errno k) (\<lambda>(addr, errno, k). input_rounds overrun x addr ess errno k)"

text \<open>What \<^verbatim>\<open>input_processing\<close> and \<^verbatim>\<open>gameloop\<close> do first.\<close>

definition attach_keys :: "entry_state \<Rightarrow> int \<Rightarrow> kstate \<Rightarrow> ((int \<times> int) option \<times> kstate) option" where
  "attach_keys = u_shmat 0 0x16C000"

subsection \<open>The walk in user mode\<close>

lemma page_split: "(a :: DWord) = of_nat (4096 * (unat a div 4096) + unat a mod 4096)"
  by simp

lemma user_walk_page:
  assumes d: "dirs_ok m" "t < NR_TASKS" "cr3 m = Some t" and p: "p < TOTAL_PAGES" "i < 4096"
  shows "user_walk wr m (of_nat (4096 * p + i)) = (if user_entry wr (pt_entry m t p) then translate m (of_nat (4096 * p + i)) else None)"
proof -
  let ?va = "of_nat (4096 * p + i) :: DWord"
  have va: "unat ?va = 4096 * p + i" by (rule unat_of_nat_DWord) (use p in simp)
  have "unat (drop_bit 22 ?va) = 0" unfolding unat_drop_bit_eq va using p by (simp add: drop_bit_eq_div)
  moreover have "unat (drop_bit 12 ?va AND 0x3FF) = p"
  proof -
    have "drop_bit 12 ?va AND 0x3FF = take_bit 10 (drop_bit 12 ?va)" by (simp add: take_bit_eq_mask mask_eq_exp_minus_1)
    then show ?thesis
      using p by (simp only: unsigned_take_bit_eq unat_drop_bit_eq va) (simp add: drop_bit_eq_div take_bit_eq_mod)
  qed
  moreover have "user_entry wr (dir_pages m t 0)" using d by (simp add: user_entry_def dirs_ok_def)
  ultimately show ?thesis
    unfolding user_walk_def d(3) option.case Let_def by (simp only: get_PT_row[OF d(1,2)] pt_get_row[OF d(2)]) simp
qed

lemma user_walk_below:
  assumes "dirs_ok m" "t < NR_TASKS" "cr3 m = Some t" "user_walk wr m a = Some x"
  shows "unat a div 4096 < TOTAL_PAGES"
proof (rule ccontr)
  assume n: "\<not> unat a div 4096 < 1024"
  have "unat (drop_bit 22 a) = unat a div 2 ^ 22" unfolding unat_drop_bit_eq by (simp add: drop_bit_eq_div)
  then have "unat (drop_bit 22 a) \<noteq> 0" using n by (auto simp: div_eq_0_iff div_less_iff_less_mult not_less)
  then have "dir_pages m t (unat (drop_bit 22 a)) = 0" using assms(1,2) by (simp add: dirs_ok_def)
  then show False using assms(3,4) by (simp add: user_walk_def user_entry_def pte_present_def Let_def)
qed

text \<open>Where a process gets to in user mode: its own data, the code (to read), shared pages.\<close>

lemma user_walk_owner:
  assumes inv: "space_inv m S F" and t: "t \<in> S" and w: "user_walk wr (m\<lparr>cr3 := Some t\<rparr>) a = Some x"
  shows "\<exists>r i. r \<in> owners S \<and> i < 4096 \<and> x = frame_addr (F r) i \<and>
    (r \<in> OData t ` {..<NUM_PAG_DATA} \<or> \<not> wr \<and> r \<in> OCode ` {..<NUM_PAG_CODE} \<or> r \<in> OShared ` {..<NUM_SHARED_PAGES})"
proof -
  let ?m = "m\<lparr>cr3 := Some t\<rparr>" and ?p = "unat a div 4096" and ?i = "unat a mod 4096"
  have sp: "space_inv ?m S F" using inv by (simp add: space_inv_cr3)
  have t10: "t < 10" and fr: "frames_ok ?m (owners S) F" and d: "dirs_ok ?m"
    using sp t by (auto simp: space_inv_def tables_ok_def)
  have p: "?p < 1024" by (rule user_walk_below[OF d t10 _ w]) simp
  have i: "?i < 4096" by simp
  have e: "user_entry wr (pt_entry ?m t ?p)" "translate ?m (of_nat (4096 * ?p + ?i)) = Some x"
    using w user_walk_page[OF d t10 _ p i, of wr] page_split[of a] by (simp_all split: if_splits)
  have "256 \<le> ?p"
  proof (rule ccontr)
    assume "\<not> 256 \<le> ?p"
    then have "pt_entry ?m t ?p = kernel_entry_of ?p" using sp t10 by (simp add: space_inv_def tables_ok_def)
    then show False using e(1) by (auto simp: user_entry_def kernel_entry_of_def pte_present_def split: if_splits)
  qed
  moreover have "pt_entry ?m t ?p \<noteq> 0" using e(1) by (auto simp: user_entry_def pte_present_def)
  ultimately obtain r fl where r: "r \<in> owners S" "pt_entry ?m t ?p = mk_pte (of_nat (F r)) fl"
      "r \<in> OData t ` {..<20} \<or> r \<in> OCode ` {..<8} \<and> fl = 5 \<or> r \<in> OShared ` {..<10}"
    using user_entry_owner[OF sp t _ p] by blast
  have "fl AND 1 = 1" using e(1) r(2) by (simp add: user_entry_def and_one_eq)
  then have "x = frame_addr (F r) ?i"
    using translate_page[OF d t10 _ p i r(2) owner_frame(1)[OF fr r(1)]] e(2) by simp
  moreover have "\<not> wr" if "fl = 5" using e(1) r(2) that by (auto simp: user_entry_def)
  ultimately show ?thesis using r(1,3) i by blast
qed

lemma user_walk_high:
  assumes inv: "space_inv m S F" and t: "t \<in> S" and w: "user_walk wr (m\<lparr>cr3 := Some t\<rparr>) a = Some x"
  shows "0x100000 \<le> unat x"
proof -
  have fr: "frames_ok m (owners S) F" using inv by (simp add: space_inv_def)
  obtain r i where r: "r \<in> owners S" "i < 4096" "x = frame_addr (F r) i" using user_walk_owner[OF inv t w] by blast
  note o = owner_frame[OF fr r(1)]
  have "unat x = 4096 * F r + i" unfolding r(3) frame_addr_def by (rule unat_of_nat_DWord) (use o(3) r(2) in simp)
  then show ?thesis using o(2) by simp
qed

lemma user_walk_own_data:
  assumes inv: "space_inv m S F" and t: "t \<in> S" and j: "j < 20 * 4096"
  shows "user_walk wr (m\<lparr>cr3 := Some t\<rparr>) (0x100000 + of_nat j) = Some (user_byte F t j)"
proof -
  let ?m = "m\<lparr>cr3 := Some t\<rparr>" and ?p = "256 + j div 4096" and ?i = "j mod 4096"
  have sp: "space_inv ?m S F" using inv by (simp add: space_inv_cr3)
  have t10: "t < 10" and fr: "frames_ok ?m (owners S) F" and d: "dirs_ok ?m"
    using sp t by (auto simp: space_inv_def tables_ok_def)
  have q: "j div 4096 < 20" using j by auto
  have o: "OData t (j div 4096) \<in> owners S" using t q by (simp add: data_in_owners)
  have e: "pt_entry ?m t ?p = mk_pte (of_nat (F (OData t (j div 4096)))) 7"
    using sp o t10 q by (simp add: space_inv_def tables_ok_def)
  have "4096 * ?p + ?i = 0x100000 + j" by simp
  then have a: "(0x100000 + of_nat j :: DWord) = of_nat (4096 * ?p + ?i)" by (simp only: of_nat_add of_nat_numeral)
  have p: "?p < 1024" "?i < 4096" using q by simp_all
  have "user_entry wr (pt_entry ?m t ?p)" unfolding e by (simp add: user_entry_def)
  then show ?thesis
    using user_walk_page[OF d t10 _ p, of wr] translate_page[OF d t10 _ p e owner_frame(1)[OF fr o]] q
    by (simp add: a user_byte_def user_owner_def)
qed

lemma user_walk_isolated:
  assumes inv: "space_inv m S F" and tu: "t \<in> S" "u \<in> S" "t \<noteq> u"
    and w: "user_walk True (m\<lparr>cr3 := Some t\<rparr>) a = Some x" "user_walk False (m\<lparr>cr3 := Some u\<rparr>) b = Some x"
  shows "\<exists>idx<NUM_SHARED_PAGES. x \<in> frame_bytes (nat (sh_frame (shared_pages m idx)))"
proof -
  have fr: "frames_ok m (owners S) F" using inv by (simp add: space_inv_def)
  obtain r i where r: "r \<in> owners S" "i < 4096" "x = frame_addr (F r) i" "r \<in> OData t ` {..<20} \<or> r \<in> OShared ` {..<10}"
    using user_walk_owner[OF inv tu(1) w(1)] by auto
  obtain s j where s: "s \<in> owners S" "j < 4096" "x = frame_addr (F s) j"
      "s \<in> OData u ` {..<20} \<or> s \<in> OCode ` {..<8} \<or> s \<in> OShared ` {..<10}"
    using user_walk_owner[OF inv tu(2) w(2)] by auto
  have "F r = F s"
    using frame_addr_inj[OF owner_frame(1)[OF fr r(1)] owner_frame(1)[OF fr s(1)] r(2) s(2)] r(3) s(3) by simp
  then have "r = s" using owner_frame_eq[OF fr r(1) s(1)] by simp
  then obtain idx where idx: "idx < 10" "r = OShared idx" using r(4) s(4) tu(3) by auto
  have "sh_frame (shared_pages m idx) = int (F r)" using inv idx by (simp add: space_inv_def tables_ok_def)
  then show ?thesis using idx(1) r(2,3) by (intro exI[of _ idx]) (simp add: frame_bytes_def)
qed

lemma space_isolated: "space_inv (mm k) S F \<Longrightarrow> isolated k S"
  unfolding isolated_def Let_def
  by (intro conjI ballI allI impI) (simp_all add: user_walk_own_data, blast dest: user_walk_high, blast dest: user_walk_isolated)

lemma represents_isolated: "represents k p \<Longrightarrow> isolated k (processes p)"
  using space_isolated[OF kernel_invD(3)] by (fastforce simp: represents_def processes_def users_def)

lemma store_represents:
  assumes r: "represents k p" and w: "user_walk True (mm k) a \<noteq> None"
  shows "\<exists>k'. user_store a b k = Some k' \<and> represents k' p"
proof -
  obtain x where x: "user_walk True (mm k) a = Some x" using w by blast
  let ?r = "(ram (mm k))(x := b)"
  let ?k = "k\<lparr>mm := (mm k)\<lparr>ram := ?r\<rparr>\<rparr>"
  have "represents ?k p"
  proof (rule represents_same[OF r])
    fix F assume F: "kernel_inv k (p_free p) (p_ready p) (p_blocked p) (p_sons p) (p_idle p) F"
    have "space_inv ((mm k)\<lparr>ram := ?r\<rparr>) (users k (p_ready p) (p_blocked p) (p_idle p)) F"
      using kernel_invD(3)[OF F] by (simp add: space_inv_ram)
    then have "kernel_inv ?k (p_free p) (p_ready p) (p_blocked p) (p_sons p) (p_idle p) F"
      by (rule kernel_inv_mm[OF F]) (use sched_invD(9)[OF kernel_invD(1)[OF F]] in simp)
    then show "\<exists>F'. kernel_inv ?k (p_free p) (p_ready p) (p_blocked p) (p_sons p) (p_idle p) F'" by blast
  qed (simp_all add: current_def)
  then show ?thesis using x by (simp add: user_store_def store8_def)
qed

lemma steps_represents:
  "represents k p \<Longrightarrow> steps_ok img ss k p \<Longrightarrow> \<exists>k'. run_steps img ss k = Some k' \<and> represents k' (fold after_step ss p)"
proof (induction ss arbitrary: k p)
  case (Cons s ss)
  have "\<exists>k'. run_step img s k = Some k' \<and> represents k' (after_step s p)"
    using Cons.prems handle_represents store_represents by (cases s) auto
  then show ?case using Cons by fastforce
qed simp

subsection \<open>A call from a process\<close>

lemma msr_current: "kernel_inv k fq rq bq kids i F \<Longrightarrow> fst (msr_esp k) = current k"
  using kernel_invD(1) by (auto simp: sched_inv_def cpu_ok_def)

lemma kernel_inv_entry:
  assumes "kernel_inv k fq rq bq kids i F"
  shows "kernel_inv (on_stack (current k) e ws k) fq rq bq kids i F" "current (on_stack (current k) e ws k) = current k"
  using kernel_inv_cong[OF assms, of "on_stack (current k) e ws k"] by (simp_all add: on_stack_def current_def)

text \<open>The parent of the fork goes on with the game (the child, whose \<^verbatim>\<open>fork\<close> returns 0, with the input).\<close>

lemma u_fork_parent:
  assumes inv: "kernel_inv k (c # fq) rq bq kids i F" "current k \<noteq> i" "next_pid k < 2 ^ 31 - 1" "20 \<le> card (free_pages (mm k) (current k))"
  shows "\<exists>k' ks F'. u_fork es errno k = Some (Some (next_pid k, errno), k') \<and> user_main (next_pid k) = Gameloop \<and>
    kernel_inv k' fq (rq @ [c]) bq (kids(c \<mapsto> [], current k \<mapsto> ks @ [c])) i F'"
proof -
  obtain img e r where es: "es = (img, e, r)" by (cases es)
  note en = kernel_inv_entry[OF inv(1), of "fst e" "snd e"]
  have eq: "mm (on_stack (current k) (fst e) (snd e) k) = mm k" "next_pid (on_stack (current k) (fst e) (snd e) k) = next_pid k"
    by (simp_all add: on_stack_def)
  have "next_pid k > 0" using kernel_invD(4)[OF inv(1)] .
  then show ?thesis using fork_kernel[OF en(1)] inv(2-4) msr_current[OF inv(1)]
    by (fastforce simp: eq en(2) u_fork_def sysenter_def es sys_call_handler_sysenter_def Let_def sys_call_table_def returning_def sysenter_return_def user_main_def)
qed

text \<open>Both attach shared page 0 at the address of the code, when that page is free.\<close>

lemma attach_keys_result:
  assumes inv: "kernel_inv k fq rq bq kids i F" "current k \<noteq> i" "364 \<in> free_pages (mm k) (current k)"
  shows "\<exists>k'. attach_keys es errno k = Some (Some (0x16C000, errno), k') \<and> kernel_inv k' fq rq bq kids i F \<and> current k' = current k \<and>
    (\<forall>u q. q < TOTAL_PAGES \<longrightarrow> pt_entry (mm k') u q =
       (if u = current k \<and> q = 364 then mk_pte (of_nat (F (OShared 0))) 7 else pt_entry (mm k) u q))"
proof -
  obtain img e r where es: "es = (img, e, r)" by (cases es)
  let ?k = "on_stack (current k) (fst e) (snd e) k"
  note en = kernel_inv_entry[OF inv(1), of "fst e" "snd e"]
  have eq: "mm ?k = mm k" by (simp add: on_stack_def)
  let ?m = "attached (current k) 0 364 (mm k)"
  have a: "(0x16C000::DWord) mod 4096 = 0" "unat (drop_bit 12 (0x16C000::DWord)) = 364" by (simp_all add: drop_bit_eq_div)
  have call: "sys_shmat 0 0x16C000 ?k = Some (0x16C000, ?k\<lparr>mm := ?m\<rparr>)"
    using shmat_kernel[OF en(1), of 0 "0x16C000"] inv(2,3) a by (auto simp: en(2) eq)
  note D = kernel_invD(3)[OF inv(1)] and S = sched_invD[OF kernel_invD(1)[OF inv(1)]]
  have s: "space_inv ?m (users ?k rq bq i) F" using attached_space[OF D S(6)] by (simp add: users_def en(2))
  have cr: "cr3 ?m = Some (current ?k)" by (simp add: attached_def Let_def en(2))
  have sh: "sh_frame (shared_pages (mm k) 0) = int (F (OShared 0))" using D by (simp add: space_inv_def tables_ok_def)
  have "attach_keys es errno k = Some (Some (0x16C000, errno), ?k\<lparr>mm := ?m\<rparr>)"
    using call msr_current[OF inv(1)]
    by (simp add: attach_keys_def u_shmat_def sysenter_def es sys_call_handler_sysenter_def Let_def sys_call_table_def returning_def sysenter_return_def)
  then show ?thesis
    using kernel_inv_mm[OF en(1) s cr] attached_entry[OF S(6), of 364] sh en(2) by (intro exI[of _ "?k\<lparr>mm := ?m\<rparr>"]) (simp add: current_def)
qed

text \<open>\<^verbatim>\<open>read\<close> of one character, from the wrapper down to the buffer and back.\<close>

lemma u_read_one:
  assumes inv: "kernel_inv k fq rq bq kids i F" "current k \<noteq> i" and off: "off < 28 * 4096"
  shows "\<exists>k'. u_read (0x100000 + of_nat off) 1 es errno k = Some (Some (int (min 1 (length (cb_contents (cbuff k)))), errno), k') \<and>
    kernel_inv k' fq rq bq kids i F \<and> current k' = current k \<and> (\<exists>r. mm k' = (mm k)\<lparr>ram := r\<rparr>) \<and>
    cb_contents (cbuff k') = drop 1 (cb_contents (cbuff k)) \<and>
    ram (mm k') (user_byte F (current k) off) = (case cb_contents (cbuff k) of [] \<Rightarrow> ram (mm k) (user_byte F (current k) off) | c # _ \<Rightarrow> c) \<and>
    (\<forall>x. x \<noteq> user_byte F (current k) off \<longrightarrow> ram (mm k') x = ram (mm k) x)"
proof -
  obtain img e r where es: "es = (img, e, r)" by (cases es)
  let ?k = "on_stack (current k) (fst e) (snd e) k"
  note en = kernel_inv_entry[OF inv(1), of "fst e" "snd e"]
  have eq: "mm ?k = mm k" "cbuff ?k = cbuff k" by (simp_all add: on_stack_def)
  define n where "n = min 1 (length (cb_contents (cbuff k)))"
  have "off + 1 \<le> 28 * 4096" "current ?k \<noteq> i" using off inv(2) en(2) by simp_all
  from read_kernel[OF en(1) this(2,1), of "stack_bytes img"] obtain k' where
    k': "sys_read (0x100000 + of_nat off) 1 (stack_bytes img) ?k = Some (int n, k')" "kernel_inv k' fq rq bq kids i F"
      "k' = ?k\<lparr>cbuff := cbuff k', mm := (mm k)\<lparr>ram := ram (mm k')\<rparr>\<rparr>" "cb_contents (cbuff k') = drop n (cb_contents (cbuff k))"
      "user_bytes F (current k) (ram (mm k')) off n = take n (cb_contents (cbuff k))"
      "\<forall>x. x \<notin> user_byte F (current k) ` {off..<off + n} \<longrightarrow> ram (mm k') x = ram (mm k) x"
    unfolding eq en(2) n_def by auto
  have call: "u_read (0x100000 + of_nat off) 1 es errno k = Some (Some (int n, errno), k')"
    using k'(1) msr_current[OF inv(1)] by (simp add: u_read_def sysenter_def es sys_call_handler_sysenter_def Let_def sys_call_table_def returning_def sysenter_return_def)
  have cu: "current k' = current k" by (subst k'(3)) (simp add: on_stack_def current_def)
  have m: "mm k' = (mm k)\<lparr>ram := ram (mm k')\<rparr>" by (subst (1) k'(3)) simp
  show ?thesis
  proof (cases "cb_contents (cbuff k)")
    case Nil
    then have "n = 0" by (simp add: n_def)
    then show ?thesis using call k'(2,4,6) cu m Nil by (intro exI[of _ k']) auto
  next
    case (Cons c cs)
    then have n: "n = 1" by (simp add: n_def)
    then have "ram (mm k') (user_byte F (current k) off) = c" using k'(5) Cons by (simp add: user_bytes_def)
    then show ?thesis using call k'(2,4,6) cu m Cons n by (intro exI[of _ k']) auto
  qed
qed

lemma user_store_kernel:
  assumes inv: "kernel_inv k fq rq bq kids i F" and t: "user_walk True (mm k) a = Some x"
  shows "\<exists>k'. user_store a b k = Some k' \<and> kernel_inv k' fq rq bq kids i F \<and> current k' = current k \<and> cbuff k' = cbuff k \<and>
    mm k' = (mm k)\<lparr>ram := (ram (mm k))(x := b)\<rparr>"
proof -
  let ?m = "(mm k)\<lparr>ram := (ram (mm k))(x := b)\<rparr>"
  have "space_inv ?m (users k rq bq i) F" "cr3 ?m = Some (current k)"
    using kernel_invD(3)[OF inv] sched_invD(9)[OF kernel_invD(1)[OF inv]] by (simp_all add: space_inv_ram)
  from kernel_inv_mm[OF inv this] show ?thesis using t by (simp add: user_store_def store8_def current_def)
qed

lemma user_walk_data:
  assumes inv: "kernel_inv k fq rq bq kids i F" "current k \<noteq> i" and j: "j < 20 * 4096"
  shows "user_walk wr (mm k) (0x100000 + of_nat j) = Some (user_byte F (current k) j)"
proof -
  have "(mm k)\<lparr>cr3 := Some (current k)\<rparr> = mm k" using sched_invD(9)[OF kernel_invD(1)[OF inv(1)]] by (cases "mm k") simp
  then show ?thesis using user_walk_own_data[OF kernel_invD(3)[OF inv(1)] users_facts(3)[OF inv] j, of wr] by simp
qed

text \<open>A shared page is no part of the user area.\<close>

lemma user_byte_not_shared:
  assumes inv: "space_inv m S F" and t: "t \<in> S" and o: "off < 28 * 4096" and s: "s < NUM_SHARED_PAGES" and j: "j < 4096"
  shows "user_byte F t off \<noteq> frame_addr (F (OShared s)) j"
proof
  assume e: "user_byte F t off = frame_addr (F (OShared s)) j"
  have fr: "frames_ok m (owners S) F" using inv by (simp add: space_inv_def)
  have "off div 4096 < 28" using o by auto
  note o1 = user_owner_in[OF t this]
  have o2: "OShared s \<in> owners S" using s by (simp add: fixed_in_owners)
  have "F (user_owner t (off div 4096)) = F (OShared s)"
    using e j frame_addr_inj[OF owner_frame(1)[OF fr o1] owner_frame(1)[OF fr o2], of "off mod 4096" j] by (simp add: user_byte_def)
  then show False using owner_frame_eq[OF fr o1 o2] by (auto simp: user_owner_def split: if_splits)
qed

subsection \<open>The input process\<close>

text \<open>Both processes have mapped the shared page \<open>s\<close>: the running one at its page \<open>p\<close>, \<open>u\<close> at its page \<open>q\<close>.\<close>

definition both_attached :: "kstate \<Rightarrow> (frame_owner \<Rightarrow> nat) \<Rightarrow> nat \<Rightarrow> nat \<Rightarrow> nat \<Rightarrow> nat \<Rightarrow> bool" where
  "both_attached k F s p u q \<longleftrightarrow> s < NUM_SHARED_PAGES \<and> p < TOTAL_PAGES \<and> q < TOTAL_PAGES \<and> u < NR_TASKS \<and>
     pt_entry (mm k) (current k) p = mk_pte (of_nat (F (OShared s))) 7 \<and> pt_entry (mm k) u q = mk_pte (of_nat (F (OShared s))) 7"

lemma user_walk_shared:
  assumes inv: "space_inv m S F" and t: "t < NR_TASKS" "cr3 m = Some t" and p: "p < TOTAL_PAGES" and s: "s < NUM_SHARED_PAGES"
    and e: "pt_entry m t p = mk_pte (of_nat (F (OShared s))) 7" and j: "j < 4096"
  shows "user_walk wr m (of_nat (4096 * p + j)) = Some (frame_addr (F (OShared s)) j)"
proof -
  have "dirs_ok m" using inv by (simp add: space_inv_def tables_ok_def)
  moreover have "user_entry wr (pt_entry m t p)" using e by (simp add: user_entry_def)
  ultimately show ?thesis using user_walk_page[of m t p j wr] shared_translate[OF inv t p s e j] t p j by simp
qed

lemma both_attached_walk:
  assumes inv: "kernel_inv k fq rq bq kids i F" and b: "both_attached k F s p u q"
  shows "user_walk wr (mm k) (of_nat (4096 * p)) = Some (frame_addr (F (OShared s)) 0)"
    "load_as u (of_nat (4096 * q)) k = Some (ram (mm k) (frame_addr (F (OShared s)) 0))"
proof -
  note S = sched_invD[OF kernel_invD(1)[OF inv]] and D = kernel_invD(3)[OF inv]
  show "user_walk wr (mm k) (of_nat (4096 * p)) = Some (frame_addr (F (OShared s)) 0)"
    using user_walk_shared[OF D S(6,9), of p s 0 wr] b by (simp add: both_attached_def)
  have "space_inv ((mm k)\<lparr>cr3 := Some u\<rparr>) (users k rq bq i) F" using D by (simp add: space_inv_cr3)
  from user_walk_shared[OF this, of u q s 0 False] b
  show "load_as u (of_nat (4096 * q)) k = Some (ram (mm k) (frame_addr (F (OShared s)) 0))"
    by (simp add: both_attached_def load_as_def load8_def pt_entry_def)
qed

text \<open>A round up to the test of \<^verbatim>\<open>nc\<close>: the oldest character, if there is one, is in the buffer.\<close>

lemma input_round_read:
  assumes inv: "kernel_inv k fq rq bq kids i F" "current k \<noteq> i" and off: "off + 3 \<le> 20 * 4096" and at: "both_attached k F s p u q"
  shows "\<exists>k1 k2. u_read (0x100000 + of_nat off) 1 es errno k = Some (Some (int (min 1 (length (cb_contents (cbuff k)))), errno), k1) \<and>
    user_store (0x100000 + of_nat off + 2) 0 k1 = Some k2 \<and> kernel_inv k2 fq rq bq kids i F \<and> current k2 = current k \<and>
    both_attached k2 F s p u q \<and> cb_contents (cbuff k2) = drop 1 (cb_contents (cbuff k)) \<and>
    (\<forall>c cs. cb_contents (cbuff k) = c # cs \<longrightarrow> user_load (0x100000 + of_nat off) k2 = Some c) \<and>
    load_as u (of_nat (4096 * q)) k2 = load_as u (of_nat (4096 * q)) k"
proof -
  let ?a = "frame_addr (F (OShared s)) 0" and ?x = "user_byte F (current k) off" and ?y = "user_byte F (current k) (off + 2)"
  note U = users_facts(3)[OF inv] and D = kernel_invD(3)[OF inv(1)]
  have s: "s < 10" using at by (simp add: both_attached_def)
  have o: "off < 28 * 4096" "off + 2 < 28 * 4096" "off < 20 * 4096" "off + 2 < 20 * 4096" using off by simp_all
  have sep: "?x \<noteq> ?a" "?y \<noteq> ?a" by (rule user_byte_not_shared[OF D U _ s]; use o in simp)+
  have xy: "?x \<noteq> ?y" using user_byte_inj[of "mm k" "users k rq bq i" F "current k" off "off + 2"] D U o by (auto simp: space_inv_def)
  obtain k1 where k1: "u_read (0x100000 + of_nat off) 1 es errno k = Some (Some (int (min 1 (length (cb_contents (cbuff k)))), errno), k1)"
      "kernel_inv k1 fq rq bq kids i F" "current k1 = current k" "\<exists>r. mm k1 = (mm k)\<lparr>ram := r\<rparr>" "cb_contents (cbuff k1) = drop 1 (cb_contents (cbuff k))"
      "ram (mm k1) ?x = (case cb_contents (cbuff k) of [] \<Rightarrow> ram (mm k) ?x | c # _ \<Rightarrow> c)" "\<forall>x. x \<noteq> ?x \<longrightarrow> ram (mm k1) x = ram (mm k) x"
    using u_read_one[OF inv o(1), of es errno] by blast
  have "user_walk True (mm k1) (0x100000 + of_nat off + 2) = Some ?y"
    using user_walk_data[OF k1(2) _ o(4)] k1(3) inv(2) by (simp add: add.assoc)
  from user_store_kernel[OF k1(2) this, of 0] obtain k2 where k2: "user_store (0x100000 + of_nat off + 2) 0 k1 = Some k2"
    "kernel_inv k2 fq rq bq kids i F" "current k2 = current k" "cbuff k2 = cbuff k1" "mm k2 = (mm k1)\<lparr>ram := (ram (mm k1))(?y := 0)\<rparr>" using k1(3) by auto
  have at2: "both_attached k2 F s p u q" using at k1(3,4) k2(3,5) by (auto simp: both_attached_def pt_entry_def)
  have ld: "user_load (0x100000 + of_nat off) k2 = Some c" if "cb_contents (cbuff k) = c # cs" for c cs
    using user_walk_data[OF k2(2) _ o(3), of False] k2(3,5) inv(2) k1(6) xy that by (simp add: user_load_def load8_def)
  have "ram (mm k2) ?a = ram (mm k) ?a" using k1(7) k2(5) sep by auto
  then have "load_as u (of_nat (4096 * q)) k2 = load_as u (of_nat (4096 * q)) k"
    using both_attached_walk(2)[OF inv(1) at] both_attached_walk(2)[OF k2(2) at2] by simp
  then show ?thesis using k1(1,5) k2 at2 ld by (intro exI[of _ k1] exI[of _ k2]) simp
qed

lemma input_round_result:
  assumes inv: "kernel_inv k fq rq bq kids i F" "current k \<noteq> i" and off: "off + 3 \<le> 20 * 4096" and at: "both_attached k F s p u q"
    and ov: "\<And>v. overrun v = v"
  shows "\<exists>k'. input_round overrun (0x100000 + of_nat off) (of_nat (4096 * p)) es errno k = Some (of_nat (4096 * p), errno, k') \<and>
    kernel_inv k' fq rq bq kids i F \<and> current k' = current k \<and> both_attached k' F s p u q \<and> cb_contents (cbuff k') = drop 1 (cb_contents (cbuff k)) \<and>
    load_as u (of_nat (4096 * q)) k' = (case cb_contents (cbuff k) of [] \<Rightarrow> load_as u (of_nat (4096 * q)) k | c # _ \<Rightarrow> Some c)"
proof -
  obtain k1 k2 where k2: "u_read (0x100000 + of_nat off) 1 es errno k = Some (Some (int (min 1 (length (cb_contents (cbuff k)))), errno), k1)"
      "user_store (0x100000 + of_nat off + 2) 0 k1 = Some k2" "kernel_inv k2 fq rq bq kids i F" "current k2 = current k"
      "both_attached k2 F s p u q" "cb_contents (cbuff k2) = drop 1 (cb_contents (cbuff k))"
      "\<forall>c cs. cb_contents (cbuff k) = c # cs \<longrightarrow> user_load (0x100000 + of_nat off) k2 = Some c"
      "load_as u (of_nat (4096 * q)) k2 = load_as u (of_nat (4096 * q)) k"
    using input_round_read[OF inv off at, of es errno] by blast
  show ?thesis
  proof (cases "cb_contents (cbuff k)")
    case Nil
    then show ?thesis using k2 by (intro exI[of _ k2]) (simp add: input_round_def ov)
  next
    case (Cons c cs)
    from user_store_kernel[OF k2(3) both_attached_walk(1)[OF k2(3,5)], of c] obtain k3 where
      k3: "user_store (of_nat (4096 * p)) c k2 = Some k3" "kernel_inv k3 fq rq bq kids i F" "current k3 = current k2" "cbuff k3 = cbuff k2"
        "mm k3 = (mm k2)\<lparr>ram := (ram (mm k2))(frame_addr (F (OShared s)) 0 := c)\<rparr>" by auto
    have at3: "both_attached k3 F s p u q" using k2(5) k3(3,5) by (simp add: both_attached_def pt_entry_def)
    have "load_as u (of_nat (4096 * q)) k3 = Some c" using both_attached_walk(2)[OF k3(2) at3] k3(5) by simp
    then show ?thesis using Cons k2 k3 at3 by (intro exI[of _ k3]) (simp add: input_round_def ov)
  qed
qed

text \<open>With a frame in which \<^verbatim>\<open>x[2]\<close> is the low byte of \<^verbatim>\<open>nc\<close>, the character is taken out of the buffer and lost.\<close>

lemma overrun_loses_key:
  assumes inv: "kernel_inv k fq rq bq kids i F" "current k \<noteq> i" and off: "off + 3 \<le> 20 * 4096" and at: "both_attached k F s p u q"
    and ov: "\<And>nc a. 0 \<le> nc \<Longrightarrow> overrun (nc, a) = (256 * (nc div 256), a)"
  shows "\<exists>k'. input_round overrun (0x100000 + of_nat off) (of_nat (4096 * p)) es errno k = Some (of_nat (4096 * p), errno, k') \<and>
    cb_contents (cbuff k') = drop 1 (cb_contents (cbuff k)) \<and> load_as u (of_nat (4096 * q)) k' = load_as u (of_nat (4096 * q)) k"
proof -
  have "int (min 1 (length (cb_contents (cbuff k)))) div 256 = 0" by simp
  then show ?thesis using input_round_read[OF inv off at, of es errno] by (auto simp: input_round_def ov)
qed

text \<open>The first \<open>n\<close> rounds hand over the first \<open>n\<close> characters, the last of them stays.\<close>

lemma input_rounds_result:
  assumes "kernel_inv k fq rq bq kids i F" "current k \<noteq> i" "off + 3 \<le> 20 * 4096" "both_attached k F s p u q"
    "length ess = Suc n" "n < length (cb_contents (cbuff k))" and ov: "\<And>v. overrun v = v"
  shows "\<exists>k'. input_rounds overrun (0x100000 + of_nat off) (of_nat (4096 * p)) ess errno k = Some (of_nat (4096 * p), errno, k') \<and>
    kernel_inv k' fq rq bq kids i F \<and> cb_contents (cbuff k') = drop (Suc n) (cb_contents (cbuff k)) \<and>
    load_as u (of_nat (4096 * q)) k' = Some (cb_contents (cbuff k) ! n)"
  using assms(1-6)
proof (induction n arbitrary: k ess)
  case 0
  obtain es where ess: "ess = [es]" using 0(5) by (cases ess) auto
  from input_round_result[OF 0(1-4) ov, of es errno] show ?case using 0(6) by (cases "cb_contents (cbuff k)") (auto simp: ess)
next
  case (Suc n)
  obtain es es' where ess: "ess = es # es'" "length es' = Suc n" using Suc.prems(5) by (cases ess) auto
  obtain c cs where cs: "cb_contents (cbuff k) = c # cs" using Suc.prems(6) by (cases "cb_contents (cbuff k)") auto
  obtain k1 where k1: "input_round overrun (0x100000 + of_nat off) (of_nat (4096 * p)) es errno k = Some (of_nat (4096 * p), errno, k1)"
      "kernel_inv k1 fq rq bq kids i F" "current k1 = current k" "both_attached k1 F s p u q" "cb_contents (cbuff k1) = cs"
    using input_round_result[OF Suc.prems(1-4) ov, of es errno] cs by auto
  have "current k1 \<noteq> i" "n < length (cb_contents (cbuff k1))" using k1(3,5) Suc.prems(2,6) cs by simp_all
  from Suc.IH[OF k1(2) this(1) Suc.prems(3) k1(4) ess(2) this(2)] show ?case using k1 cs by (simp add: ess(1))
qed

subsection \<open>From the keyboard\<close>

lemma key_make:
  assumes "unat (key :: Byte) < 98"
  shows "key AND 0x80 = 0"
proof -
  have "\<not> bit (unat key) 7" using assms by (simp add: bit_iff_odd)
  then have "\<not> bit key 7" by (simp add: bit_unsigned_iff)
  then show ?thesis using and_exp_eq_0_iff_not_bit[of key 7] by simp
qed

lemma keys_buffered:
  assumes "cb_wf (cbuff k)" "length (cb_contents (cbuff k)) + length ks \<le> 31" "\<forall>key\<in>set ks. unat key < 98"
  shows "\<exists>cb. run_events img (map Keyboard ks) k = Some (k\<lparr>cbuff := cb\<rparr>) \<and> cb_wf cb \<and>
    cb_contents cb = cb_contents (cbuff k) @ map (\<lambda>key. char_map ! unat key) ks"
  using assms
proof (induction ks arbitrary: k)
  case Nil
  then show ?case by (intro exI[of _ "cbuff k"]) simp
next
  case (Cons key ks)
  obtain cb where cb: "kbd_routine (behind_map img) key k = k\<lparr>cbuff := cb\<rparr>" "cb_wf cb" "cb_contents cb = cb_contents (cbuff k) @ [char_map ! unat key]"
    using keyboard_interrupt[of k key "behind_map img"] key_make[of key] Cons.prems by auto
  from Cons.IH[of "k\<lparr>cbuff := cb\<rparr>"] show ?case using cb Cons.prems(2,3) by auto
qed

subsection \<open>Property\<close>

text \<open>Registers and stack contents of no importance.\<close>

definition blank_image :: image where
  "blank_image = \<lparr>kern_buff = 0x20000, behind_map = (\<lambda>_. 0), stack_bytes = (\<lambda>_. 0), behind_table = (\<lambda>_ _. None)\<rparr>"

definition blank_entry :: entry_state where
  "blank_entry = (blank_image, (1024, \<lambda>_. KWord 0), \<lparr>arg_edx = 0, arg_ecx = 0, arg_ebx = 0\<rparr>)"

text \<open>C12: Keys reach the game. While the input process runs and it and process \<open>u\<close> have the same shared page mapped, let
  keys be pressed, at most 31 before the input process comes round again. Then every round of the loop of
  \<^verbatim>\<open>input_processing\<close>, with its system call through the wrapper, the handler and the table and its stores in user mode, succeeds, and after
  \<open>n + 1\<close> rounds process \<open>u\<close> reads the character of the \<open>n\<close>-th key at the shared address. The buffer lies in the data and stack
  pages, and the byte behind it belongs to no local of the function.\<close>

theorem keys_reach_game:
  assumes inv: "kernel_inv k fq rq bq kids i F" "current k \<noteq> i" and x: "off + 3 \<le> NUM_PAG_DATA * 4096" and at: "both_attached k F s p u q"
    and ks: "cb_contents (cbuff k) = []" "length ks \<le> 31" "\<forall>key\<in>set ks. unat key < 98" and n: "length ess = Suc n" "n < length ks"
    and ov: "\<forall>v. overrun v = v"
  shows "\<exists>k1 k2. run_events img (map Keyboard ks) k = Some k1 \<and>
    input_rounds overrun (0x100000 + of_nat off) (of_nat (4096 * p)) ess errno k1 = Some (of_nat (4096 * p), errno, k2) \<and>
    kernel_inv k2 fq rq bq kids i F \<and> load_as u (of_nat (4096 * q)) k2 = Some (char_map ! unat (ks ! n))"
proof -
  obtain cb where cb: "run_events img (map Keyboard ks) k = Some (k\<lparr>cbuff := cb\<rparr>)" "cb_wf cb" "cb_contents cb = map (\<lambda>key. char_map ! unat key) ks"
    using keys_buffered[of k ks img] kernel_invD(5)[OF inv(1)] ks by auto
  let ?k = "k\<lparr>cbuff := cb\<rparr>"
  have i: "kernel_inv ?k fq rq bq kids i F"
    using kernel_inv_devices[OF inv(1) kernel_invD(3)[OF inv(1)] sched_invD(9)[OF kernel_invD(1)[OF inv(1)]] cb(2) kernel_invD(6)[OF inv(1)]] by simp
  have c: "current ?k \<noteq> i" "both_attached ?k F s p u q" "n < length (cb_contents (cbuff ?k))"
    using inv(2) at cb(3) n(2) by (simp_all add: current_def both_attached_def)
  have o: "off + 3 \<le> 20 * 4096" using x by simp
  from input_rounds_result[OF i c(1) o c(2) n(1) c(3), of overrun errno] show ?thesis using cb(1,3) n(2) ov by auto
qed

theorem keys_reach_game_witness:
  "\<exists>k k1 k2. current k = 8 \<and> run_events blank_image [Keyboard 17, Keyboard 30] k = Some k1 \<and>
     input_rounds id 0x100100 0x16C000 [blank_entry, blank_entry] 0 k1 = Some (0x16C000, 0, k2) \<and>
     load_as 7 0x16C000 k2 = Some 97"
proof -
  obtain k F where k: "kernel_inv k [6, 5, 4, 3, 2, 1, 0] [7] [] [9 \<mapsto> [], 8 \<mapsto> [7], 7 \<mapsto> []] 9 F" "current k = 8" using forked by blast
  note D = kernel_invD[OF k(1)]
  let ?m = "attached 8 0 364 (attached 7 0 364 (mm k))"
  let ?cb = "\<lparr>keys = replicate 32 0, write_idx = 0, read_idx = 0, cb_size = 0\<rparr> :: circular_buffer"
  let ?k = "k\<lparr>mm := ?m, cbuff := ?cb, io := io k\<rparr>"
  have s: "space_inv ?m (users k [7] [] 9) F" by (intro attached_space D(3)) simp_all
  have cb: "cb_wf ?cb" "cb_contents ?cb = []" by (simp_all add: cb_wf_def cb_contents_def cb_count_def)
  have cr: "cr3 ?m = Some (current k)" using k(2) by (simp add: attached_def Let_def)
  have inv: "kernel_inv ?k [6, 5, 4, 3, 2, 1, 0] [7] [] [9 \<mapsto> [], 8 \<mapsto> [7], 7 \<mapsto> []] 9 F"
    by (rule kernel_inv_devices[OF k(1) s cr cb(1) D(6)])
  have sh: "sh_frame (shared_pages (mm k) 0) = int (F (OShared 0))" using D(3) by (simp add: space_inv_def tables_ok_def)
  have sh': "sh_frame (shared_pages (attached 7 0 364 (mm k)) 0) = int (F (OShared 0))" using sh by (simp add: attached_def Let_def)
  have c8: "current ?k = 8" using k(2) by (simp add: current_def)
  have at: "both_attached ?k F 0 364 7 364"
    using sh sh' c8 attached_entry[of 8 364 364 0 "attached 7 0 364 (mm k)"] attached_entry[of 7 364 364 0 "mm k"] by (simp add: both_attached_def)
  have ch: "char_map ! unat ([17, 30] ! 1 :: Byte) = 97" by (simp add: char_map_def)
  have "\<exists>k1 k2. run_events blank_image (map Keyboard [17, 30]) ?k = Some k1 \<and>
      input_rounds id (0x100000 + of_nat 256) (of_nat (4096 * 364)) [blank_entry, blank_entry] 0 k1 = Some (of_nat (4096 * 364), 0, k2) \<and>
      kernel_inv k2 [6, 5, 4, 3, 2, 1, 0] [7] [] [9 \<mapsto> [], 8 \<mapsto> [7], 7 \<mapsto> []] 9 F \<and>
      load_as 7 (of_nat (4096 * 364)) k2 = Some (char_map ! unat ([17, 30] ! 1 :: Byte))"
    by (rule keys_reach_game[OF inv _ _ at]) (use c8 cb(2) in simp_all)
  then obtain k1 k2 where r: "run_events blank_image (map Keyboard [17, 30]) ?k = Some k1"
      "input_rounds id (0x100000 + of_nat 256) (of_nat (4096 * 364)) [blank_entry, blank_entry] 0 k1 = Some (of_nat (4096 * 364), 0, k2)"
      "load_as 7 (of_nat (4096 * 364)) k2 = Some 97" unfolding ch by blast
  show ?thesis
    by (rule exI[of _ ?k], rule exI[of _ k1], rule exI[of _ k2])
      (intro conjI c8, use r in \<open>simp_all del: run_events.simps input_rounds.simps\<close>)
qed

lemma running_stores:
  assumes "represents k p" "p_run p \<noteq> p_idle p" "j < 20 * 4096"
  shows "user_walk True (mm k) (0x100000 + of_nat j) \<noteq> None"
  using assms user_walk_data by (fastforce simp: represents_def)

lemma kernel_steps_ok:
  assumes "represents k p" "admissible img evs k p" "\<And>k'. represents k' (fold proc_step evs p) \<Longrightarrow> steps_ok img ss k' (fold proc_step evs p)"
  shows "steps_ok img (map Kernel evs @ ss) k p"
  using assms
proof (induction evs arbitrary: k p)
  case (Cons ev evs)
  have en: "enabled img ev k p" using Cons.prems(2) by simp
  have "represents k' (proc_step ev p)" if "handle img ev k = Some k'" for k'
    using handle_represents[OF Cons.prems(1) en] that by auto
  then show ?case using Cons by auto
qed simp

text \<open>A run from power on: process 1 forks, and the clock gives the CPU to its child.\<close>

abbreviation (input) fork_run :: "kevent list" where
  "fork_run \<equiv> [Syscall (1000, \<lambda>_. KWord 0) 2 \<lparr>arg_edx = 0, arg_ecx = 0, arg_ebx = 0\<rparr>, Clock (1000, \<lambda>_. KWord 0), Clock (1000, \<lambda>_. KWord 0)]"

lemma fork_run_result:
  "\<exists>M'. zeos_main blank_linkage blank_machine = Some M' \<and> represents (kern M') (booted_procs (kern M')) \<and>
     admissible blank_image fork_run (kern M') (booted_procs (kern M')) \<and>
     (let p = fold proc_step fork_run (booted_procs (kern M')) in
        p_run p = 7 \<and> p_ready p = [8] \<and> p_blocked p = [] \<and> p_idle p = 9 \<and> p_sons p 8 = Some [7] \<and> p_sons p 7 = Some [])"
proof -
  obtain M' where M': "zeos_main blank_linkage blank_machine = Some M'" "represents (kern M') (booted_procs (kern M'))"
      "PID (task (kern M') 8) = 1" "quantum (task (kern M') 8) = 1" "card (free_pages (mm (kern M')) 8) = 740"
    using booted_represents[OF power_on_blank, of blank_linkage] by blast
  have "admissible blank_image fork_run (kern M') (booted_procs (kern M'))"
    using M'(5) by (simp add: slot_ok_def call_ok_def kernel_buffer_def booted_procs_def blank_image_def)
  moreover have "let p = fold proc_step fork_run (booted_procs (kern M')) in
      p_run p = 7 \<and> p_ready p = [8] \<and> p_blocked p = [] \<and> p_idle p = 9 \<and> p_sons p 8 = Some [7] \<and> p_sons p 7 = Some []"
    using M'(4) by (simp add: booted_procs_def spec_fork_def spec_clock_def pick_def Let_def)
  ultimately show ?thesis using M'(1,2) by blast
qed



subsection \<open>Calls that change nothing\<close>

lemma sysenter_entry:
  assumes "represents k p" "0 \<le> n" "n \<le> 23"
  shows "sysenter n load (img, e, r) errno k =
    map_option (\<lambda>(v, k). (map_option (\<lambda>w. sysenter_return w errno) v, k)) (sys_call_table img n (load r) (on_stack (current k) (fst e) (snd e) k))"
  using assms msr_current by (fastforce simp: represents_def sysenter_def sys_call_handler_sysenter_def Let_def)

text \<open>C18: What a process learns about its family. \<^verbatim>\<open>numbros\<close>, called through its wrapper, returns the number of its siblings;
  \<^verbatim>\<open>numsons\<close> returns one less than the number of its children, and fails with the error number 1 in a process that has none. Both
  leave the processes as they are.\<close>

theorem family_calls:
  assumes "represents k p"
  shows "\<exists>k'. represents k' p \<and>
    u_numsons es errno k = Some (Some (let n = length (the (p_sons p (p_run p))) in if n = 0 then (-1, 1) else (int n - 1, errno)), k') \<and>
    (\<forall>q l. p_sons p q = Some l \<and> p_run p \<in> set l \<longrightarrow> u_numbros es errno k = Some (Some (int (card (set l - {p_run p})), errno), k'))"
proof -
  obtain img e r where es: "es = (img, e, r)" by (cases es)
  let ?k = "on_stack (current k) (fst e) (snd e) k"
  have r: "represents ?k p" by (rule represents_entry[OF assms])
  have "u_numsons es errno k = Some (Some (let n = length (the (p_sons p (p_run p))) in if n = 0 then (-1, 1) else (int n - 1, errno)), ?k)"
    using sysenter_entry[OF assms, of 21 id img e r errno] family_counts(1)[OF r]
    by (simp add: es u_numsons_def sys_call_table_def returning_def sysenter_return_def Let_def wrap32_id)
  moreover have "u_numbros es errno k = Some (Some (int (card (set l - {p_run p})), errno), ?k)" if l: "p_sons p q = Some l" "p_run p \<in> set l" for q l
  proof -
    have "distinct l" using sons_distinct[OF sched_invD(1)[OF kernel_invD(1)]] r l(1) by (auto simp: represents_def)
    then have "int (card (set l - {p_run p})) = int (length l) - 1"
      using l(2) length_pos_if_in_set[OF l(2)] by (simp add: distinct_card of_nat_diff Suc_le_eq)
    then show ?thesis
      using sysenter_entry[OF assms, of 22 id img e r errno] family_counts(2)[OF r l] length_pos_if_in_set[OF l(2)]
      by (simp add: es u_numbros_def sys_call_table_def returning_def sysenter_return_def)
  qed
  ultimately show ?thesis using r by blast
qed

theorem family_calls_witness:
  "\<exists>M' k k'. zeos_main blank_linkage blank_machine = Some M' \<and> run_events blank_image fork_run (kern M') = Some k \<and> current k = 7 \<and>
     u_numsons blank_entry 0 k = Some (Some (-1, 1), k') \<and> u_numbros blank_entry 0 k = Some (Some (0, 0), k')"
proof -
  obtain M' where M': "zeos_main blank_linkage blank_machine = Some M'" "represents (kern M') (booted_procs (kern M'))"
      "admissible blank_image fork_run (kern M') (booted_procs (kern M'))"
      "let p = fold proc_step fork_run (booted_procs (kern M')) in p_run p = 7 \<and> p_sons p 8 = Some [7] \<and> p_sons p 7 = Some []"
    using fork_run_result by (auto simp: Let_def)
  define p where "p = fold proc_step fork_run (booted_procs (kern M'))"
  obtain k where k: "run_events blank_image fork_run (kern M') = Some k" "represents k p"
    using run_represents[OF M'(2,3)] unfolding p_def by blast
  have p: "p_run p = 7" "p_sons p 8 = Some [7]" "p_sons p 7 = Some []" using M'(4) by (simp_all add: p_def Let_def)
  have "current k = 7" using k(2) p(1) by (simp add: represents_def)
  moreover obtain k' where k': "u_numsons blank_entry 0 k = Some (Some (-1, 1), k')"
      "\<And>q l. p_sons p q = Some l \<Longrightarrow> p_run p \<in> set l \<Longrightarrow> u_numbros blank_entry 0 k = Some (Some (int (card (set l - {p_run p})), 0), k')"
    using family_calls[OF k(2), of blank_entry 0] p by auto
  moreover have "u_numbros blank_entry 0 k = Some (Some (0, 0), k')" using k'(2)[OF p(2)] p(1) by simp
  ultimately show ?thesis using M'(1) k(1) by blast
qed

text \<open>C19: Numbers that are no system call. Through a wrapper, a process that calls with a negative number or one above 23 gets -1 with the
  error number 40; the eight unused entries of the table, 0, 5 to 9, 13 and 14, answer -1 with the error number 38; in both cases the processes stay as
  they are. The number 23, the first behind the table of 23 entries, is not refused: the kernel calls through the word that
  follows the table, and what comes back is up to that word.\<close>

theorem bad_syscall_numbers:
  assumes "represents k p"
  shows "(n < 0 \<or> 23 < n \<longrightarrow> (\<exists>k'. sysenter n load (img, e, r) errno k = Some (Some (-1, 40), k') \<and> represents k' p)) \<and>
    (n \<in> {0, 5, 6, 7, 8, 9, 13, 14} \<longrightarrow> (\<exists>k'. sysenter n load (img, e, r) errno k = Some (Some (-1, 38), k') \<and> represents k' p)) \<and>
    (\<exists>k'. represents k' p \<and> sysenter 23 load (img, e, r) errno k =
       map_option (\<lambda>(v, k). (map_option (\<lambda>w. sysenter_return w errno) v, k)) (behind_table img (load r) k'))"
proof -
  let ?k = "on_stack (current k) (fst e) (snd e) k"
  have r: "represents ?k p" by (rule represents_entry[OF assms])
  have m: "fst (msr_esp k) = current k" using assms msr_current by (auto simp: represents_def)
  have "sysenter n load (img, e, r) errno k = Some (Some (-1, 40), ?k)" if "n < 0 \<or> 23 < n"
    using that m by (simp add: sysenter_def sys_call_handler_sysenter_def Let_def sysenter_return_def wrap32_id)
  moreover have "sysenter n load (img, e, r) errno k = Some (Some (-1, 38), ?k)" if n: "n \<in> {0, 5, 6, 7, 8, 9, 13, 14}"
  proof -
    have "sys_call_table img n (load r) ?k = returning (sys_ni_syscall ?k)" using n by (auto simp: sys_call_table_def)
    moreover have "0 \<le> n" "n \<le> 23" using n by auto
    ultimately show ?thesis
      using sysenter_entry[OF assms, of n load img e r errno] by (simp add: returning_def sys_ni_syscall_def sysenter_return_def wrap32_id)
  qed
  moreover have "sysenter 23 load (img, e, r) errno k =
      map_option (\<lambda>(v, k). (map_option (\<lambda>w. sysenter_return w errno) v, k)) (behind_table img (load r) ?k)"
    using sysenter_entry[OF assms, of 23 load img e r errno] by (simp add: sys_call_table_def)
  ultimately show ?thesis using r by blast
qed

text \<open>The word behind the table takes the machine down in one image, in another it returns 5.\<close>

theorem bad_syscall_numbers_witness:
  "\<exists>M' k k1 k2 k3. zeos_main blank_linkage blank_machine = Some M' \<and> run_events blank_image fork_run (kern M') = Some k \<and>
     sysenter (-1) id blank_entry 0 k = Some (Some (-1, 40), k1) \<and> sysenter 14 id blank_entry 0 k = Some (Some (-1, 38), k2) \<and>
     sysenter 23 id blank_entry 0 k = None \<and>
     sysenter 23 id (blank_image\<lparr>behind_table := \<lambda>a k. Some (Some 5, k)\<rparr>, snd blank_entry) 0 k = Some (Some (5, 0), k3)"
proof -
  obtain M' where M': "zeos_main blank_linkage blank_machine = Some M'" "represents (kern M') (booted_procs (kern M'))"
      "admissible blank_image fork_run (kern M') (booted_procs (kern M'))"
    using fork_run_result by blast
  obtain k where k: "run_events blank_image fork_run (kern M') = Some k"
      "represents k (fold proc_step fork_run (booted_procs (kern M')))"
    using run_represents[OF M'(2,3)] by blast
  note b = bad_syscall_numbers[OF k(2), where load = id and errno = 0 and e = "fst (snd blank_entry)" and r = "snd (snd blank_entry)"]
  have e: "(blank_image, fst (snd blank_entry), snd (snd blank_entry)) = blank_entry" by (simp add: blank_entry_def)
  obtain k1 where k1: "sysenter (-1) id blank_entry 0 k = Some (Some (-1, 40), k1)" using b[of "-1" blank_image] e by auto
  obtain k2 where k2: "sysenter 14 id blank_entry 0 k = Some (Some (-1, 38), k2)" using b[of 14 blank_image] e by auto
  have k3: "sysenter 23 id blank_entry 0 k = None" using b[of 23 blank_image] unfolding e by (auto simp: blank_image_def)
  obtain k4 where "sysenter 23 id (blank_image\<lparr>behind_table := \<lambda>a k. Some (Some 5, k)\<rparr>, snd blank_entry) 0 k = Some (Some (5, 0), k4)"
    using b[of 23 "blank_image\<lparr>behind_table := \<lambda>a k. Some (Some 5, k)\<rparr>"] by (auto simp: sysenter_return_def)
  then show ?thesis using M'(1) k(1) k1 k2 k3 by blast
qed

end
