(* ===== verification/Zeos_Build.thy ===== *)
theory Zeos_Build
  imports Zeos_System
begin

text \<open>
  The tool that puts the disk image together, \<^verbatim>\<open>build.c\<close>: boot sector, kernel and user program one after the
  other, and the sizes patched into the first words of the kernel, where \<^verbatim>\<open>main\<close> of \<^verbatim>\<open>system.c\<close> reads them.

  The host is a record: files with the size \<^verbatim>\<open>fstat\<close> reports and the bytes \<^verbatim>\<open>read\<close> delivers (none when the
  call fails), the standard output as a file with a position, a limit for its size and whether it can be positioned (a pipe
  cannot), and the lines written to the standard error. A call of \<^verbatim>\<open>die\<close> ends the program with its message, \<open>Inl\<close>.
\<close>

subsection \<open>The host\<close>

record host_file =
  st_size :: "nat option"
  content :: "Byte list option"

record host =
  host_files :: "string \<rightharpoonup> host_file"
  host_out :: "Byte list"
  out_pos :: nat
  out_limit :: nat
  out_seekable :: bool
  host_err :: "(string \<times> int) list"

definition die :: "string \<Rightarrow> host \<Rightarrow> (string \<times> host) + 'a" where
  "die str h = Inl (str, h)"

text \<open>\<^verbatim>\<open>read\<close> of at most \<open>n\<close> bytes at the position \<open>pos\<close>; \<^term>\<open>None\<close> is a negative result.\<close>

definition sys_file_read :: "host_file \<Rightarrow> nat \<Rightarrow> nat \<Rightarrow> Byte list option" where
  "sys_file_read f pos n = map_option (\<lambda>bs. take n (drop pos bs)) (content f)"

text \<open>\<^verbatim>\<open>write\<close> to the standard output: the bytes go to the current position, as many as the limit admits. The
  result is the number written.\<close>

definition out_write :: "Byte list \<Rightarrow> host \<Rightarrow> nat \<times> host" where
  "out_write bs h =
     (let bs = take (out_limit h - out_pos h) bs; p = out_pos h; old = host_out h in
      (length bs, h\<lparr>host_out := take p old @ replicate (p - length old) 0 @ bs @ drop (p + length bs) old,
         out_pos := p + length bs\<rparr>))"

definition out_seek :: "nat \<Rightarrow> host \<Rightarrow> host option" where
  "out_seek p h = (if out_seekable h then Some (h\<lparr>out_pos := p\<rparr>) else None)"

definition log_err :: "string \<Rightarrow> int \<Rightarrow> host \<Rightarrow> host" where
  "log_err s n h = h\<lparr>host_err := host_err h @ [(s, n)]\<rparr>"

subsection \<open>The Minix header\<close>

abbreviation (input) MINIX_HEADER_LEN :: nat where "MINIX_HEADER_LEN \<equiv> 32"

definition minix_hdr :: "Byte list" where
  "minix_hdr = [0x01, 0x03, 0x10, 0x04, 0x20, 0x00, 0x00, 0x00]"

text \<open>\<^verbatim>\<open>lb[i]\<close> is not zero.\<close>

definition lb_set :: "Byte list \<Rightarrow> nat \<Rightarrow> bool" where
  "lb_set buf i \<longleftrightarrow> (\<exists>j<4. buf ! (4 * i + j) \<noteq> 0)"

definition minix_open :: "string \<Rightarrow> host \<Rightarrow> (string \<times> host) + host_file" where
  "minix_open name h = (case host_files h name of
       None \<Rightarrow> die ''Unable to open'' h
     | Some f \<Rightarrow> (case sys_file_read f 0 MINIX_HEADER_LEN of
           None \<Rightarrow> die ''Unable to read header'' h
         | Some buf \<Rightarrow>
             if length buf \<noteq> MINIX_HEADER_LEN then die ''Unable to read header'' h
             else if take 8 buf \<noteq> minix_hdr \<or> lb_set buf 5 then die ''Non-Minix header'' h
             else if lb_set buf 3 then die ''Illegal data segment'' h
             else if lb_set buf 4 then die ''Illegal bss segment'' h
             else if lb_set buf 7 then die ''Illegal symbol table'' h
             else Inr f))"

subsection \<open>Copying\<close>

text \<open>The boot sector: what follows the header, 512 bytes with the boot flag; the root device is cleared.\<close>

definition copy_boot :: "string \<Rightarrow> host \<Rightarrow> (string \<times> host) + host" where
  "copy_boot name h = (case minix_open name h of
       Inl e \<Rightarrow> Inl e
     | Inr f \<Rightarrow> (case sys_file_read f MINIX_HEADER_LEN 1024 of
           None \<Rightarrow> die ''Boot block must be exactly 512 bytes'' (log_err ''Boot sector %d bytes.'' (-1) h)
         | Some buf \<Rightarrow>
             let h = log_err ''Boot sector %d bytes.'' (int (length buf)) h in
             if length buf \<noteq> 512 then die ''Boot block must be exactly 512 bytes'' h
             else if buf ! 510 \<noteq> 0x55 \<or> buf ! 511 \<noteq> 0xaa then die ''Boot block hasn't got boot flag (0xAA55)'' h
             else case out_write (buf[508 := 0, 509 := 0]) h of (n, h) \<Rightarrow>
               if n \<noteq> 512 then die ''Write call failed'' h else Inr h))"

text \<open>The loop that copies a file in pieces of at most 1024 bytes; \<open>sz\<close> bytes are left.\<close>

function copy_loop :: "host_file \<Rightarrow> nat \<Rightarrow> nat \<Rightarrow> host \<Rightarrow> (string \<times> host) + host" where
  "copy_loop f pos sz h =
     (if sz = 0 then Inr h
      else let l = (if sz > 1024 then 1024 else sz) in
        case sys_file_read f pos l of
          None \<Rightarrow> die ''Error reading'' h
        | Some bs \<Rightarrow>
            if length bs \<noteq> l then die ''Unexpected EOF'' h
            else case out_write bs h of (n, h) \<Rightarrow>
              if n \<noteq> l then die ''Write failed'' h else copy_loop f (pos + l) (sz - l) h)"
  by pat_completeness auto
termination
  by (relation "measure (\<lambda>(f, pos, sz, h). sz)") (auto split: if_splits)

declare copy_loop.simps [simp del]

text \<open>The size is stored in a 32-bit variable.\<close>

definition copy_file :: "string \<Rightarrow> string \<Rightarrow> host \<Rightarrow> (string \<times> host) + (nat \<times> host)" where
  "copy_file msg name h = (case host_files h name of
       None \<Rightarrow> die ''Unable to open'' h
     | Some f \<Rightarrow> (case st_size f of
           None \<Rightarrow> die ''Unable to stat'' h
         | Some n \<Rightarrow>
             let sz = n mod 2 ^ 32; h = log_err msg (int (sz div 1024)) h in
             (case copy_loop f 0 sz h of Inl e \<Rightarrow> Inl e | Inr h \<Rightarrow> Inr (sz, h))))"

subsection \<open>Patching the sizes\<close>

definition patch :: "nat \<Rightarrow> string \<Rightarrow> Byte list \<Rightarrow> host \<Rightarrow> (string \<times> host) + host" where
  "patch p msg bs h =
     (case out_seek p h of
        None \<Rightarrow> die ''Output: seek failed'' h
      | Some h \<Rightarrow> (case out_write bs h of (n, h) \<Rightarrow> if n \<noteq> length bs then die msg h else Inr h))"

text \<open>Three bytes of the number, little end first, and a zero.\<close>

definition three_bytes :: "nat \<Rightarrow> Byte list" where
  "three_bytes n = [of_nat n, of_nat (n div 2 ^ 8), of_nat (n div 2 ^ 16), 0]"

definition build_main :: "string list \<Rightarrow> host \<Rightarrow> (string \<times> host) + host" where
  "build_main argv h =
     (if length argv \<noteq> 4 then die ''Usage: build bootsect system user [> image]'' h
      else case copy_boot (argv ! 1) h of Inl e \<Rightarrow> Inl e | Inr h \<Rightarrow>
        (case copy_file ''System is %d kB'' (argv ! 2) h of Inl e \<Rightarrow> Inl e | Inr (sys_size, h) \<Rightarrow>
        (case copy_file ''User is %d kB'' (argv ! 3) h of Inl e \<Rightarrow> Inl e | Inr (usr_size, h) \<Rightarrow>
          let im_size = ((sys_size + usr_size + 15) mod 2 ^ 32) div 16;
              h = log_err ''Image is %d kB'' (wrap32 (int sys_size + int usr_size) sdiv 1024) h
          in case patch 500 ''Write of image length failed'' [of_nat im_size, of_nat (im_size div 2 ^ 8)] h of Inl e \<Rightarrow> Inl e | Inr h \<Rightarrow>
          (case patch 512 ''Write of system length failed'' (three_bytes sys_size) h of Inl e \<Rightarrow> Inl e | Inr h \<Rightarrow>
          (case patch 516 ''Write of user length failed'' (three_bytes usr_size) h of Inl e \<Rightarrow> Inl e | Inr h \<Rightarrow>
             patch 520 ''Write of user length failed'' (three_bytes 0x7E6A) h)))))"

subsection \<open>Writing\<close>

lemma out_write_end:
  assumes "out_pos h = length (host_out h)" "length (host_out h) + length bs \<le> out_limit h"
  shows "out_write bs h = (length bs, h\<lparr>host_out := host_out h @ bs, out_pos := out_pos h + length bs\<rparr>)"
  using assms by (simp add: out_write_def Let_def)

lemma copy_loop_result:
  assumes "content f = Some bs" "pos + sz \<le> length bs" "out_pos h = length (host_out h)" "length (host_out h) + sz \<le> out_limit h"
  shows "copy_loop f pos sz h = Inr (h\<lparr>host_out := host_out h @ take sz (drop pos bs), out_pos := out_pos h + sz\<rparr>)"
  using assms
proof (induction f pos sz h rule: copy_loop.induct)
  case (1 f pos sz h)
  show ?case
  proof (cases "sz = 0")
    case True
    then show ?thesis by (simp add: copy_loop.simps)
  next
    case False
    define l where "l = (if sz > 1024 then 1024 else sz)"
    let ?h = "h\<lparr>host_out := host_out h @ take l (drop pos bs), out_pos := out_pos h + l\<rparr>"
    have l: "0 < l" "l \<le> sz" using False by (auto simp: l_def)
    have rd: "sys_file_read f pos l = Some (take l (drop pos bs))" using 1(2) by (simp add: sys_file_read_def)
    have len: "length (take l (drop pos bs)) = l" using 1(3) l by simp
    have w: "out_write (take l (drop pos bs)) h = (l, ?h)" using out_write_end[of h "take l (drop pos bs)"] 1(4,5) l len by simp
    have "copy_loop f pos sz h = copy_loop f (pos + l) (sz - l) ?h"
      by (subst copy_loop.simps) (use False rd len w in \<open>simp add: Let_def flip: l_def\<close>)
    also have "\<dots> = Inr (?h\<lparr>host_out := host_out ?h @ take (sz - l) (drop (pos + l) bs), out_pos := out_pos ?h + (sz - l)\<rparr>)"
      by (rule 1(1)[OF False l_def rd _ w[symmetric]]) (use 1(2-5) l len in simp_all)
    also have "\<dots> = Inr (h\<lparr>host_out := host_out h @ take sz (drop pos bs), out_pos := out_pos h + sz\<rparr>)"
      using take_add[of l "sz - l" "drop pos bs"] l by (simp add: add.commute)
    finally show ?thesis .
  qed
qed

lemma patch_result:
  assumes "p + length bs \<le> length (host_out h)" "length (host_out h) \<le> out_limit h" "out_seekable h"
  shows "patch p msg bs h = Inr (h\<lparr>host_out := take p (host_out h) @ bs @ drop (p + length bs) (host_out h), out_pos := p + length bs\<rparr>)"
  using assms by (simp add: patch_def out_write_def out_seek_def Let_def)

lemma word_at_three_bytes:
  assumes "r (of_nat a) = of_nat n" "r (of_nat (a + 1)) = of_nat (n div 2 ^ 8)" "r (of_nat (a + 2)) = of_nat (n div 2 ^ 16)"
    "r (of_nat (a + 3)) = 0" "n < 2 ^ 24"
  shows "word_at r a = of_nat n"
proof (rule bit_word_eqI)
  fix i assume "i < LENGTH(32)"
  have hi: "\<not> bit n i" if "24 \<le> i" using that assms(5)
    by (metis bit_nat_def div_less even_zero less_le_trans numeral_One one_le_numeral power_increasing)
  have d: "n div 2 ^ 8 = drop_bit 8 n" "n div 2 ^ 16 = drop_bit 16 n" by (simp_all add: drop_bit_eq_div)
  show "bit (word_at r a) i = bit (of_nat n :: DWord) i"
    unfolding word_at_def assms(1-4) d
    using hi \<open>i < LENGTH(32)\<close> by (cases "i < 8"; cases "i < 16"; cases "i < 24") (auto simp: bit_simps)
qed

subsection \<open>The image\<close>

definition boot_file :: "host_file \<Rightarrow> Byte list \<Rightarrow> bool" where
  "boot_file f boot \<longleftrightarrow> (\<exists>hd. content f = Some (hd @ boot) \<and> length hd = MINIX_HEADER_LEN \<and> take 8 hd = minix_hdr \<and>
     (\<forall>i\<in>{3, 4, 5, 7}. \<not> lb_set hd i)) \<and> length boot = 512 \<and> boot ! 510 = 0x55 \<and> boot ! 511 = 0xaa"

definition plain_file :: "host_file \<Rightarrow> Byte list \<Rightarrow> bool" where
  "plain_file f bs \<longleftrightarrow> content f = Some bs \<and> st_size f = Some (length bs)"

definition disk_image :: "Byte list \<Rightarrow> Byte list \<Rightarrow> Byte list \<Rightarrow> Byte list" where
  "disk_image boot sys usr = (let im = (length sys + length usr + 15) div 16 in
     boot[508 := 0, 509 := 0, 500 := of_nat im, 501 := of_nat (im div 2 ^ 8)] @
     three_bytes (length sys) @ three_bytes (length usr) @ three_bytes 0x7E6A @ drop 12 sys @ usr)"

lemma update_two:
  assumes "Suc n < length xs"
  shows "xs[n := a, Suc n := b] = take n xs @ [a, b] @ drop (Suc (Suc n)) xs"
proof -
  have "xs = take n xs @ xs ! n # xs ! Suc n # drop (Suc (Suc n)) xs"
    using assms by (metis Cons_nth_drop_Suc Suc_lessD append_take_drop_id)
  then obtain ys x y zs where "xs = ys @ x # y # zs" "length ys = n" using assms by (metis Suc_lessD length_take min_absorb2 less_imp_le_nat)
  then show ?thesis by (simp add: list_update_append)
qed

lemma copy_boot_result:
  assumes f: "host_files h name = Some f" "boot_file f boot" and o: "host_out h = []" "out_pos h = 0" "512 \<le> out_limit h"
  shows "copy_boot name h = Inr (h\<lparr>host_err := host_err h @ [(''Boot sector %d bytes.'', 512)],
    host_out := boot[508 := 0, 509 := 0], out_pos := 512\<rparr>)"
proof -
  obtain hd where hd: "content f = Some (hd @ boot)" "length hd = 32" "take 8 hd = minix_hdr"
      "\<not> lb_set hd 3" "\<not> lb_set hd 4" "\<not> lb_set hd 5" "\<not> lb_set hd 7"
    and boot: "length boot = 512" "boot ! 510 = 0x55" "boot ! 511 = 0xaa"
    using f(2) by (auto simp: boot_file_def)
  have m: "minix_open name h = Inr f" using f(1) hd by (simp add: minix_open_def sys_file_read_def)
  let ?h = "log_err ''Boot sector %d bytes.'' 512 h"
  have w: "out_write (boot[508 := 0, 509 := 0]) ?h = (512, ?h\<lparr>host_out := boot[508 := 0, 509 := 0], out_pos := 512\<rparr>)"
    using out_write_end[of ?h "boot[508 := 0, 509 := 0]"] o boot(1) by (simp add: log_err_def)
  show ?thesis using m hd(1,2) boot w by (simp add: copy_boot_def sys_file_read_def Let_def log_err_def)
qed

lemma copy_file_result:
  assumes "host_files h name = Some f" "plain_file f bs" "length bs < 2 ^ 32"
    and "out_pos h = length (host_out h)" "length (host_out h) + length bs \<le> out_limit h"
  shows "copy_file msg name h = Inr (length bs, h\<lparr>host_err := host_err h @ [(msg, int (length bs div 1024))],
    host_out := host_out h @ bs, out_pos := out_pos h + length bs\<rparr>)"
  using assms copy_loop_result[of f bs 0 "length bs" "log_err msg (int (length bs div 1024)) h"]
  by (simp add: copy_file_def plain_file_def Let_def log_err_def)

lemma build_result:
  assumes f: "host_files h b = Some fb" "boot_file fb boot" "host_files h s = Some fs" "plain_file fs sys"
      "host_files h u = Some fu" "plain_file fu usr"
    and o: "host_out h = []" "out_pos h = 0" "512 + length sys + length usr \<le> out_limit h" "out_seekable h"
    and sz: "12 \<le> length sys" "length sys + length usr < 2 ^ 31"
  shows "\<exists>h'. build_main [c, b, s, u] h = Inr h' \<and> host_out h' = disk_image boot sys usr"
proof -
  let ?boot = "boot[508 := 0, 509 := 0]"
  have lb: "length boot = 512" using f(2) by (simp add: boot_file_def)
  obtain h1 where h1: "copy_boot b h = Inr h1" "host_out h1 = ?boot" "out_pos h1 = 512" "host_files h1 = host_files h" "out_limit h1 = out_limit h" "out_seekable h1"
    using copy_boot_result[OF f(1,2) o(1,2)] o(3,4) by simp
  obtain h2 where h2: "copy_file ''System is %d kB'' s h1 = Inr (length sys, h2)" "host_out h2 = ?boot @ sys"
      "out_pos h2 = 512 + length sys" "host_files h2 = host_files h" "out_limit h2 = out_limit h" "out_seekable h2"
    using copy_file_result[of h1 s fs sys "''System is %d kB''"] f(3,4) sz h1 o(3) lb by simp
  obtain h3 where h3: "copy_file ''User is %d kB'' u h2 = Inr (length usr, h3)" "host_out h3 = ?boot @ sys @ usr" "out_limit h3 = out_limit h" "out_seekable h3"
    using copy_file_result[of h2 u fu usr "''User is %d kB''"] f(5,6) sz h2 o(3) lb by simp
  define im where "im = (length sys + length usr + 15) div 16"
  have im: "((length sys + length usr + 15) mod 2 ^ 32) div 16 = im" using sz(2) by (simp add: im_def)
  let ?h3 = "log_err ''Image is %d kB'' (wrap32 (int (length sys) + int (length usr)) sdiv 1024) h3"
  have l3: "host_out ?h3 = ?boot @ sys @ usr" "out_limit ?h3 = out_limit h" "out_seekable ?h3" using h3 by (simp_all add: log_err_def)
  obtain h4 where h4: "patch 500 ''Write of image length failed'' [of_nat im, of_nat (im div 2 ^ 8)] ?h3 = Inr h4"
      "host_out h4 = ?boot[500 := of_nat im, 501 := of_nat (im div 2 ^ 8)] @ sys @ usr" "out_limit h4 = out_limit h" "out_seekable h4"
  proof -
    have "take 500 ?boot @ [of_nat im, of_nat (im div 2 ^ 8)] @ drop 502 ?boot = ?boot[500 := of_nat im, 501 := of_nat (im div 2 ^ 8)]"
      using update_two[of 500 ?boot "of_nat im" "of_nat (im div 2 ^ 8)"] lb by simp
    then show thesis using that patch_result[of 500 "[of_nat im, of_nat (im div 2 ^ 8)]" ?h3] l3 o(3) lb by simp
  qed
  let ?b = "?boot[500 := of_nat im, 501 := of_nat (im div 2 ^ 8)]"
  have tl: "length (three_bytes n) = 4" for n by (simp add: three_bytes_def)
  have l4: "length ?b = 512" using lb by simp
  obtain h5 where h5: "patch 512 ''Write of system length failed'' (three_bytes (length sys)) h4 = Inr h5"
      "host_out h5 = ?b @ three_bytes (length sys) @ drop 4 sys @ usr" "out_limit h5 = out_limit h" "out_seekable h5"
    using patch_result[of 512 "three_bytes (length sys)" h4] h4 tl l4 sz(1) o(3) by simp
  obtain h6 where h6: "patch 516 ''Write of user length failed'' (three_bytes (length usr)) h5 = Inr h6"
      "host_out h6 = ?b @ three_bytes (length sys) @ three_bytes (length usr) @ drop 8 sys @ usr" "out_limit h6 = out_limit h" "out_seekable h6"
    using patch_result[of 516 "three_bytes (length usr)" h5] h5 tl l4 sz(1) o(3) by simp
  obtain h7 where h7: "patch 520 ''Write of user length failed'' (three_bytes 0x7E6A) h6 = Inr h7"
      "host_out h7 = ?b @ three_bytes (length sys) @ three_bytes (length usr) @ three_bytes 0x7E6A @ drop 12 sys @ usr"
    using patch_result[of 520 "three_bytes 0x7E6A" h6] h6 tl l4 sz(1) o(3) by simp
  have "build_main [c, b, s, u] h = Inr h7"
    unfolding build_main_def Let_def using h1(1) h2(1) h3(1) im h4(1) h5(1) h6(1) h7(1) by simp
  then show ?thesis using h7(2) by (simp add: disk_image_def Let_def im_def)
qed

subsection \<open>From the files to the first process\<close>

text \<open>The boot sector has put everything behind itself at \<^verbatim>\<open>KERNEL_START\<close>.\<close>

definition loaded_image :: "ram \<Rightarrow> Byte list \<Rightarrow> bool" where
  "loaded_image r img \<longleftrightarrow> (\<forall>i. 512 + i < length img \<longrightarrow> r (of_nat (0x10000 + i)) = img ! (512 + i))"

lemma loaded_sizes:
  assumes l: "loaded_image r (disk_image boot sys usr)" and b: "length boot = 512" "12 \<le> length sys"
    and sz: "length sys < 2 ^ 24" "length usr < 2 ^ 24"
  shows "word_at r 0x10000 = of_nat (length sys)" "word_at r 0x10004 = of_nat (length usr)"
    "i < length usr \<Longrightarrow> r (of_nat (0x10000 + length sys + i)) = usr ! i"
proof -
  let ?b = "boot[508 := 0, 509 := 0, 500 := of_nat ((length sys + length usr + 15) div 16), 501 := of_nat ((length sys + length usr + 15) div 16 div 2 ^ 8)]"
  let ?k = "three_bytes (length sys) @ three_bytes (length usr) @ three_bytes 0x7E6A @ drop 12 sys @ usr"
  have img: "disk_image boot sys usr = ?b @ ?k" by (simp add: disk_image_def Let_def)
  have lb: "length ?b = 512" using b(1) by simp
  have lk: "length ?k = length sys + length usr" using b(2) by (simp add: three_bytes_def)
  have r: "r (of_nat (0x10000 + j)) = ?k ! j" if j: "j < length ?k" for j
  proof -
    have "512 + j < length (disk_image boot sys usr)" using j lb by (simp only: img length_append)
    then have "r (of_nat (0x10000 + j)) = disk_image boot sys usr ! (512 + j)" using l unfolding loaded_image_def by blast
    also have "\<dots> = ?k ! j" unfolding img by (simp only: nth_append lb) simp
    finally show ?thesis .
  qed
  have w: "?k ! 0 = of_nat (length sys)" "?k ! 1 = of_nat (length sys div 2 ^ 8)" "?k ! 2 = of_nat (length sys div 2 ^ 16)" "?k ! 3 = 0"
      "?k ! 4 = of_nat (length usr)" "?k ! 5 = of_nat (length usr div 2 ^ 8)" "?k ! 6 = of_nat (length usr div 2 ^ 16)" "?k ! 7 = 0"
    by (simp_all add: three_bytes_def)
  show "word_at r 0x10000 = of_nat (length sys)"
    by (rule word_at_three_bytes) (use r[of 0] r[of 1] r[of 2] r[of 3] lk b(2) w sz in simp_all)
  show "word_at r 0x10004 = of_nat (length usr)"
    by (rule word_at_three_bytes) (use r[of 4] r[of 5] r[of 6] r[of 7] lk b(2) w sz in simp_all)
  assume i: "i < length usr"
  have "?k ! (length sys + i) = usr ! i"
  proof -
    let ?a = "three_bytes (length sys) @ three_bytes (length usr) @ three_bytes 0x7E6A @ drop 12 sys"
    have "length ?a = length sys" using b(2) by (simp add: three_bytes_def)
    then show ?thesis using nth_append_length_plus[of ?a usr i] by simp
  qed
  then show "r (of_nat (0x10000 + length sys + i)) = usr ! i" using r[of "length sys + i"] lk i by (simp add: add.assoc)
qed

text \<open>The machine comes up in process 1 with the user program in place; only the word above the initial stack pointer is
  written over.\<close>

definition boots_into :: "machine \<Rightarrow> linkage \<Rightarrow> Byte list \<Rightarrow> bool" where
  "boots_into M l usr \<longleftrightarrow> (\<exists>M'. zeos_main l M = Some M' \<and> current (kern M') = 8 \<and> PID (task (kern M') 8) = 1 \<and>
     (\<forall>i<length usr. i < 0x13FFC \<or> 0x14000 \<le> i \<longrightarrow>
        load8 (translate (mm (kern M'))) (0x100000 + of_nat i) (ram (mm (kern M'))) = Some (usr ! i)))"

lemma loaded_image_boots:
  assumes b: "length boot = 512" "12 \<le> length sys" "0x10000 + length sys + length usr \<le> 0x100000" "length usr \<le> 28 * 4096"
    and M: "layout_ok (mm (kern M))" "length (keys (cbuff (kern M))) = 32" "cursor_ok (io (kern M))" "next_pid (kern M) = 2"
      "loaded_image (ram (mm (kern M))) (disk_image boot sys usr)"
  shows "boots_into M l usr"
proof -
  have lt: "length sys < 2 ^ 24" "length usr < 2 ^ 24" using b by simp_all
  note w = loaded_sizes[OF M(5) b(1,2) lt]
  have u: "unat (of_nat (length sys) :: DWord) = length sys" "unat (of_nat (length usr) :: DWord) = length usr"
    by (rule unat_of_nat_DWord, use lt in simp)+
  have "power_on M" using M b(3,4) by (simp add: power_on_def image_fits_def w(1,2) u add.assoc)
  from boot_result[OF this, of l] obtain M' where M': "zeos_main l M = Some M'" "current (kern M') = 8" "PID (task (kern M') 8) = 1"
    "\<forall>i < unat (word_at (ram (mm (kern M))) 0x10004). i < 0x13FFC \<or> 0x14000 \<le> i \<longrightarrow>
      load8 (translate (mm (kern M'))) (0x100000 + of_nat i) (ram (mm (kern M'))) =
        Some (ram (mm (kern M)) (of_nat (0x10000 + unat (word_at (ram (mm (kern M))) 0x10000) + i)))" by blast
  then show ?thesis using w(3) unfolding boots_into_def w(1,2) u by (intro exI[of _ M']) simp
qed

end
