(* ===== verification/Zeos_Boot.thy ===== *)
theory Zeos_Boot
  imports Zeos_Build
begin

text \<open>
  The loader of the boot sector, \<^verbatim>\<open>bootsect.S\<close>: it moves itself to \<^verbatim>\<open>0x90000\<close> and reads the kernel from the floppy disk to
  \<^verbatim>\<open>0x10000\<close>, as many sectors at a time as the track and the 64 kB segment allow, until it has passed the size that the
  build tool has patched into it.

  Registers and variables are 16-bit words, memory is a map from physical addresses. The BIOS is not part of the
  sources: its disk service \<^verbatim>\<open>int 0x13\<close> is a parameter, a function of the registers and the memory, and \<open>bios_reads\<close> is
  what its documentation promises. The loader's variables start as assembled, with zero. What it prints and pushes goes to
  the screen and to its stack above \<^verbatim>\<open>0x90200\<close> and is left out.

  Of the way to protected mode there are the bytes sent to the controllers, the wait for the keyboard controller and
  the descriptor table; the test of the A20 line, \<^verbatim>\<open>lidt\<close>, \<^verbatim>\<open>lgdt\<close> and the jump are not modelled.
\<close>

subsection \<open>Memory of the 8086\<close>

type_synonym bios_disk = "Word16 \<Rightarrow> Word16 \<Rightarrow> Word16 \<Rightarrow> Word16 \<Rightarrow> Word16 \<Rightarrow> ram \<Rightarrow> ram"

abbreviation (input) BOOTSEG :: nat where "BOOTSEG \<equiv> 0x07C0"
abbreviation (input) INITSEG :: nat where "INITSEG \<equiv> 0x9000"
abbreviation (input) SYSSEG :: Word16 where "SYSSEG \<equiv> 0x1000"
abbreviation (input) SEC_PISTA :: Word16 where "SEC_PISTA \<equiv> 18"

text \<open>The variables of the boot sector that are read: the byte \<^verbatim>\<open>setup_sects\<close> and the word \<^verbatim>\<open>syssize\<close>.\<close>

definition setup_sects :: "ram \<Rightarrow> Byte" where
  "setup_sects m = m (of_nat (16 * INITSEG + 497))"

definition syssize :: "ram \<Rightarrow> Word16" where
  "syssize m = ucast (m (of_nat (16 * INITSEG + 500))) OR push_bit 8 (ucast (m (of_nat (16 * INITSEG + 501))))"

text \<open>\<^verbatim>\<open>rep movsw\<close> of 256 words from \<^verbatim>\<open>BOOTSEG:0\<close> to \<^verbatim>\<open>INITSEG:0\<close>.\<close>

definition move_boot_sector :: "ram \<Rightarrow> ram" where
  "move_boot_sector m = fold (\<lambda>i m. m(of_nat (16 * INITSEG + i) := m (of_nat (16 * BOOTSEG + i)))) [0..<512] m"

subsection \<open>Reading\<close>

record loader =
  sread :: Word16
  head :: Word16
  track :: Word16
  seg_es :: Word16
  reg_bx :: Word16
  memory :: ram

text \<open>\<^verbatim>\<open>read_track\<close> with the number of sectors in \<^verbatim>\<open>%al\<close>. The carry flag that tells of an error is not looked at.\<close>

definition read_track :: "bios_disk \<Rightarrow> Word16 \<Rightarrow> loader \<Rightarrow> loader" where
  "read_track int13 ax s =
     (let cx = sread s + 1;
          cx = (cx AND 0xFF) OR push_bit 8 (track s AND 0xFF);
          dx = (head s AND 0xFF) OR push_bit 8 (head s AND 0xFF);
          dx = dx AND 0x0100;
          ax = (ax AND 0xFF) OR 0x0200
      in s\<lparr>memory := int13 ax cx dx (seg_es s) (reg_bx s) (memory s)\<rparr>)"

text \<open>One round of the loop at \<^verbatim>\<open>ok1_read\<close>: the rest of the track, or of the segment when the track crosses its end.\<close>

definition carry :: "Word16 \<Rightarrow> Word16 \<Rightarrow> bool" where
  "carry a b \<longleftrightarrow> unat a + unat b \<ge> 2 ^ 16"

definition read_step_count :: "loader \<Rightarrow> Word16" where
  "read_step_count s =
     (let ax = SEC_PISTA - sread s; cx = push_bit 9 ax in
      if \<not> carry cx (reg_bx s) \<or> cx + reg_bx s = 0 then ax else drop_bit 9 (0 - reg_bx s))"

definition advance :: "Word16 \<Rightarrow> loader \<Rightarrow> loader" where
  "advance n s =
     (let ax = n + sread s;
          s = (if ax = SEC_PISTA then
                 let h = 1 - head s in s\<lparr>track := (if h = 0 then track s + 1 else track s), head := h, sread := 0\<rparr>
               else s\<lparr>sread := ax\<rparr>);
          cx = push_bit 9 n
      in if carry (reg_bx s) cx then s\<lparr>seg_es := seg_es s + 0x1000, reg_bx := 0\<rparr>
         else s\<lparr>reg_bx := reg_bx s + cx\<rparr>)"

definition load_step :: "bios_disk \<Rightarrow> loader \<Rightarrow> loader" where
  "load_step int13 s = (let n = read_step_count s in advance n (read_track int13 n s))"

partial_function (option) rp_read :: "bios_disk \<Rightarrow> loader \<Rightarrow> loader option" where
  "rp_read int13 s =
     (if seg_es s - SYSSEG \<le> syssize (memory s) then rp_read int13 (load_step int13 s) else Some s)"

text \<open>\<^verbatim>\<open>read_it\<close>: a segment that is not at a 64 kB boundary ends in the loop \<^verbatim>\<open>die\<close>.\<close>

definition read_it :: "bios_disk \<Rightarrow> Word16 \<Rightarrow> ram \<Rightarrow> loader option" where
  "read_it int13 es m =
     (if es AND 0x0FFF \<noteq> 0 then None
      else rp_read int13 \<lparr>sread = ucast (setup_sects m + 1), head = 0, track = 0, seg_es = es, reg_bx = 0, memory = m\<rparr>)"

definition bootsect :: "bios_disk \<Rightarrow> ram \<Rightarrow> ram option" where
  "bootsect int13 m = map_option memory (read_it int13 SYSSEG (move_boot_sector m))"

subsection \<open>The way to protected mode\<close>

text \<open>The bytes written to ports, in order: the floppy motor, the NMI and the A20 gate, the two interrupt controllers.\<close>

definition kill_motor :: "(Word16 \<times> Byte) list" where
  "kill_motor = [(0x3F2, 0)]"

definition a20_ports :: "(Word16 \<times> Byte) list" where
  "a20_ports = [(0x70, 0x80), (0x64, 0xD1), (0x60, 0xDF)]"

definition pic_ports :: "(Word16 \<times> Byte) list" where
  "pic_ports = [(0x20, 0x11), (0xA0, 0x11), (0x21, 0x20), (0xA1, 0x28), (0x21, 0x04), (0xA1, 0x02), (0x21, 0x01), (0xA1, 0x01),
     (0xA1, 0xFF), (0x21, 0xFB)]"

text \<open>\<^verbatim>\<open>empty_8042\<close>, with the readings of the status port; the result is the number of readings.\<close>

fun empty_8042_loop :: "(nat \<Rightarrow> Byte) \<Rightarrow> nat \<Rightarrow> nat \<Rightarrow> nat" where
  "empty_8042_loop status k ecx =
     (if ecx - 1 = 0 then k
      else if status k AND 1 \<noteq> 0 then empty_8042_loop status (Suc k) (ecx - 1)
      else if status k AND 2 \<noteq> 0 then empty_8042_loop status (Suc k) (ecx - 1)
      else Suc k)"

declare empty_8042_loop.simps [simp del]

definition empty_8042 :: "(nat \<Rightarrow> Byte) \<Rightarrow> nat" where
  "empty_8042 status = empty_8042_loop status 0 0xFFFFFF"

text \<open>The table \<^verbatim>\<open>gdt\<close> at offset 435.\<close>

definition boot_gdt :: "Descriptor list" where
  "boot_gdt =
     (let seg = \<lambda>access. \<lparr>limit = 0xFFFF, lowBase = 0, midBase = 0, flags1 = access, flags2 = 0xCF, highBase = 0\<rparr>;
          none = \<lparr>limit = 0, lowBase = 0, midBase = 0, flags1 = 0, flags2 = 0, highBase = 0\<rparr>
      in [none, none, seg 0x9A, seg 0x92, seg 0xFA, seg 0xF2, none\<lparr>limit := 104, flags1 := 0x89\<rparr>])"

subsection \<open>What the BIOS promises\<close>

text \<open>Function 2 of \<^verbatim>\<open>int 0x13\<close> on drive 0: \<open>n\<close> sectors of the track \<open>t\<close> and the head \<open>h\<close>, from the sector \<open>c\<close> on (counted
  from 0 here, from 1 in \<^verbatim>\<open>%cl\<close>), go to \<^verbatim>\<open>es:bx\<close> when they lie on one track and do not cross the end of the segment.
  Sector \<open>c\<close> of track \<open>t\<close> and head \<open>h\<close> is the sector \<open>(2 * t + h) * 18 + c\<close> of the disk. Nothing is said of the memory
  below \<^verbatim>\<open>0x600\<close>, where the BIOS keeps its own data.\<close>

definition bios_reads :: "bios_disk \<Rightarrow> (nat \<Rightarrow> Byte) \<Rightarrow> bool" where
  "bios_reads int13 disk \<longleftrightarrow> (\<forall>n c t h es bx m a. 0 < n \<and> c + n \<le> 18 \<and> t < 80 \<and> h < 2 \<and>
       16 * unat es + 2 ^ 16 \<le> 2 ^ 20 \<and> unat bx + 512 * n \<le> 2 ^ 16 \<and> 0x600 \<le> unat a \<longrightarrow>
     int13 (of_nat (0x200 + n)) (of_nat (256 * t + (c + 1))) (of_nat (256 * h)) es bx m a =
       (let b = 16 * unat es + unat bx in
        if b \<le> unat a \<and> unat a < b + 512 * n then disk (512 * ((2 * t + h) * 18 + c) + (unat a - b)) else m a))"

subsection \<open>The state after \<open>n\<close> sectors\<close>

text \<open>Sector 0 of the disk is the boot sector, so \<open>n\<close> sectors of the kernel end before the sector \<open>n + 1\<close>.\<close>

definition loader_at :: "nat \<Rightarrow> ram \<Rightarrow> loader" where
  "loader_at n m = \<lparr>sread = of_nat (Suc n mod 18), head = of_nat (Suc n div 18 mod 2), track = of_nat (Suc n div 36),
     seg_es = of_nat (0x1000 * Suc (n div 128)), reg_bx = of_nat (512 * (n mod 128)), memory = m\<rparr>"

definition next_count :: "nat \<Rightarrow> nat" where
  "next_count n = min (18 - Suc n mod 18) (128 - n mod 128)"

lemma unat_of_nat_Word16: "k < 2 ^ 16 \<Longrightarrow> unat (of_nat k :: Word16) = k"
  by (simp add: unat_of_nat take_bit_nat_eq_self)

lemma next_count_bounds:
  "0 < next_count n" "next_count n \<le> 18" "Suc n mod 18 + next_count n \<le> 18" "n mod 128 + next_count n \<le> 128"
  by (auto simp: next_count_def min_def)

lemma word16_add: "(of_nat a + of_nat b :: Word16) = of_nat (a + b)" by simp

lemma carry_of_nat: "a < 2 ^ 16 \<Longrightarrow> b < 2 ^ 16 \<Longrightarrow> carry (of_nat a) (of_nat b) \<longleftrightarrow> 2 ^ 16 \<le> a + b"
  unfolding carry_def by (simp only: unat_of_nat_Word16)

lemma word16_eq_0: "k < 2 ^ 17 \<Longrightarrow> (of_nat k :: Word16) = 0 \<longleftrightarrow> k = 0 \<or> k = 2 ^ 16"
  unfolding word_of_nat_eq_0_iff by (auto elim!: dvdE)

lemma sectors_left:
  assumes "0 < a" "a \<le> 18" "q < 128"
  shows "(let cx = push_bit 9 (of_nat a :: Word16) in
      if \<not> carry cx (of_nat (512 * q)) \<or> cx + of_nat (512 * q) = 0 then of_nat a else drop_bit 9 (0 - of_nat (512 * q))) =
    (of_nat (min a (128 - q)) :: Word16)"
proof -
  have cx: "push_bit 9 (of_nat a :: Word16) = of_nat (512 * a)" by (simp add: push_bit_eq_mult)
  have c: "carry (of_nat (512 * a)) (of_nat (512 * q)) \<longleftrightarrow> 128 \<le> a + q" using assms by (subst carry_of_nat) auto
  have z: "(of_nat (512 * a) + of_nat (512 * q) :: Word16) = 0 \<longleftrightarrow> a + q = 128"
    unfolding word16_add using assms by (subst word16_eq_0) auto
  have d: "drop_bit 9 (0 - of_nat (512 * q) :: Word16) = of_nat (128 - q)" if "0 < q"
  proof -
    have n: "(0 - of_nat (512 * q) :: Word16) = of_nat (2 ^ 16 - 512 * q)"
      using of_nat_diff[of "512 * q" "2 ^ 16", where 'a = Word16] assms(3) by simp
    have u: "unat (of_nat (2 ^ 16 - 512 * q) :: Word16) = 2 ^ 16 - 512 * q" by (rule unat_of_nat_Word16) (use that in simp)
    have "unat (drop_bit 9 (of_nat (2 ^ 16 - 512 * q) :: Word16)) = (2 ^ 16 - 512 * q) div 512"
      unfolding unat_drop_bit_eq u by (simp add: drop_bit_eq_div)
    also have "\<dots> = 128 - q" using assms(3) by simp
    also have "\<dots> = unat (of_nat (128 - q) :: Word16)" by (rule unat_of_nat_Word16[symmetric]) simp
    finally show ?thesis unfolding n by (simp only: word_unat_eq_iff)
  qed
  show ?thesis unfolding Let_def cx c z using assms d by (auto simp: min_def)
qed

lemma read_step_count_at: "read_step_count (loader_at n m) = of_nat (next_count n)"
proof -
  have a: "(18 :: Word16) - of_nat (Suc n mod 18) = of_nat (18 - Suc n mod 18)"
    using of_nat_diff[of "Suc n mod 18" 18, where 'a = Word16] by simp
  show ?thesis unfolding read_step_count_def loader_at_def next_count_def loader.simps Let_def a
    by (rule sectors_left[unfolded Let_def]) simp_all
qed

text \<open>The registers of the disk service.\<close>

lemma byte_pair:
  fixes a b :: nat
  assumes "a < 256" "b < 256"
  shows "(of_nat a AND 0xFF) OR push_bit 8 (of_nat b AND 0xFF) = (of_nat (256 * b + a) :: Word16)"
proof -
  have m: "(of_nat k AND 0xFF :: Word16) = of_nat k" if "k < 256" for k
  proof -
    have "(of_nat k AND 0xFF :: Word16) = take_bit 8 (of_nat k)" by (simp add: take_bit_eq_mask mask_eq_exp_minus_1)
    also have "\<dots> = of_nat (take_bit 8 k)" by (simp add: take_bit_of_nat)
    finally show ?thesis using that by (simp add: take_bit_nat_eq_self)
  qed
  have "a OR push_bit 8 b = 256 * b + a"
  proof -
    have "take_bit 8 a AND push_bit 8 b = 0" by (rule bit_eqI) (simp add: bit_simps)
    then show ?thesis using disjunctive_add_eq_or[of a "push_bit 8 b"] assms(1) by (simp add: take_bit_nat_eq_self push_bit_eq_mult)
  qed
  then show ?thesis unfolding m[OF assms(1)] m[OF assms(2)] by (metis of_nat_or_eq push_bit_of_nat)
qed

lemma read_track_at:
  assumes "c < 256" "n < 2048"
  shows "read_track int13 (of_nat c) (loader_at n m) = loader_at n
    (int13 (of_nat (0x200 + c)) (of_nat (256 * (Suc n div 36) + (Suc n mod 18 + 1))) (of_nat (256 * (Suc n div 18 mod 2)))
      (seg_es (loader_at n m)) (reg_bx (loader_at n m)) m)"
proof -
  have ax: "(of_nat c AND 0xFF) OR 0x200 = (of_nat (0x200 + c) :: Word16)" using byte_pair[of c 2] assms by simp
  have cx: "((of_nat (Suc n mod 18) + 1) AND 0xFF) OR push_bit 8 (of_nat (Suc n div 36) AND 0xFF) =
      (of_nat (256 * (Suc n div 36) + (Suc n mod 18 + 1)) :: Word16)"
  proof -
    have "Suc n mod 18 + 1 < 256" by (rule less_trans[of _ 19]) (simp_all)
    moreover have "Suc n div 36 < 256" using assms(2) by (simp add: div_less_iff_less_mult)
    ultimately show ?thesis using byte_pair[of "Suc n mod 18 + 1" "Suc n div 36"] by (simp only: of_nat_add of_nat_1)
  qed
  have dx: "((of_nat h AND 0xFF) OR push_bit 8 (of_nat h AND 0xFF)) AND 0x100 = (of_nat (256 * h) :: Word16)" if "h < 2" for h
    using that less_2_cases[of h] by auto
  show ?thesis
    unfolding read_track_def Let_def loader_at_def loader.simps ax cx by (subst dx) simp_all
qed

lemma next_block:
  fixes a k c :: nat
  assumes "a mod k + c \<le> k" "0 < k"
  shows "(a + c) mod k = (if a mod k + c = k then 0 else a mod k + c)"
    "(a + c) div k = (if a mod k + c = k then Suc (a div k) else a div k)"
proof -
  obtain q r where a: "a = k * q + r" "r < k" using assms(2) by (metis mod_less_divisor mult_div_mod_eq)
  have r: "a mod k = r" "a div k = q" using a by simp_all
  have e: "a + c = (if r + c = k then k * Suc q else k * q + (r + c))" by (simp add: a)
  show "(a + c) mod k = (if a mod k + c = k then 0 else a mod k + c)"
    "(a + c) div k = (if a mod k + c = k then Suc (a div k) else a div k)"
    unfolding r e using assms r by (auto simp del: mult_Suc_right)
qed

lemma next_cylinder: "Suc d div 2 = (if Suc d mod 2 = 0 then Suc (d div 2) else d div 2)" "of_nat (Suc d mod 2) = (1 - of_nat (d mod 2) :: Word16)"
  by (auto simp: div_Suc mod_Suc)

lemma advance_at:
  fixes n :: nat
  defines "c \<equiv> next_count n"
  shows "advance (of_nat c) (loader_at n m) = loader_at (n + c) m"
proof -
  note b = next_count_bounds[of n, folded c_def]
  let ?s = "Suc n mod 18" and ?q = "n mod 128"
  have s: "(of_nat c + of_nat ?s :: Word16) = 18 \<longleftrightarrow> ?s + c = 18"
  proof -
    have "(of_nat c + of_nat ?s :: Word16) = of_nat (?s + c)" by simp
    moreover have "unat (of_nat (?s + c) :: Word16) = ?s + c" by (rule unat_of_nat_Word16) (use b(3) in simp)
    moreover have "unat (18 :: Word16) = 18" by simp
    ultimately show ?thesis by (metis of_nat_numeral)
  qed
  have q: "carry (of_nat (512 * ?q)) (push_bit 9 (of_nat c)) \<longleftrightarrow> ?q + c = 128"
  proof -
    have "push_bit 9 (of_nat c :: Word16) = of_nat (512 * c)" by (simp add: push_bit_eq_mult)
    moreover have "carry (of_nat (512 * ?q)) (of_nat (512 * c)) \<longleftrightarrow> 2 ^ 16 \<le> 512 * ?q + 512 * c"
      using b(2) by (intro carry_of_nat) auto
    ultimately show ?thesis using b(4) by auto
  qed
  have d36: "k div 36 = k div 18 div 2" for k :: nat by (simp add: div_mult2_eq)
  show ?thesis
    unfolding advance_def Let_def loader_at_def loader.simps s d36 next_block[of "Suc n" 18 c, OF b(3), simplified] next_block[of n 128 c, OF b(4), simplified]
    using q by (cases "even (Suc n div 18)") (auto simp: next_cylinder mod_2_eq_odd push_bit_eq_mult algebra_simps)
qed

subsection \<open>The loop\<close>

text \<open>The memory after the sectors up to \<open>k\<close> have been read, \<open>n\<close> of them before.\<close>

definition sectors_read :: "(nat \<Rightarrow> Byte) \<Rightarrow> nat \<Rightarrow> nat \<Rightarrow> ram \<Rightarrow> ram \<Rightarrow> bool" where
  "sectors_read disk n k m m' \<longleftrightarrow> (\<forall>a. 0x600 \<le> unat a \<longrightarrow>
     m' a = (if 0x10000 + 512 * n \<le> unat a \<and> unat a < 0x10000 + 512 * k then disk (512 + (unat a - 0x10000)) else m a))"

lemma sectors_read_refl: "sectors_read disk n n m m" by (auto simp: sectors_read_def)

lemma sectors_read_trans:
  assumes "sectors_read disk n k m m'" "sectors_read disk k l m' m''" "n \<le> k" "k \<le> l"
  shows "sectors_read disk n l m m''"
  unfolding sectors_read_def
proof (intro allI impI)
  fix a :: DWord assume "0x600 \<le> unat a"
  then show "m'' a = (if 0x10000 + 512 * n \<le> unat a \<and> unat a < 0x10000 + 512 * l then disk (512 + (unat a - 0x10000)) else m a)"
    using assms by (auto simp: sectors_read_def)
qed

lemma sectors_read_keeps:
  assumes "sectors_read disk n k m m'" "k \<le> 1024" "i < 512"
  shows "m' (of_nat (0x90000 + i)) = m (of_nat (0x90000 + i))"
proof -
  have "unat (of_nat (0x90000 + i) :: DWord) = 0x90000 + i" using assms(3) by (intro unat_of_nat_DWord) simp
  then show ?thesis using assms unfolding sectors_read_def by (auto simp del: of_nat_add)
qed

lemma syssize_keeps: "sectors_read disk n k m m' \<Longrightarrow> k \<le> 1024 \<Longrightarrow> syssize m' = syssize m"
  using sectors_read_keeps[of disk n k m m' 500] sectors_read_keeps[of disk n k m m' 501] by (simp add: syssize_def)

lemma next_count_in_segment: "n + next_count n \<le> 128 * Suc (n div 128)"
proof -
  have "128 * q + r + c \<le> 128 * Suc q" if "r + c \<le> 128" for q r c :: nat using that by simp
  from this[OF next_count_bounds(4)[of n], of "n div 128"] show ?thesis by simp
qed

lemma load_step_at:
  assumes "bios_reads int13 disk" "n < 1024"
  obtains m' where "load_step int13 (loader_at n m) = loader_at (n + next_count n) m'" "sectors_read disk n (n + next_count n) m m'"
proof -
  let ?c = "next_count n" and ?k = "Suc n"
  note b = next_count_bounds[of n]
  let ?es = "of_nat (0x1000 * Suc (n div 128)) :: Word16" and ?bx = "of_nat (512 * (n mod 128)) :: Word16"
  define m' where "m' = int13 (of_nat (0x200 + ?c)) (of_nat (256 * (?k div 36) + (?k mod 18 + 1))) (of_nat (256 * (?k div 18 mod 2))) ?es ?bx m"
  have "load_step int13 (loader_at n m) = advance (of_nat ?c) (loader_at n m')"
    unfolding load_step_def Let_def read_step_count_at
    by (subst read_track_at) (use b(2) assms(2) in \<open>simp_all add: m'_def loader_at_def\<close>)
  then have step: "load_step int13 (loader_at n m) = loader_at (n + ?c) m'" by (simp only: advance_at)
  have "n div 128 < 8" using assms(2) by (simp add: div_less_iff_less_mult)
  then have es: "unat ?es = 0x1000 * Suc (n div 128)" by (intro unat_of_nat_Word16) simp
  have bx: "unat ?bx = 512 * (n mod 128)" by (rule unat_of_nat_Word16) simp
  have base: "16 * unat ?es + unat ?bx = 0x10000 + 512 * n" unfolding es bx
  proof -
    have "16 * (0x1000 * Suc q) + 512 * r = 0x10000 + 512 * (128 * q + r)" for q r :: nat by simp
    from this[of "n div 128" "n mod 128"] show "16 * (0x1000 * Suc (n div 128)) + 512 * (n mod 128) = 0x10000 + 512 * n" by simp
  qed
  have "2 * (?k div 36) + ?k div 18 mod 2 = ?k div 18" using mult_div_mod_eq[of 2 "?k div 18"] by (simp add: div_mult2_eq[of ?k 18 2, simplified])
  then have sect: "(2 * (?k div 36) + ?k div 18 mod 2) * 18 + ?k mod 18 = ?k" using div_mult_mod_eq[of ?k 18] by simp
  have "0 < ?c \<and> ?k mod 18 + ?c \<le> 18 \<and> ?k div 36 < 80 \<and> ?k div 18 mod 2 < 2 \<and> 16 * unat ?es + 2 ^ 16 \<le> 2 ^ 20 \<and> unat ?bx + 512 * ?c \<le> 2 ^ 16"
    using b assms(2) \<open>n div 128 < 8\<close> unfolding es bx by (simp add: div_less_iff_less_mult)
  then have m': "m' a = (if 0x10000 + 512 * n \<le> unat a \<and> unat a < 0x10000 + 512 * n + 512 * ?c
      then disk (512 * ?k + (unat a - (0x10000 + 512 * n))) else m a)" if "0x600 \<le> unat a" for a
    using assms(1)[unfolded bios_reads_def, rule_format, of ?c "?k mod 18" "?k div 36" "?k div 18 mod 2" ?es ?bx a m] that
    unfolding m'_def[symmetric] Let_def base sect by blast
  have "sectors_read disk n (n + ?c) m m'"
    unfolding sectors_read_def
  proof (intro allI impI)
    fix a :: DWord assume "0x600 \<le> unat a"
    moreover have "512 * ?k + (unat a - (0x10000 + 512 * n)) = 512 + (unat a - 0x10000)" if "0x10000 + 512 * n \<le> unat a" using that by simp
    ultimately show "m' a = (if 0x10000 + 512 * n \<le> unat a \<and> unat a < 0x10000 + 512 * (n + ?c) then disk (512 + (unat a - 0x10000)) else m a)"
      using m'[of a] by (auto simp: add_mult_distrib2)
  qed
  with step show thesis by (rule that)
qed

lemma rp_read_test:
  assumes "n \<le> 1024"
  shows "seg_es (loader_at n m) - 0x1000 \<le> w \<longleftrightarrow> n div 128 \<le> unat w div 4096"
proof -
  have "(of_nat (0x1000 * Suc (n div 128)) :: Word16) - 0x1000 = of_nat (4096 * (n div 128))" by simp
  moreover have "unat (of_nat (4096 * (n div 128)) :: Word16) = 4096 * (n div 128)"
    by (rule unat_of_nat_Word16) (use div_le_mono[OF assms, of 128] in simp)
  ultimately show ?thesis by (simp add: loader_at_def word_le_nat_alt less_eq_div_iff_mult_less_eq mult.commute)
qed

lemma rp_read_result:
  assumes "bios_reads int13 disk" "unat (syssize m) < 0x8000"
    and "n \<le> k" "k = 128 * Suc (unat (syssize m) div 4096)"
  shows "\<exists>m'. rp_read int13 (loader_at n m) = Some (loader_at k m') \<and> sectors_read disk n k m m'"
  using assms(2-)
proof (induction "k - n" arbitrary: n m rule: less_induct)
  case less
  have k: "k \<le> 1024" using less.prems by (simp add: less_mult_imp_div_less)
  show ?case
  proof (cases "n = k")
    case True
    then have "\<not> n div 128 \<le> unat (syssize m) div 4096" using less.prems(3) by simp
    then have "rp_read int13 (loader_at n m) = Some (loader_at n m)"
      using rp_read_test[of n m "syssize m"] k True by (subst rp_read.simps) (simp add: loader_at_def)
    then show ?thesis using True sectors_read_refl by blast
  next
    case False
    then have n: "n < k" using less.prems(2) by linarith
    let ?n = "n + next_count n"
    have q: "n div 128 \<le> unat (syssize m) div 4096" using n less.prems(3) by (simp add: less_mult_imp_div_less mult.commute flip: less_Suc_eq_le)
    have "n < 1024" using n k by simp
    then obtain m' where m': "load_step int13 (loader_at n m) = loader_at ?n m'" "sectors_read disk n ?n m m'"
      by (rule load_step_at[OF assms(1)])
    have "?n \<le> k" using next_count_in_segment[of n] q less.prems(3) by simp
    moreover have sz: "syssize m' = syssize m" using syssize_keeps[OF m'(2)] calculation k by simp
    moreover have "k - ?n < k - n" using n next_count_bounds(1)[of n] by linarith
    ultimately obtain m'' where m'': "rp_read int13 (loader_at ?n m') = Some (loader_at k m'')" "sectors_read disk ?n k m' m''"
      using less.hyps[of ?n m'] less.prems by metis
    have "rp_read int13 (loader_at n m) = rp_read int13 (loader_at ?n m')"
      using rp_read_test[of n m "syssize m"] k n q m'(1) by (subst rp_read.simps) (simp add: loader_at_def)
    then show ?thesis using m'' sectors_read_trans[OF m'(2) m''(2)] \<open>?n \<le> k\<close> by auto
  qed
qed

lemma move_boot_sector_upto:
  assumes "k \<le> 512"
  shows "fold (\<lambda>i m. m(of_nat (0x90000 + i) := m (of_nat (0x7C00 + i)))) [0..<k] m a =
    (if 0x90000 \<le> unat a \<and> unat a < 0x90000 + k then m (of_nat (0x7C00 + (unat a - 0x90000))) else m (a :: DWord))"
  using assms
proof (induction k arbitrary: a)
  case (Suc k)
  have d: "unat (of_nat (0x90000 + k) :: DWord) = 0x90000 + k" and s: "unat (of_nat (0x7C00 + k) :: DWord) = 0x7C00 + k"
    using Suc.prems by (intro unat_of_nat_DWord; simp)+
  have eq: "a = of_nat (0x90000 + k) \<longleftrightarrow> unat a = 0x90000 + k" using d by (metis word_unat_eq_iff)
  show ?case
  proof (cases "a = of_nat (0x90000 + k)")
    case True
    then show ?thesis using Suc.IH[of "of_nat (0x7C00 + k)"] Suc.prems eq s by (simp del: of_nat_add)
  next
    case False
    then show ?thesis using Suc.IH[of a] Suc.prems eq by (auto simp del: of_nat_add)
  qed
qed auto

lemma moved_boot_sector:
  assumes "i < 512"
  shows "move_boot_sector m (of_nat (0x90000 + i)) = m (of_nat (0x7C00 + i))"
proof -
  have "unat (of_nat (0x90000 + i) :: DWord) = 0x90000 + i" using assms by (intro unat_of_nat_DWord) simp
  then show ?thesis using move_boot_sector_upto[of 512 m "of_nat (0x90000 + i)"] assms
    by (simp add: move_boot_sector_def del: of_nat_add)
qed

lemma unat_syssize:
  fixes k :: nat
  assumes "m (of_nat (0x90000 + 500)) = of_nat k" "m (of_nat (0x90000 + 501)) = of_nat (k div 2 ^ 8)" "k < 2 ^ 16"
  shows "unat (syssize m) = k"
proof -
  have "syssize m = of_nat k"
  proof (rule bit_word_eqI)
    fix i assume "i < LENGTH(16)"
    have d: "k div 2 ^ 8 = drop_bit 8 k" by (simp add: drop_bit_eq_div)
    have b: "m (of_nat (16 * INITSEG + 500)) = of_nat k" "m (of_nat (16 * INITSEG + 501)) = of_nat (drop_bit 8 k)"
      using assms(1,2) d by simp_all
    show "bit (syssize m) i = bit (of_nat k :: Word16) i"
      unfolding syssize_def b using \<open>i < LENGTH(16)\<close> by (cases "i < 8") (auto simp: bit_simps)
  qed
  then show ?thesis using unat_of_nat_Word16[OF assms(3)] by simp
qed

lemma bootsect_result:
  assumes bios: "bios_reads int13 disk" and boot: "\<forall>i<512. m (of_nat (0x7C00 + i)) = disk i" "disk 497 = 0"
    and size: "disk 500 = of_nat k" "disk 501 = of_nat (k div 2 ^ 8)" "k < 0x8000"
  obtains m' where "bootsect int13 m = Some m'"
    "\<And>i. i < 0x10000 * Suc (k div 4096) \<Longrightarrow> m' (of_nat (0x10000 + i)) = disk (512 + i)"
proof -
  let ?m = "move_boot_sector m" and ?k = "128 * Suc (k div 4096)"
  have at: "?m (of_nat (0x90000 + i)) = disk i" if "i < 512" for i using moved_boot_sector[OF that] boot(1) that by simp
  have sz: "unat (syssize ?m) = k" by (rule unat_syssize) (use at[of 500] at[of 501] size in simp_all)
  have "setup_sects ?m = 0" using at[of 497] boot(2) by (simp add: setup_sects_def)
  then have "read_it int13 SYSSEG ?m = rp_read int13 (loader_at 0 ?m)" by (simp add: read_it_def loader_at_def)
  moreover obtain m' where m': "rp_read int13 (loader_at 0 ?m) = Some (loader_at ?k m')" "sectors_read disk 0 ?k ?m m'"
    using rp_read_result[OF bios, of ?m 0 ?k] sz size(3) by auto
  ultimately have "bootsect int13 m = Some m'" by (simp add: bootsect_def loader_at_def)
  moreover have "m' (of_nat (0x10000 + i)) = disk (512 + i)" if i: "i < 0x10000 * Suc (k div 4096)" for i
  proof -
    have "Suc (k div 4096) \<le> 8" using size(3) by (simp add: Suc_le_eq less_mult_imp_div_less)
    then have "unat (of_nat (0x10000 + i) :: DWord) = 0x10000 + i" using i by (intro unat_of_nat_DWord) simp
    then show ?thesis using m'(2) i unfolding sectors_read_def by (simp del: of_nat_add)
  qed
  ultimately show thesis by (rule that)
qed

subsection \<open>Protected mode\<close>

text \<open>Of the four words of initialisation, an interrupt controller takes its first vector from the second, the first that
  goes to the odd port. \<^verbatim>\<open>setIdt\<close> puts the clock at vector 32 and the keyboard at 33, the lines 0 and 1 of the first controller.\<close>

definition vector_base :: "Word16 \<Rightarrow> (Word16 \<times> Byte) list \<Rightarrow> nat option" where
  "vector_base p ws = (case dropWhile (\<lambda>w. w \<noteq> (p, 0x11)) ws of [] \<Rightarrow> None
     | _ # ws \<Rightarrow> (case filter (\<lambda>w. fst w = p + 1) ws of [] \<Rightarrow> None | w # _ \<Rightarrow> Some (unat (snd w))))"

lemma clock_and_keyboard_vectors:
  "vector_base 0x20 (kill_motor @ a20_ports @ pic_ports) = Some 32" "vector_base 0xA0 (kill_motor @ a20_ports @ pic_ports) = Some 40"
  by (simp_all add: vector_base_def kill_motor_def a20_ports_def pic_ports_def)

lemma empty_8042_loop_ends:
  "0 < n \<Longrightarrow> let r = empty_8042_loop status k n in
     k \<le> r \<and> r \<le> k + (n - 1) \<and> (r = k + (n - 1) \<or> status (r - 1) AND 1 = 0 \<and> status (r - 1) AND 2 = 0)"
proof (induction status k n rule: empty_8042_loop.induct)
  case (1 status k n)
  show ?case
  proof (cases "n - 1 = 0 \<or> status k AND 1 = 0 \<and> status k AND 2 = 0")
    case True
    then show ?thesis by (subst empty_8042_loop.simps) (auto simp: Let_def)
  next
    case False
    then have e: "empty_8042_loop status k n = empty_8042_loop status (Suc k) (n - 1)" by (subst empty_8042_loop.simps) auto
    show ?thesis unfolding e using 1 False by (cases "status k AND 1 = 0") (auto simp: Let_def)
  qed
qed

text \<open>The wait ends after fewer than \<^verbatim>\<open>0xFFFFFF\<close> readings, and before that only when both buffers of the controller are empty.\<close>

lemma empty_8042_ends:
  "empty_8042 status \<le> 0xFFFFFE"
  "empty_8042 status < 0xFFFFFE \<Longrightarrow> status (empty_8042 status - 1) AND 1 = 0 \<and> status (empty_8042 status - 1) AND 2 = 0"
  using empty_8042_loop_ends[of "0xFFFFFF" status 0] by (auto simp: empty_8042_def Let_def)

text \<open>The selectors of \<^verbatim>\<open>segment.h\<close> name flat 4 GB segments of the privilege level they ask for, present, code executable and
  readable, data writable; the table is where \<^verbatim>\<open>GDT_START\<close> says.\<close>

definition flat_segment :: "bool \<Rightarrow> Word16 \<Rightarrow> bool" where
  "flat_segment code sel \<longleftrightarrow> (let d = boot_gdt ! unat (drop_bit 3 sel) in
     limit d = 0xFFFF \<and> flags2 d = 0xCF \<and> lowBase d = 0 \<and> midBase d = 0 \<and> highBase d = 0 \<and>
     bit (flags1 d) 7 \<and> bit (flags1 d) 4 \<and> (bit (flags1 d) 3 \<longleftrightarrow> code) \<and> bit (flags1 d) 1 \<and>
     drop_bit 5 (flags1 d) AND 3 = ucast (sel AND 3))"

lemma selectors_flat:
  "flat_segment True KERNEL_CS" "flat_segment False KERNEL_DS" "flat_segment True USER_CS" "flat_segment False USER_DS"
  by (simp_all add: flat_segment_def boot_gdt_def Let_def)

lemma boot_gdt_address: "GDT_START = of_nat (16 * INITSEG + 435)" by simp

subsection \<open>From the disk to the first process\<close>

lemma disk_image_bytes:
  fixes boot sys usr :: "Byte list"
  assumes "length boot = 512" "12 \<le> length sys"
  defines "img \<equiv> disk_image boot sys usr" and "k \<equiv> (length sys + length usr + 15) div 16"
  shows "length img = 512 + length sys + length usr" "img ! 497 = boot ! 497" "img ! 500 = of_nat k" "img ! 501 = of_nat (k div 2 ^ 8)"
  using assms by (simp_all add: disk_image_def Let_def three_bytes_def nth_append)

lemma bootsect_loads_image:
  assumes b: "length boot = 512" "boot ! 497 = 0" "12 \<le> length sys" and sz: "length sys + length usr + 15 < 0x80000"
    and img: "\<forall>i<length (disk_image boot sys usr). disk i = disk_image boot sys usr ! i"
    and bios: "bios_reads int13 disk" and m: "\<forall>i<512. m (of_nat (0x7C00 + i)) = disk i"
  obtains r where "bootsect int13 m = Some r"
    "\<And>r'. (\<forall>a. 0x10000 \<le> unat a \<and> unat a < 0x90000 \<longrightarrow> r' a = r a) \<Longrightarrow> loaded_image r' (disk_image boot sys usr)"
proof -
  note i = disk_image_bytes[OF b(1,3), of usr]
  define k where "k = (length sys + length usr + 15) div 16"
  have k: "k < 0x8000" "length sys + length usr \<le> 0x10000 * Suc (k div 4096)"
  proof -
    show "k < 0x8000" using sz by (simp add: k_def div_less_iff_less_mult)
    have "length sys + length usr \<le> 16 * k" by (simp add: k_def)
    also have "\<dots> \<le> 16 * (4096 * Suc (k div 4096))" using dividend_less_times_div[of 4096 k] by simp
    finally show "length sys + length usr \<le> 0x10000 * Suc (k div 4096)" by simp
  qed
  have d: "disk 497 = 0" "disk 500 = of_nat k" "disk 501 = of_nat (k div 2 ^ 8)" using img i b(2) by (simp_all add: k_def)
  obtain r where r: "bootsect int13 m = Some r" "\<And>i. i < 0x10000 * Suc (k div 4096) \<Longrightarrow> r (of_nat (0x10000 + i)) = disk (512 + i)"
    by (rule bootsect_result[OF bios m d k(1)]) (rule that)
  show thesis
  proof (rule that[OF r(1)], unfold loaded_image_def, intro allI impI)
    fix r' :: ram and j assume a: "\<forall>a. 0x10000 \<le> unat a \<and> unat a < 0x90000 \<longrightarrow> r' a = r a" and j: "512 + j < length (disk_image boot sys usr)"
    have "j < length sys + length usr" using j i(1) by simp
    moreover from this have "unat (of_nat (0x10000 + j) :: DWord) = 0x10000 + j" using sz by (intro unat_of_nat_DWord) simp
    ultimately have "r' (of_nat (0x10000 + j)) = r (of_nat (0x10000 + j))" using a sz by (simp del: of_nat_add)
    also have "\<dots> = disk (512 + j)" using r(2)[of j] k(2) \<open>j < length sys + length usr\<close> by simp
    finally show "r' (of_nat (0x10000 + j)) = disk_image boot sys usr ! (512 + j)" using img j by simp
  qed
qed

text \<open>A disk service that does what \<open>bios_reads\<close> asks for.\<close>

definition floppy :: "(nat \<Rightarrow> Byte) \<Rightarrow> bios_disk" where
  "floppy disk ax cx dx es bx m a =
     (let n = unat ax mod 256; c = unat cx mod 256 - 1; t = unat cx div 256; h = unat dx div 256; b = 16 * unat es + unat bx in
      if b \<le> unat a \<and> unat a < b + 512 * n then disk (512 * ((2 * t + h) * 18 + c) + (unat a - b)) else m a)"

lemma bios_reads_floppy: "bios_reads (floppy disk) disk"
  unfolding bios_reads_def
proof (intro allI impI)
  fix n c t h :: nat and es bx :: Word16 and m :: ram and a :: DWord
  assume "0 < n \<and> c + n \<le> 18 \<and> t < 80 \<and> h < 2 \<and> 16 * unat es + 2 ^ 16 \<le> 2 ^ 20 \<and> unat bx + 512 * n \<le> 2 ^ 16 \<and> 0x600 \<le> unat a"
  then have p: "0 < n" "c + n \<le> 18" "t < 80" "h < 2" by simp_all
  have "unat (of_nat (0x200 + n) :: Word16) = 0x200 + n" "unat (of_nat (256 * t + (c + 1)) :: Word16) = 256 * t + (c + 1)"
    "unat (of_nat (256 * h) :: Word16) = 256 * h" by (rule unat_of_nat_Word16, use p in simp)+
  moreover have "(0x200 + n) mod 256 = n" "(256 * t + (c + 1)) mod 256 - 1 = c" "(256 * t + (c + 1)) div 256 = t" "256 * h div 256 = h"
    using p by (simp_all add: mod_add_eq[symmetric, of 512] mod_mult_self4 div_add1_eq)
  ultimately show "floppy disk (of_nat (0x200 + n)) (of_nat (256 * t + (c + 1))) (of_nat (256 * h)) es bx m a =
       (let b = 16 * unat es + unat bx in
        if b \<le> unat a \<and> unat a < b + 512 * n then disk (512 * ((2 * t + h) * 18 + c) + (unat a - b)) else m a)"
    unfolding floppy_def Let_def by (simp only:)
qed

text \<open>C3: From the files to the first process. Given a boot sector with a Minix header, the boot flag and no setup sectors, a
  kernel and a user program that together stay below 512 kB, the user program fitting into the user area, and an output that is
  an empty file, the build tool succeeds. From a disk that begins with its image the boot sector, which the BIOS has put at \<^verbatim>\<open>0x7C00\<close>,
  loads the kernel without looping, and a machine whose memory between \<^verbatim>\<open>0x10000\<close> and \<^verbatim>\<open>0x90000\<close> is what the boot sector has left boots into
  process 1 with the bytes of the user file at the start of the user area; only the word above the initial stack pointer
  is written over.\<close>

theorem disk_image_boots:
  assumes f: "host_files h b = Some fb" "boot_file fb boot" "host_files h s = Some fs" "plain_file fs sys"
      "host_files h u = Some fu" "plain_file fu usr"
    and o: "host_out h = []" "out_pos h = 0" "512 + length sys + length usr \<le> out_limit h" "out_seekable h"
    and sz: "boot ! 497 = 0" "12 \<le> length sys" "length sys + length usr + 15 < 0x80000" "length usr \<le> 28 * 4096"
  shows "\<exists>h'. build_main [c, b, s, u] h = Inr h' \<and>
    (\<forall>int13 disk m. bios_reads int13 disk \<and> (\<forall>i<length (host_out h'). disk i = host_out h' ! i) \<and>
       (\<forall>i<512. m (of_nat (0x7C00 + i)) = disk i) \<longrightarrow>
     (\<exists>r. bootsect int13 m = Some r \<and>
       (\<forall>M l. layout_ok (mm (kern M)) \<and> length (keys (cbuff (kern M))) = 32 \<and> cursor_ok (io (kern M)) \<and> next_pid (kern M) = 2 \<and>
          (\<forall>a. 0x10000 \<le> unat a \<and> unat a < 0x90000 \<longrightarrow> ram (mm (kern M)) a = r a) \<longrightarrow>
        boots_into M l usr)))"
proof -
  have lb: "length boot = 512" using f(2) by (simp add: boot_file_def)
  have lt: "length sys + length usr < 2 ^ 31" "0x10000 + length sys + length usr \<le> 0x100000" using sz by simp_all
  obtain h' where h': "build_main [c, b, s, u] h = Inr h'" "host_out h' = disk_image boot sys usr"
    using build_result[OF f o sz(2) lt(1), of c] by blast
  have "\<exists>r. bootsect int13 m = Some r \<and>
       (\<forall>M l. layout_ok (mm (kern M)) \<and> length (keys (cbuff (kern M))) = 32 \<and> cursor_ok (io (kern M)) \<and> next_pid (kern M) = 2 \<and>
          (\<forall>a. 0x10000 \<le> unat a \<and> unat a < 0x90000 \<longrightarrow> ram (mm (kern M)) a = r a) \<longrightarrow> boots_into M l usr)"
    if d: "bios_reads int13 disk" "\<forall>i<length (host_out h'). disk i = host_out h' ! i" "\<forall>i<512. m (of_nat (0x7C00 + i)) = disk i" for int13 disk m
  proof -
    obtain r where r: "bootsect int13 m = Some r"
      "\<And>r'. (\<forall>a. 0x10000 \<le> unat a \<and> unat a < 0x90000 \<longrightarrow> r' a = r a) \<Longrightarrow> loaded_image r' (disk_image boot sys usr)"
      by (rule bootsect_loads_image[OF lb sz(1,2,3) d(2)[unfolded h'(2)] d(1,3)]) (rule that)
    then show ?thesis using loaded_image_boots[OF lb sz(2) lt(2) sz(4)] by blast
  qed
  then show ?thesis using h'(1) by blast
qed

theorem disk_image_boots_witness:
  "\<exists>h h' disk r M. build_main [''build'', ''b'', ''s'', ''u''] h = Inr h' \<and> bios_reads (floppy disk) disk \<and>
     bootsect (floppy disk) (\<lambda>a. disk (unat a - 0x7C00)) = Some r \<and> ram (mm (kern M)) = r \<and> boots_into M blank_linkage [12, 34, 56]"
proof -
  define boot sys usr :: "Byte list" where bytes: "boot = replicate 510 0 @ [0x55, 0xaa]" "sys = replicate 12 7" "usr = [12, 34, 56]"
  let ?f = "\<lambda>bs. \<lparr>st_size = Some (length bs), content = Some bs\<rparr>" and ?hd = "minix_hdr @ replicate 24 0"
  let ?h = "\<lparr>host_files = [''b'' \<mapsto> ?f (?hd @ boot), ''s'' \<mapsto> ?f sys, ''u'' \<mapsto> ?f usr], host_out = [], out_pos = 0,
    out_limit = 10000, out_seekable = True, host_err = []\<rparr>"
  have "\<not> lb_set ?hd i" if "2 \<le> i" "i < 8" for i
    using that by (auto simp: lb_set_def minix_hdr_def nth_append nth_Cons')
  then have b: "boot_file (?f (?hd @ boot)) boot"
    unfolding boot_file_def bytes by (intro conjI exI[of _ ?hd]) (simp_all add: minix_hdr_def nth_append)
  have f: "host_files ?h ''b'' = Some (?f (?hd @ boot))" "host_files ?h ''s'' = Some (?f sys)" "host_files ?h ''u'' = Some (?f usr)" by simp_all
  have p: "plain_file (?f bs) bs" for bs by (simp add: plain_file_def)
  have o: "host_out ?h = []" "out_pos ?h = 0" "512 + length sys + length usr \<le> out_limit ?h" "out_seekable ?h" by (simp_all add: bytes)
  have z: "boot ! 497 = 0" "12 \<le> length sys" "length sys + length usr + 15 < 0x80000" "length usr \<le> 28 * 4096"
    by (simp_all add: bytes nth_append)
  from disk_image_boots[OF f(1) b f(2) p f(3) p o z, of "''build''"]
  obtain h' where h': "build_main [''build'', ''b'', ''s'', ''u''] ?h = Inr h'"
    and boots: "\<And>int13 disk m. bios_reads int13 disk \<and> (\<forall>i<length (host_out h'). disk i = host_out h' ! i) \<and>
       (\<forall>i<512. m (of_nat (0x7C00 + i)) = disk i) \<Longrightarrow>
     (\<exists>r. bootsect int13 m = Some r \<and>
       (\<forall>M l. layout_ok (mm (kern M)) \<and> length (keys (cbuff (kern M))) = 32 \<and> cursor_ok (io (kern M)) \<and> next_pid (kern M) = 2 \<and>
          (\<forall>a. 0x10000 \<le> unat a \<and> unat a < 0x90000 \<longrightarrow> ram (mm (kern M)) a = r a) \<longrightarrow> boots_into M l usr))" by blast
  define disk where "disk = (\<lambda>i. host_out h' ! i)"
  let ?m = "\<lambda>a :: DWord. disk (unat a - 0x7C00)"
  have "?m (of_nat (0x7C00 + i)) = disk i" if "i < 512" for i
  proof -
    have "unat (of_nat (0x7C00 + i) :: DWord) = 0x7C00 + i" by (rule unat_of_nat_DWord) (use that in simp)
    then show ?thesis by (simp only: diff_add_inverse)
  qed
  with boots[of "floppy disk" disk ?m] bios_reads_floppy obtain r where r: "bootsect (floppy disk) ?m = Some r"
    and M: "\<And>M l. layout_ok (mm (kern M)) \<and> length (keys (cbuff (kern M))) = 32 \<and> cursor_ok (io (kern M)) \<and> next_pid (kern M) = 2 \<and>
          (\<forall>a. 0x10000 \<le> unat a \<and> unat a < 0x90000 \<longrightarrow> ram (mm (kern M)) a = r a) \<Longrightarrow> boots_into M l usr"
    unfolding disk_def by blast
  let ?M = "blank_machine\<lparr>kern := (kern blank_machine)\<lparr>mm := (mm (kern blank_machine))\<lparr>ram := r\<rparr>\<rparr>\<rparr>"
  have "boots_into ?M blank_linkage usr" by (rule M) (use power_on_blank in \<open>simp add: power_on_def layout_ok_def\<close>)
  then show ?thesis
    by (intro exI[of _ ?h] exI[of _ h'] exI[of _ disk] exI[of _ r] exI[of _ ?M]) (use h' r bios_reads_floppy in \<open>simp add: bytes\<close>)
qed

end
