(* ===== verification/Spec2Isabelle.thy ===== *)
theory Spec2Isabelle
  imports Zeos_User Zeos_Boot
begin

text \<open>
  \<^bold>\<open>ZeOS\<close> is a small operating system for the i386: a kernel with processes, paging, a keyboard, a text console
  and shared memory, a user program (a maze game in two processes), and a tool that puts both on a disk image.
  This development models it from the sources under \<^verbatim>\<open>src/zeos\<close> and proves that it does what it is meant to do, or
  what it does instead.

  \<^bold>\<open>Parts and how they interact.\<close> The boot sector (\<^verbatim>\<open>bootsect.S\<close>) loads the image that \<^verbatim>\<open>build.c\<close> has made at \<^verbatim>\<open>0x10000\<close>. \<^verbatim>\<open>main\<close> of \<^verbatim>\<open>system.c\<close> sets up the
  descriptor tables, memory and the scheduler, moves the user program to \<^verbatim>\<open>0x100000\<close> and leaves to user mode in
  process 1. From then on the kernel is entered by the clock and the keyboard (\<^verbatim>\<open>interrupt.c\<close>) and by \<^verbatim>\<open>sysenter\<close>
  (\<^verbatim>\<open>entry.S\<close>, \<^verbatim>\<open>sys_call_table.S\<close>, \<^verbatim>\<open>sys.c\<close>). The clock drives the round robin of \<^verbatim>\<open>sched.c\<close>; the queues and the family
  tree are intrusive lists (\<^verbatim>\<open>list.c\<close>) through the process control blocks. The keyboard fills a ring buffer (\<^verbatim>\<open>circular.c\<close>)
  that \<^verbatim>\<open>read\<close> empties; \<^verbatim>\<open>write\<close> prints on the console (\<^verbatim>\<open>io.c\<close>); \<^verbatim>\<open>fork\<close>, \<^verbatim>\<open>exit\<close> and the shared pages change the page tables
  (\<^verbatim>\<open>mm.c\<close>). Bytes move between kernel and user through \<^verbatim>\<open>utils.c\<close>. The user program calls the wrappers of
  \<^verbatim>\<open>user_misc.S\<close> and the library \<^verbatim>\<open>libc.c\<close>; its input process copies keys into a shared byte that the game
  process (\<^verbatim>\<open>user.c\<close>, \<^verbatim>\<open>pacman.c\<close>) polls.

  \<^bold>\<open>Theories.\<close> A record stands for a struct, a datatype for an enum, one function for every C function, under the
  name it has in the source where that is free.
  \<^item> \<^verbatim>\<open>Zeos_Prelude\<close>: integer types, constants of the headers, shared lemmas. \<^verbatim>\<open>Zeos_Types\<close>: descriptors, gates and page
    table entries of \<^verbatim>\<open>include/types.h\<close>.
  \<^item> \<^verbatim>\<open>Zeos_Circular\<close> (\<^verbatim>\<open>circular.c\<close>): the ring buffer; the locale \<open>bounded_queue\<close> is its contract and the C routines are its
    instance. \<^verbatim>\<open>Zeos_List\<close> (\<^verbatim>\<open>list.c\<close>, \<^verbatim>\<open>include/list.h\<close>): list heads in a heap with explicit pointers; the locale \<open>list_family\<close> is
    what the scheduler and the system calls rely on.
  \<^item> \<^verbatim>\<open>Zeos_Utils\<close> (\<^verbatim>\<open>utils.c\<close>): block copies, pointer checks, 64-bit division. \<^verbatim>\<open>Zeos_Io\<close> (\<^verbatim>\<open>io.c\<close>, \<^verbatim>\<open>devices.c\<close>): the console.
    \<^verbatim>\<open>Zeos_Libc\<close> (\<^verbatim>\<open>libc.c\<close>): numbers, strings, random numbers (the locale \<open>lcg\<close>), time.
  \<^item> \<^verbatim>\<open>Zeos_Mm\<close> (\<^verbatim>\<open>mm.c\<close>): frames, page tables, shared pages and the address translation of the CPU. \<^verbatim>\<open>Zeos_Space\<close>: the
    invariant of the address spaces, who owns which frame.
  \<^item> \<^verbatim>\<open>Zeos_Sched\<close> (\<^verbatim>\<open>sched.c\<close>, \<^verbatim>\<open>kernel_misc.S\<close>): the kernel state \<open>kstate\<close>, the context switch down to the stack slots, the
    scheduler and its invariant \<open>sched_inv\<close>. \<^verbatim>\<open>Zeos_Interrupt\<close> (\<^verbatim>\<open>interrupt.c\<close>): the descriptor table, clock and keyboard.
    \<^verbatim>\<open>Zeos_Fault\<close>: the page fault routine.
  \<^item> \<^verbatim>\<open>Zeos_Sys\<close> (\<^verbatim>\<open>sys.c\<close>): every system call. \<^verbatim>\<open>Zeos_Fork\<close>, \<^verbatim>\<open>Zeos_Exit\<close>, \<^verbatim>\<open>Zeos_Shared\<close>, \<^verbatim>\<open>Zeos_Transfer\<close>: what they do to memory and
    to the process tree. \<^verbatim>\<open>Zeos_Kernel\<close>: the invariant \<open>kernel_inv\<close> of the whole kernel, kept by all of them.
  \<^item> \<^verbatim>\<open>Zeos_System\<close> (\<^verbatim>\<open>system.c\<close>, \<^verbatim>\<open>hardware.c\<close>): start-up. \<^verbatim>\<open>Zeos_Entry\<close> (\<^verbatim>\<open>entry.S\<close>, \<^verbatim>\<open>sys_call_table.S\<close>): events and their dispatch, and an
    abstract machine of processes; \<^verbatim>\<open>Zeos_Runs\<close>: the kernel refines it.
  \<^item> \<^verbatim>\<open>Zeos_Pacman\<close>, \<^verbatim>\<open>Zeos_Search\<close> (\<^verbatim>\<open>pacman.c\<close>): the rules of the game and its path searches; \<^verbatim>\<open>Zeos_Game\<close>: the game process
    of \<^verbatim>\<open>user.c\<close> as a state machine; \<^verbatim>\<open>Zeos_User\<close>: the wrappers of \<^verbatim>\<open>user_misc.S\<close>, \<^verbatim>\<open>main\<close> and the input process on top of the
    kernel, with the memory accesses of user mode, and what a process gets from the kernel: a separate address space, and answers to its
    calls.
  \<^item> \<^verbatim>\<open>Zeos_Build\<close> (\<^verbatim>\<open>build.c\<close>): the tool that makes the image. \<^verbatim>\<open>Zeos_Boot\<close> (\<^verbatim>\<open>bootsect.S\<close>): the loader that reads it from the disk.
  \<^item> This theory holds the properties that rest on the invariant of the whole kernel.

  \<^bold>\<open>State and errors.\<close> Kernel routines take the kernel state and return the new one. \<^term>\<open>None\<close> is a page fault in
  kernel mode, an access outside of an array, or a loop that does not end; error results are the values of the code. A
  C \<^verbatim>\<open>unsigned\<close> is a word of its width, a C \<^verbatim>\<open>int\<close> an integer wrapped to 32 bits where it can leave them. Memory is one
  map from physical addresses to bytes, reached through the page table in force; the kernel's own variables are
  typed components of the state. Kernel stacks hold the saved contexts as words.

  \<^bold>\<open>What the theorems show.\<close>
  \<^item> Whole runs: the image the tool builds, read by the boot sector, boots into process 1 with the bytes of the user file in place; from power
    on, every sequence of clock ticks, keys and system calls within the stated conditions is handled without a
    fault, keeps the invariant and acts on the processes as the abstract machine says, and leaves every byte that one process can write in user mode out
    of the reach of the others, those of the shared pages apart; a key pressed arrives in the game.
  \<^item> Processes: round robin as a refinement of an abstract scheduler, and that every ready process runs within a
    bound; \<^verbatim>\<open>fork\<close> gives a child with a private copy of memory that returns 0; \<^verbatim>\<open>exit\<close> frees what the process had;
    \<^verbatim>\<open>block\<close> and \<^verbatim>\<open>unblock\<close> with pending unblocks; what \<^verbatim>\<open>numsons\<close> and \<^verbatim>\<open>numbros\<close> return.
  \<^item> Components: the buffer is a bounded queue for every interleaving, list operations insert and delete what they
    should, block copies are exact, the check of user pointers lets through the pages it lets through and no other, the cursor stays on the screen, frames are allocated first fit, numbers print
    and read back, strings end, the generator is a bijection, \<^verbatim>\<open>sleep\<close> returns.
  \<^item> The game: walls, positions and timers stay right for every input, and no cell outside of the board is read; names are entered as typed; a breadth first
    search ends and finds a shortest walk.
  \<^item> Faults and flaws, proved as such: a parent that exits after its child, a process that blocks alone after its
    quantum, writes to code pages, the message of a page fault that is written behind a literal, system call numbers outside the table, frame 256, searches that miss their target.

  \<^bold>\<open>Bounds and fuel.\<close> Nothing is bounded by fuel. Loops over arrays are folds or functions with a termination proof;
  loops that may not end (the disk loader, string loops, list walks, polling loops, redrawing a direction, searches, finding a son)
  are partial functions, and the theorems about them say that they return, or exactly when.

  \<^bold>\<open>Assumptions.\<close> Addresses the linker chooses, stack depths, contents of uninitialised memory, clock readings, what a call through the word behind the
  system call table does (\<open>behind_table\<close>), where the message of a page fault and its local array lie (\<open>mesg\<close>, \<open>buff\<close>), what clearing the byte behind the array of
  \<^verbatim>\<open>input_processing\<close> does to its locals (\<open>overrun\<close>) and the
  routine \<^verbatim>\<open>set_handlers\<close> of a binary library are parameters. So is the disk service of the BIOS; \<open>bios_reads\<close> is its documented
  behaviour on one track within one segment. \<open>power_on\<close> states what the boot sector leaves;
  \<open>admissible\<close> and \<open>call_ok\<close> state what a run may ask of the kernel: user buffers in the user area, no exit of a parent
  whose former child's block still names it, process numbers below \<^verbatim>\<open>INT_MAX\<close>, and the like. A kernel stack and the process control block share a page, the block in the lowest 16 words; the model
  keeps them apart and so takes for granted that no kernel stack grows down that far.

  \<^bold>\<open>Not modelled.\<close> the messages of \<^verbatim>\<open>bootsect.S\<close>, its test of the A20 line and its jump to protected mode; the saving of registers in \<^verbatim>\<open>entry.S\<close> beyond the words it
  leaves on the stack, and \<^verbatim>\<open>sus_call_handler\<close>, which nothing installs; \<^verbatim>\<open>libzeos.a\<close> and \<^verbatim>\<open>libauxjp.a\<close>, which have no
  sources; the branch of \<^verbatim>\<open>fork\<close> that \<^verbatim>\<open>USE_COW\<close> switches off; the routines of \<^verbatim>\<open>hardware.c\<close> that no code calls
  (\<^verbatim>\<open>get_eflags\<close>, \<^verbatim>\<open>set_ldt_reg\<close>, \<^verbatim>\<open>delay\<close>); the translation buffer of the CPU and hardware timing; make files and link scripts.
\<close>

section \<open>Scheduling\<close>

text \<open>C6: The clock interrupt implements round robin: it never faults, keeps the scheduler invariant
  (queues, family lists, saved contexts, TSS, page directory register), and the running process,
  the ready queue and the tick count change as in the abstract scheduler: a process keeps the CPU
  until its quantum is exceeded and another is ready, then goes to the tail; idle yields at once.\<close>

theorem clock_tick_round_robin:
  assumes "sched_inv k fq rq bq kids i" "slot_ok e"
  shows "\<exists>k' rq'. clock_tick e k = Some k' \<and> sched_inv k' fq rq' bq kids i \<and>
    (current k', rq', ticks_since_last_switch k') =
      rr_tick i (\<lambda>t. quantum (task k t)) (current k, rq, ticks_since_last_switch k) \<and>
    zeos_ticks k' = wrap32 (zeos_ticks k + 1)"
  using clock_tick_refines[OF assms] unfolding quanta_def[abs_def] by blast

theorem clock_tick_round_robin_witness:
  "\<exists>k k'. current k = 8 \<and> clock_tick (1000, \<lambda>_. KWord 0) k = Some k' \<and> current k' = 8 \<and>
     ticks_since_last_switch k' = 1"
proof -
  obtain k F where k: "kernel_inv k [6, 5, 4, 3, 2, 1, 0] [7] [] [9 \<mapsto> [], 8 \<mapsto> [7], 7 \<mapsto> []] 9 F"
      "current k = 8" "quantum (task k 8) = 1" "ticks_since_last_switch k = 0"
    using forked by blast
  have e: "slot_ok (1000, \<lambda>_. KWord 0)" by (simp add: slot_ok_def)
  from clock_tick_round_robin[OF kernel_invD(1)[OF k(1)] e] k(2-4) show ?thesis by auto
qed

text \<open>C7: Every ready process runs: with quanta of at most \<open>Q\<close>, the process at position \<open>j\<close> of the
  ready queue has been given the CPU after at most \<open>(j + 1) * (Q + 2)\<close> clock interrupts, however
  deep the interrupt handlers stack and whatever the tick counter holds.\<close>

theorem ready_process_eventually_runs:
  assumes "sched_inv k fq rq bq kids i" "\<forall>e\<in>set es. slot_ok e" "j < length rq"
    and "\<forall>t\<in>set (current k # rq). unat (quantum (task k t)) \<le> Q" "Q + 2 < 2 ^ 32"
    and "Suc j * (Q + 2) \<le> length es"
  shows "\<exists>n \<le> Suc j * (Q + 2). \<exists>k' rq'. clock_run (take n es) k = Some k' \<and>
    sched_inv k' fq rq' bq kids i \<and> current k' = rq ! j"
proof -
  have q: "\<forall>x\<in>set (current k # rq). unat (quanta k x) \<le> Q" using assms(4) by (simp add: quanta_def)
  obtain n where n: "n \<le> Suc j * (Q + 2)"
      "fst ((rr_tick i (quanta k) ^^ n) (current k, rq, ticks_since_last_switch k)) = rq ! j"
    using rr_fair[OF assms(3) q assms(5)] by blast
  have s: "\<forall>e\<in>set (take n es). slot_ok e" using assms(2) by (meson in_set_takeD)
  obtain k' rq' where k': "clock_run (take n es) k = Some k'" "sched_inv k' fq rq' bq kids i"
      "(current k', rq', ticks_since_last_switch k') =
        (rr_tick i (quanta k) ^^ length (take n es)) (current k, rq, ticks_since_last_switch k)"
    using clock_run_refines[OF assms(1) s] by blast
  have "length (take n es) = n" using n(1) assms(6) by simp
  then have "current k' = rq ! j" using k'(3) n(2) by (metis fst_conv)
  then show ?thesis using n(1) k'(1,2) by blast
qed

theorem ready_process_eventually_runs_witness:
  "\<exists>k n k'. current k = 8 \<and> n \<le> 3 \<and> clock_run (replicate n (1000, \<lambda>_. KWord 0)) k = Some k' \<and> current k' = 7"
proof -
  obtain k F where k: "kernel_inv k [6, 5, 4, 3, 2, 1, 0] [7] [] [9 \<mapsto> [], 8 \<mapsto> [7], 7 \<mapsto> []] 9 F"
      "current k = 8" "quantum (task k 8) = 1" "quantum (task k 7) = 1"
    using forked by blast
  let ?es = "replicate 3 (1000, \<lambda>_. KWord 0) :: (nat \<times> (nat \<Rightarrow> kword)) list"
  have e: "\<forall>e\<in>set ?es. slot_ok e" "0 < length [7::nat]" "(1::nat) + 2 < 2 ^ 32"
      "Suc 0 * (1 + 2) \<le> length ?es"
    "\<forall>t\<in>set (current k # [7]). unat (quantum (task k t)) \<le> 1"
    using k by (simp_all add: slot_ok_def)
  obtain n k' where n: "n \<le> 3" "clock_run (take n ?es) k = Some k'" "current k' = 7"
    using ready_process_eventually_runs[OF kernel_invD(1)[OF k(1)] e(1,2,5,3,4)] by (auto simp: numeral_3_eq_3)
  have "take n ?es = replicate n (1000, \<lambda>_. KWord 0)" using n(1) by (simp add: take_replicate)
  then show ?thesis using n k(2) by metis
qed

section \<open>Processes\<close>

text \<open>C4: \<^verbatim>\<open>fork\<close> with a free PCB and 20 free logical pages returns the next PID and makes a child that
  is ready at the tail of the queue, is the youngest son of the caller, and sees in its whole user
  area (data, stack, code) what the caller sees; the memory of every other process and every
  other PCB is unchanged, and the kernel invariant (so in particular frame ownership) holds
  again.\<close>

theorem fork_creates_copy:
  assumes "kernel_inv k (c # fq) rq bq kids i F" "current k \<noteq> i" "next_pid k < 2 ^ 31 - 1"
    and "20 \<le> card (free_pages (mm k) (current k))"
  shows "\<exists>k' ks F'. kids (current k) = Some ks \<and> sys_fork k = Some (next_pid k, k') \<and>
    kernel_inv k' fq (rq @ [c]) bq (kids(c \<mapsto> [], current k \<mapsto> ks @ [c])) i F' \<and> current k' = current k \<and>
    PID (task k' c) = next_pid k \<and> parent (task k' c) = Some (current k) \<and>
    (\<forall>t. t \<noteq> c \<longrightarrow> task k' t = task k t \<and> stack k' t = stack k t) \<and>
    (\<forall>j < 28 * 4096. ram (mm k') (user_byte F' c j) = ram (mm k) (user_byte F (current k) j)) \<and>
    (\<forall>t \<in> users k rq bq i. \<forall>j < 28 * 4096. ram (mm k') (user_byte F' t j) = ram (mm k) (user_byte F t j))"
proof -
  obtain k' ks F' where k': "kids (current k) = Some ks" "sys_fork k = Some (next_pid k, k')"
      "kernel_inv k' fq (rq @ [c]) bq (kids(c \<mapsto> [], current k \<mapsto> ks @ [c])) i F'" "current k' = current k"
      "task k' = (task k)(c := child_pcb k c)" "stack k' = (stack k)(c := child_stack k)"
      "data_copied (current k) c F' (ram (mm k)) (ram (mm k'))" "\<forall>r. r \<notin> range (OData c) \<longrightarrow> F' r = F r"
    using fork_kernel[OF assms] by blast
  have cu: "c \<notin> users k rq bq i" "current k \<in> users k rq bq i"
    using users_facts(2,3)[OF assms(1)] assms(2) by auto
  have "c \<noteq> i" using sched_invD(2)[OF kernel_invD(1)[OF assms(1)]] by auto
  then have "users k' (rq @ [c]) bq i = insert c (users k rq bq i)" using k'(4) by (auto simp: users_def)
  then have fr: "frames_ok (mm k') (owners (insert c (users k rq bq i))) F'"
    using kernel_invD(3)[OF k'(3)] by (simp add: space_inv_def)
  note b = fork_user_bytes[OF k'(7) fr k'(8) cu(2,1)]
  show ?thesis using k'(1-6) b by (intro exI[of _ k'] exI[of _ ks] exI[of _ F']) (simp add: child_pcb_def)
qed

theorem fork_creates_copy_witness:
  "\<exists>k k'. current k = 8 \<and> sys_fork k = Some (2, k') \<and> PID (task k' 7) = 2 \<and> parent (task k' 7) = Some 8"
proof -
  obtain k F where k: "kernel_inv k (7 # [6, 5, 4, 3, 2, 1, 0]) [] [] [9 \<mapsto> [], 8 \<mapsto> []] 9 F" "current k = 8"
      "next_pid k = 2" "card (free_pages (mm k) 8) = 740" using booted by blast
  have c: "current k \<noteq> 9" "next_pid k < 2 ^ 31 - 1" "20 \<le> card (free_pages (mm k) (current k))"
    using k by simp_all
  show ?thesis using fork_creates_copy[OF k(1) c] k(2,3) by auto
qed

text \<open>C13: The child of a \<^verbatim>\<open>fork\<close> returns 0: whenever the scheduler later switches to it for the first
  time, it resumes with \<^verbatim>\<open>%eax\<close> = 0 at the return address that the parent's \<^verbatim>\<open>sys_fork\<close> had
  (slot 1007, below the saved registers), on a stack that holds the parent's saved registers
  and hardware context.\<close>

theorem fork_child_returns_zero:
  assumes "kernel_inv k (c # fq) rq bq kids i F" "current k \<noteq> i" "next_pid k < 2 ^ 31 - 1"
    and "20 \<le> card (free_pages (mm k) (current k))"
  shows "\<exists>k1. sys_fork k = Some (next_pid k, k1) \<and>
    (\<forall>k2. task k2 c = task k1 c \<and> stack k2 c = stack k1 c \<and> current k2 \<noteq> c \<and> 7 \<le> snd (esp k2) \<longrightarrow>
      (\<exists>k3. task_switch (Some c) k2 = Some k3 \<and> eax k3 = KWord 0 \<and> eip k3 = stack k (current k) 1007 \<and>
        esp k3 = (c, 1008) \<and> (\<forall>s \<ge> 1007. stack k3 c s = stack k (current k) s)))"
proof -
  obtain k1 where k1: "sys_fork k = Some (next_pid k, k1)" "task k1 = (task k)(c := child_pcb k c)"
      "stack k1 = (stack k)(c := child_stack k)"
    using fork_kernel[OF assms] by blast
  have "\<exists>k3. task_switch (Some c) k2 = Some k3 \<and> eax k3 = KWord 0 \<and> eip k3 = stack k (current k) 1007 \<and>
      esp k3 = (c, 1008) \<and> (\<forall>s \<ge> 1007. stack k3 c s = stack k (current k) s)"
    if h: "task k2 c = task k1 c" "stack k2 c = stack k1 c" "current k2 \<noteq> c" "7 \<le> snd (esp k2)" for k2
  proof -
    have s: "kernel_esp0 (task k2 c) = KPtr c 1005" "stack k2 c 1006 = K_ret_from_fork" "stack k2 c 1005 = KWord 0"
      using h(1,2) k1(2,3) by (simp_all add: child_pcb_def child_stack_def)
    show ?thesis using resume_forked_child[OF h(4) h(3)[symmetric] s] h(2) k1(3) by (auto simp: child_stack_def)
  qed
  then show ?thesis using k1(1) by blast
qed

theorem fork_child_returns_zero_witness:
  "\<exists>k k1. sys_fork k = Some (2, k1) \<and> (\<exists>k3. task_switch (Some 7) k1 = Some k3 \<and> eax k3 = KWord 0 \<and> esp k3 = (7, 1008))"
proof -
  obtain k F where k: "kernel_inv k (7 # [6, 5, 4, 3, 2, 1, 0]) [] [] [9 \<mapsto> [], 8 \<mapsto> []] 9 F" "current k = 8"
      "next_pid k = 2" "card (free_pages (mm k) 8) = 740" "esp k = (8, 1024)" using booted by blast
  have c: "current k \<noteq> 9" "next_pid k < 2 ^ 31 - 1" "20 \<le> card (free_pages (mm k) (current k))"
    using k by simp_all
  obtain k1 where k1: "sys_fork k = Some (2, k1)" "current k1 = 8" "esp k1 = (8, 1024)"
    using fork_kernel[OF k(1) c] k(2,3,5) by auto
  then show ?thesis using fork_child_returns_zero[OF k(1) c] k(3) by (intro exI[of _ k] exI[of _ k1]) auto
qed

text \<open>C14: \<^verbatim>\<open>block\<close>: a process with pending unblocks consumes one and goes on; otherwise it enters the
  blocked queue at the tail and the CPU goes to the first ready process, or to idle when there
  is none, provided its quantum has not been exceeded or another process is ready.\<close>

theorem block_semantics:
  assumes "kernel_inv k fq rq bq kids i F" "current k \<noteq> i" "7 \<le> snd (esp k)" "snd (esp k) \<le> KERNEL_STACK_SIZE"
    and "quantum (task k (current k)) < ticks_since_last_switch k \<longrightarrow> rq \<noteq> []"
  shows "\<exists>k'. sys_block k = Some (0, k') \<and>
    (if pending_unblocks (task k (current k)) = 0
     then kernel_inv k' fq (tl rq) (bq @ [current k]) kids i F \<and> current k' = (if rq = [] then i else hd rq)
     else k' = upd_task (current k) (\<lambda>p. p\<lparr>pending_unblocks := wrap32 (pending_unblocks p - 1)\<rparr>) k)"
proof (cases "pending_unblocks (task k (current k)) = 0")
  case True
  have "\<not> (expired k \<and> rq = [])" using assms(5) by (auto simp: expired_def)
  then show ?thesis using block_kernel[OF assms(1-4) True] True by auto
next
  case False
  then show ?thesis by (simp add: sys_block_def)
qed

theorem block_semantics_witness:
  "\<exists>k k'. current k = 8 \<and> sys_block k = Some (0, k') \<and> (pending_unblocks (task k 8) = 0 \<longrightarrow> current k' = 7)"
proof -
  obtain k F where k: "kernel_inv k [6, 5, 4, 3, 2, 1, 0] [7] [] [9 \<mapsto> [], 8 \<mapsto> [7], 7 \<mapsto> []] 9 F" "current k = 8"
      "esp k = (8, 1024)" using forked by blast
  have c: "current k \<noteq> 9" "7 \<le> snd (esp k)" "snd (esp k) \<le> 1024"
      "quantum (task k (current k)) < ticks_since_last_switch k \<longrightarrow> [7] \<noteq> []" using k by simp_all
  obtain k' where "sys_block k = Some (0, k')" "pending_unblocks (task k 8) = 0 \<longrightarrow> current k' = 7"
    using block_semantics[OF k(1) c] k(2) by auto
  then show ?thesis using k(2) by blast
qed

text \<open>C15: \<^verbatim>\<open>unblock\<close> of a PID that is no son of the caller returns -ECHILD and changes nothing; of a
  blocked son it moves the son from wherever it is in the blocked queue to the tail of the ready
  queue; of any other son it counts one more pending unblock, which the next \<^verbatim>\<open>block\<close> consumes.\<close>

theorem unblock_semantics:
  assumes "kernel_inv k fq rq bq kids i F" "kids (current k) = Some ks"
  shows "case List.find (\<lambda>s. PID (task k s) = pid) ks of
      None \<Rightarrow> sys_unblock pid k = Some (- ECHILD, k)
    | Some s \<Rightarrow>
        if state (task k s) = ST_BLOCKED
        then \<exists>k' xs ys. bq = xs @ s # ys \<and> sys_unblock pid k = Some (0, k') \<and>
          kernel_inv k' fq (rq @ [s]) (xs @ ys) kids i F \<and> current k' = current k
        else sys_unblock pid k =
          Some (0, upd_task s (\<lambda>p. p\<lparr>pending_unblocks := wrap32 (pending_unblocks p + 1)\<rparr>) k)"
proof (cases "List.find (\<lambda>s. PID (task k s) = pid) ks")
  case None
  then show ?thesis using sys_unblock_other(1)[OF kernel_invD(1)[OF assms(1)] assms(2)] by simp
next
  case (Some s)
  then show ?thesis
    using unblock_kernel[OF assms Some] sys_unblock_other(2)[OF kernel_invD(1)[OF assms(1)] assms(2) Some]
    by (cases "state (task k s) = ST_BLOCKED") (simp, blast, simp)
qed

theorem unblock_semantics_witness:
  "\<exists>k. sys_unblock 5 k = Some (- 10, k) \<and>
     sys_unblock 2 k = Some (0, upd_task 7 (\<lambda>p. p\<lparr>pending_unblocks := wrap32 (pending_unblocks p + 1)\<rparr>) k)"
proof -
  obtain k F where k: "kernel_inv k [6, 5, 4, 3, 2, 1, 0] [7] [] [9 \<mapsto> [], 8 \<mapsto> [7], 7 \<mapsto> []] 9 F" "current k = 8"
      "PID (task k 7) = 2" "state (task k 7) = ST_READY" using forked by blast
  have "[9 \<mapsto> [], 8 \<mapsto> [7], 7 \<mapsto> []] (current k) = Some [7]" using k(2) by simp
  from unblock_semantics[OF k(1) this, of 5] unblock_semantics[OF k(1) this, of 2] show ?thesis
    using k(3,4) by auto
qed

text \<open>C16: A process that blocks after it has exceeded its quantum, with no other process ready, is not
  switched out: the call returns to it while it is marked blocked and queued as blocked.\<close>

theorem block_expired_alone_keeps_running:
  assumes "kernel_inv k fq [] bq kids i F" "current k \<noteq> i" "pending_unblocks (task k (current k)) = 0"
    and "quantum (task k (current k)) < ticks_since_last_switch k"
  shows "\<exists>k'. sys_block k = Some (0, k') \<and> current k' = current k \<and> state (task k' (current k)) = ST_BLOCKED \<and>
    lists_rep (heap k') (family fq [] (bq @ [current k]) kids)"
  using sys_block_no_switch[OF kernel_invD(1)[OF assms(1)] assms(2,3)] assms(4) by (simp add: expired_def)

theorem block_expired_alone_keeps_running_witness:
  "\<exists>k k'. current k = 8 \<and> sys_block k = Some (0, k') \<and> current k' = 8 \<and> state (task k' 8) = ST_BLOCKED"
proof -
  obtain k F where k: "kernel_inv k [7, 6, 5, 4, 3, 2, 1, 0] [] [] [9 \<mapsto> [], 8 \<mapsto> []] 9 F" "current k = 8"
      "quantum (task k 8) = 1" "pending_unblocks (task k 8) = 0" using booted by blast
  let ?k = "k\<lparr>ticks_since_last_switch := 2\<rparr>"
  have c: "current ?k \<noteq> 9" "pending_unblocks (task ?k (current ?k)) = 0"
      "quantum (task ?k (current ?k)) < ticks_since_last_switch ?k" using k by simp_all
  show ?thesis
    using block_expired_alone_keeps_running[OF kernel_inv_ticks[OF k(1)] c] k(2) by - (rule exI[of _ ?k], auto)
qed

section \<open>Page faults\<close>

text \<open>C20: A fault on a page that is not mapped does not return: the routine prints
  \<^verbatim>\<open>PAGE FAULT generated at %eip = 0x\<close> followed by the hexadecimal numeral of the address of the faulting
  instruction (nothing for an address above 2 GB), and stops the machine. On the way it overwrites the memory behind the string literal
  with the numeral; apart from that and from its local array, memory and the rest of the state stay.\<close>

theorem unmapped_fault_halts:
  assumes "kernel_inv k fq rq bq kids i F" "p < TOTAL_PAGES" "b < 4096" "pt_entry (mm k) (current k) p = 0"
    and "fault_text_ok mesg buff (ram (mm k))"
  shows "\<exists>r. pgf_routine mesg buff (of_nat (4096 * p + b)) pc k =
      Some (Halted (k\<lparr>mm := (mm k)\<lparr>ram := r\<rparr>, io := printk (fault_message @ hexa_text pc) (io k)\<rparr>)) \<and>
    cstring r mesg (fault_message @ hexa_text pc) \<and> (\<forall>x. 43 \<le> unat (x - mesg) \<and> 9 \<le> unat (x - buff) \<longrightarrow> r x = ram (mm k) x)"
proof -
  have d: "dirs_ok (mm k)" using kernel_invD(3)[OF assms(1)] by (simp add: space_inv_def tables_ok_def)
  note S = sched_invD[OF kernel_invD(1)[OF assms(1)]]
  have pt: "get_PT k (current k) = Some (row_addr (mm k) (current k))"
    using get_PT_row[OF d S(6)] S(8) by (simp add: get_PT_def)
  have "\<not> is_cow_page (mm k) (row_addr (mm k) (current k)) p"
    using pt_get_row[OF S(6), of "mm k" p] assms(4) by (simp add: is_cow_page_def)
  then have "pgf_routine mesg buff (of_nat (4096 * p + b)) pc k = pgf_error mesg buff pc k"
    unfolding pgf_routine_def Let_def fault_page[OF assms(2,3)] using pt by simp
  then show ?thesis using pgf_error_result[OF assms(5), of pc] by simp
qed

theorem unmapped_fault_halts_witness:
  "\<exists>k r. cstring (ram (mm k)) 0x20000 fault_message \<and>
     pgf_routine 0x20000 0x30000 0 0x1A4 k = Some (Halted (k\<lparr>mm := (mm k)\<lparr>ram := r\<rparr>, io := printk (fault_message @ [49, 65, 52]) (io k)\<rparr>)) \<and>
     cstring r 0x20000 (fault_message @ [49, 65, 52])"
proof -
  obtain k F where k: "kernel_inv k [7, 6, 5, 4, 3, 2, 1, 0] [] [] [9 \<mapsto> [], 8 \<mapsto> []] 9 F" "current k = 8" using booted by blast
  let ?r = "\<lambda>a. if unat (a - 0x20000) < 34 then fault_message ! unat (a - 0x20000) else 0"
  let ?k = "k\<lparr>mm := (mm k)\<lparr>ram := ?r\<rparr>, cbuff := cbuff k, io := io k\<rparr>"
  have inv: "kernel_inv ?k [7, 6, 5, 4, 3, 2, 1, 0] [] [] [9 \<mapsto> [], 8 \<mapsto> []] 9 F"
    by (rule kernel_inv_devices[OF k(1)])
      (use kernel_invD[OF k(1)] sched_invD(9)[OF kernel_invD(1)[OF k(1)]] in \<open>simp_all add: space_inv_ram\<close>)
  have "8 \<in> users k [] [] 9" using k(2) by (simp add: users_def)
  then have "pt_entry (mm k) 8 0 = kernel_entry_of 0" using kernel_invD(3)[OF k(1)] by (simp add: space_inv_def tables_ok_def)
  then have z: "pt_entry (mm ?k) (current ?k) 0 = 0" using k(2) by (simp add: kernel_entry_of_def pt_entry_def current_def)
  have len: "length fault_message = 34" "0 \<notin> set fault_message" by (simp_all add: fault_message_def)
  have "bytes_at ?r 0x20000 (Suc 34) = fault_message @ [0]"
    by (rule nth_equalityI) (use len in \<open>auto simp: bytes_at_def nth_append unat_of_nat_DWord simp del: upt_Suc\<close>)
  then have c: "cstring (ram (mm ?k)) 0x20000 fault_message" using len by (simp add: cstring_def)
  then have f: "fault_text_ok 0x20000 0x30000 (ram (mm ?k))" by (simp add: fault_text_ok_def)
  have "hexa_text 0x1A4 = [49, 65, 52]" by (simp add: hexa_text_def show_nat.simps hex_digit_def)
  then show ?thesis using unmapped_fault_halts[OF inv _ _ z f, of 0 "0x1A4"] c by (intro exI[of _ ?k]) auto
qed

text \<open>C21: A write to a program code page, which every process maps read-only onto the same frames,
  is taken for copy on write: the routine makes the page writable for the faulting process and
  resumes it, although the other processes still execute the same frame.\<close>

theorem code_write_fault_breaks_sharing:
  assumes "kernel_inv k fq rq bq kids i F" "current k \<noteq> i" "j < NUM_PAG_CODE" "b < 4096"
    and "u \<in> users k rq bq i" "u \<noteq> current k"
  shows "\<exists>k'. pgf_routine mesg buff (of_nat (4096 * (PAG_LOG_INIT_CODE + j) + b)) pc k = Some (Resumed k') \<and>
    pte_rw (pt_entry (mm k') (current k) (PAG_LOG_INIT_CODE + j)) = 1 \<and>
    pte_pbase_addr (pt_entry (mm k') (current k) (PAG_LOG_INIT_CODE + j)) =
      pte_pbase_addr (pt_entry (mm k') u (PAG_LOG_INIT_CODE + j))"
proof -
  obtain k' where k': "pgf_routine mesg buff (of_nat (4096 * (276 + j) + b)) pc k = Some (Resumed k')"
      "pt_entry (mm k') (current k) (276 + j) = mk_pte (of_nat (F (OCode j))) 7"
      "\<And>t p. p < 1024 \<Longrightarrow> (t, p) \<noteq> (current k, 276 + j) \<Longrightarrow> pt_entry (mm k') t p = pt_entry (mm k) t p"
    using code_fault_result[OF assms(1-4)] by blast
  have "pt_entry (mm k) u (276 + j) = mk_pte (of_nat (F (OCode j))) 5"
    using kernel_invD(3)[OF assms(1)] assms(3,5) by (simp add: space_inv_def code_ok_def)
  then have "pt_entry (mm k') u (276 + j) = mk_pte (of_nat (F (OCode j))) 5" using k'(3)[of "276 + j" u] assms(3,6) by simp
  then show ?thesis using k'(1,2) by (intro exI[of _ k']) (simp add: pbase_mk_pte)
qed

theorem code_write_fault_breaks_sharing_witness:
  "\<exists>k k'. current k = 8 \<and> pgf_routine 0x20000 0x30000 0x114000 0 k = Some (Resumed k') \<and> pte_rw (pt_entry (mm k') 8 276) = 1 \<and>
     pte_pbase_addr (pt_entry (mm k') 8 276) = pte_pbase_addr (pt_entry (mm k') 7 276)"
proof -
  obtain k F where k: "kernel_inv k [6, 5, 4, 3, 2, 1, 0] [7] [] [9 \<mapsto> [], 8 \<mapsto> [7], 7 \<mapsto> []] 9 F" "current k = 8"
    using forked by blast
  have c: "current k \<noteq> 9" "0 < (8::nat)" "0 < (4096::nat)" "7 \<in> users k [7] [] 9" "7 \<noteq> current k"
    using k(2) by (simp_all add: users_def)
  show ?thesis using code_write_fault_breaks_sharing[OF k(1) c, of "0x20000" "0x30000" 0] k(2) by auto
qed

section \<open>Ending a process\<close>

text \<open>C8: \<^verbatim>\<open>exit\<close> returns its PCB to the free queue, frees the frames of its twenty data pages, hands its
  children to idle, and gives the CPU to the first ready process, or to idle when none is ready; the
  kernel's invariant holds again. The slots whose \<^verbatim>\<open>parent\<close> field names the caller have to be its
  current children.\<close>

theorem exit_releases_process:
  assumes "kernel_inv k fq rq bq kids i F" "current k \<noteq> i" "7 \<le> snd (esp k)" "snd (esp k) \<le> KERNEL_STACK_SIZE"
    and "PID (task k (current k)) = 1 \<longrightarrow> orphan kids (current k)"
    and "\<forall>t<NR_TASKS. parent (task k t) = Some (current k) \<longrightarrow> (\<exists>ks. kids (current k) = Some ks \<and> t \<in> set ks)"
  shows "\<exists>k'. sys_exit k = Some k' \<and>
    kernel_inv k' (fq @ [current k]) (tl rq) bq (exit_kids kids (current k) i) i F \<and>
    current k' = (if rq = [] then i else hd rq) \<and> PID (task k' (current k)) = -1 \<and>
    (\<forall>t<NR_TASKS. t \<noteq> current k \<and> parent (task k t) = Some (current k) \<longrightarrow> parent (task k' t) = Some i) \<and>
    (\<forall>j<NUM_PAG_DATA. phys_mem (mm k') (F (OData (current k) j)) = 0)"
proof -
  obtain k' where k': "sys_exit k = Some k'" "kernel_inv k' (fq @ [current k]) (tl rq) bq (exit_kids kids (current k) i) i F"
      "current k' = (if rq = [] then i else hd rq)" "PID (task k' (current k)) = -1"
      "\<forall>t<10. t \<noteq> current k \<longrightarrow> parent (task k' t) = (if parent (task k t) = Some (current k) then Some i else parent (task k t))"
    using exit_kernel[OF assms] by blast
  have "phys_mem (mm k') (F (OData (current k) j)) = 0" if "j < 20" for j
    by (rule exit_frame_free[OF assms(1,2) k'(2,3) that])
  then show ?thesis using k' by auto
qed

theorem exit_releases_process_witness:
  "\<exists>k k'. current k = 8 \<and> PID (task k 8) = 1 \<and> sys_exit k = Some k' \<and> current k' = 9 \<and> PID (task k' 8) = -1"
proof -
  obtain k F where k: "kernel_inv k [7, 6, 5, 4, 3, 2, 1, 0] [] [] [9 \<mapsto> [], 8 \<mapsto> []] 9 F" "current k = 8" "esp k = (8, 1024)"
      "PID (task k 8) = 1" "\<forall>t. parent (task k t) = None" using booted by blast
  have c: "current k \<noteq> 9" "7 \<le> snd (esp k)" "snd (esp k) \<le> 1024" "PID (task k (current k)) = 1 \<longrightarrow> orphan [9 \<mapsto> [], 8 \<mapsto> []] (current k)"
      "\<forall>t<10. parent (task k t) = Some (current k) \<longrightarrow> (\<exists>ks. [9 \<mapsto> [], 8 \<mapsto> []] (current k) = Some ks \<and> t \<in> set ks)"
    using k by (auto simp: orphan_def)
  show ?thesis using exit_releases_process[OF k(1) c] k(2,4) by auto
qed

text \<open>C17: A parent cannot end after its child has ended. The ended child keeps its \<^verbatim>\<open>parent\<close> field while its list
  entry is cleared, so as long as its slot has not been reused, the parent's \<^verbatim>\<open>exit\<close> takes the slot for
  a child, unlinks the cleared entry and faults on the null pointer.\<close>

theorem parent_exit_after_child_exit_faults:
  assumes "kernel_inv k fq rq bq kids i F" "current k \<noteq> i" "7 \<le> snd (esp k)" "snd (esp k) \<le> KERNEL_STACK_SIZE"
    and "PID (task k (current k)) \<noteq> 1" "parent (task k (current k)) = Some p"
    and "\<forall>t<NR_TASKS. parent (task k t) = Some (current k) \<longrightarrow> (\<exists>ks. kids (current k) = Some ks \<and> t \<in> set ks)"
  shows "\<exists>k'. sys_exit k = Some k' \<and>
    (\<forall>k2 fq2 rq2 bq2 kids2 F2 ks. kernel_inv k2 fq2 rq2 bq2 kids2 i F2 \<and> current k2 = p \<and> p \<noteq> i \<and>
       kids2 p = Some ks \<and> (PID (task k2 p) = 1 \<longrightarrow> orphan kids2 p) \<and> current k \<in> set fq2 \<and>
       parent (task k2 (current k)) = parent (task k' (current k)) \<and> heap k2 (Bros (current k)) = heap k' (Bros (current k)) \<and>
       (\<forall>s<current k. parent (task k2 s) = Some p \<longrightarrow> s \<in> set ks) \<longrightarrow> sys_exit k2 = None)"
proof -
  obtain k' where k': "sys_exit k = Some k'" "parent (task k' (current k)) = parent (task k (current k))"
      "unlinked (heap k') (Bros (current k))"
    using exit_kernel[OF assms(1-4) _ assms(7)] assms(5) by blast
  have c: "current k < 10" by (rule sched_invD(6)[OF kernel_invD(1)[OF assms(1)]])
  have "sys_exit k2 = None" if "kernel_inv k2 fq2 rq2 bq2 kids2 i F2" "current k2 = p" "p \<noteq> i"
      "kids2 p = Some ks" "PID (task k2 p) = 1 \<longrightarrow> orphan kids2 p" "current k \<in> set fq2"
      "parent (task k2 (current k)) = parent (task k' (current k))" "heap k2 (Bros (current k)) = heap k' (Bros (current k))"
      "\<forall>s<current k. parent (task k2 s) = Some p \<longrightarrow> s \<in> set ks" for k2 fq2 rq2 bq2 kids2 F2 ks
    by (rule exit_stale_child[OF that(1), where ks = ks and t = "current k"])
      (use c that k'(2,3) assms(6) free_slot_orphan[OF that(1,6)] in \<open>simp_all add: unlinked_def\<close>)
  then show ?thesis using k'(1) by blast
qed

theorem parent_exit_after_child_exit_faults_witness:
  "\<exists>k k'. current k = 7 \<and> parent (task k 7) = Some 8 \<and> sys_exit k = Some k' \<and> current k' = 8 \<and> sys_exit k' = None"
proof -
  let ?K = "[9 \<mapsto> [], 8 \<mapsto> [7], 7 \<mapsto> []] :: nat \<rightharpoonup> nat list"
  obtain k F where k: "kernel_inv k [6, 5, 4, 3, 2, 1, 0] [8] [] ?K 9 F" "current k = 7" "esp k = (7, 1024)"
      "PID (task k 7) = 2" "\<forall>t. parent (task k t) = (if t = 7 then Some 8 else None)" using child_running by blast
  have c: "current k \<noteq> 9" "7 \<le> snd (esp k)" "snd (esp k) \<le> 1024" "PID (task k (current k)) \<noteq> 1" "parent (task k (current k)) = Some 8"
      "\<forall>t<10. parent (task k t) = Some (current k) \<longrightarrow> (\<exists>ks. ?K (current k) = Some ks \<and> t \<in> set ks)"
    using k by auto
  obtain k' where k': "sys_exit k = Some k'" "kernel_inv k' ([6, 5, 4, 3, 2, 1, 0] @ [7]) (tl [8]) [] (exit_kids ?K 7 9) 9 F"
      "current k' = (if [8 :: nat] = [] then 9 else hd [8])"
      "\<forall>t<10. t \<noteq> 7 \<longrightarrow> parent (task k' t) = (if parent (task k t) = Some 7 then Some 9 else parent (task k t))"
    using exit_kernel[OF k(1) c(1-3) _ c(6)] c(4) unfolding k(2) by blast
  have "exit_kids ?K 7 9 8 = Some []" "orphan (exit_kids ?K 7 9) 8" by (auto simp: exit_kids_def orphan_def)
  moreover have "\<forall>s<7. parent (task k' s) = Some 8 \<longrightarrow> s \<in> set []" using k'(4) k(5) by auto
  moreover obtain k1 where k1: "sys_exit k = Some k1" "\<And>k2 fq2 rq2 bq2 kids2 F2 ks. kernel_inv k2 fq2 rq2 bq2 kids2 9 F2 \<and> current k2 = 8 \<and> 8 \<noteq> (9::nat) \<and>
       kids2 8 = Some ks \<and> (PID (task k2 8) = 1 \<longrightarrow> orphan kids2 8) \<and> 7 \<in> set fq2 \<and>
       parent (task k2 7) = parent (task k1 7) \<and> heap k2 (Bros 7) = heap k1 (Bros 7) \<and>
       (\<forall>s<7. parent (task k2 s) = Some 8 \<longrightarrow> s \<in> set ks) \<Longrightarrow> sys_exit k2 = None"
    using parent_exit_after_child_exit_faults[OF k(1) c] unfolding k(2) by blast
  moreover have "k1 = k'" using k1(1) k'(1) by simp
  ultimately have "sys_exit k' = None"
    by - (rule k1(2), intro conjI, rule k'(2), use k'(3) in simp_all)
  then show ?thesis using k(2,5) k'(1,3) by (intro exI[of _ k] exI[of _ k']) simp
qed

section \<open>Input, output and shared memory\<close>

text \<open>C9: \<^verbatim>\<open>write\<close> on the console prints the caller's buffer: for a buffer of any length inside the user
  area, in chunks of 512 bytes through the kernel buffer, it sends exactly the bytes the caller sees at
  the buffer to the console in order, returns their number, keeps the kernel's invariant and changes no
  byte of the caller's memory.\<close>

theorem write_prints_user_buffer:
  assumes "kernel_inv k fq rq bq kids i F" "current k \<noteq> i" "kernel_buffer kb" "off + n \<le> 28 * 4096"
  shows "\<exists>k' bs. sys_write kb 1 (0x100000 + of_nat off) (int n) k = Some (int n, k') \<and>
    length bs = n \<and> (\<forall>j<n. load8 (translate (mm k)) (0x100000 + of_nat (off + j)) (ram (mm k)) = Some (bs ! j)) \<and>
    io k' = fold printc bs (io k) \<and> kernel_inv k' fq rq bq kids i F \<and> current k' = current k \<and>
    (\<forall>j<28 * 4096. load8 (translate (mm k')) (0x100000 + of_nat j) (ram (mm k')) =
       load8 (translate (mm k)) (0x100000 + of_nat j) (ram (mm k)))"
proof -
  let ?bs = "user_bytes F (current k) (ram (mm k)) off n"
  obtain k' where k': "sys_write kb 1 (0x100000 + of_nat off) (int n) k = Some (int n, k')"
      "written F (current k) off n k k'" "kernel_inv k' fq rq bq kids i F"
    using write_kernel[OF assms] by blast
  obtain r where r: "k' = k\<lparr>mm := (mm k)\<lparr>ram := r\<rparr>, io := fold printc ?bs (io k)\<rparr>"
      "\<And>x. 0x100000 \<le> unat x \<Longrightarrow> r x = ram (mm k) x"
    using k'(2) by (auto simp: written_def)
  have c: "current k' = current k" by (simp add: r(1) current_def)
  have fr: "frames_ok (mm k) (owners (users k rq bq i)) F" using kernel_invD(3)[OF assms(1)] by (simp add: space_inv_def)
  have same: "load8 (translate (mm k')) (0x100000 + of_nat j) (ram (mm k')) =
      load8 (translate (mm k)) (0x100000 + of_nat j) (ram (mm k))" if j: "j < 28 * 4096" for j
    using user_translate[OF k'(3) _ j] user_translate[OF assms(1,2) j] assms(2) c
      r(2)[OF user_byte_high[OF fr users_facts(3)[OF assms(1,2)] j]]
    by (simp add: load8_def r(1))
  show ?thesis
    by (intro exI[of _ k'] exI[of _ ?bs])
      (use k' c same user_bytes_loaded[OF assms(1,2,4)] in \<open>simp add: r(1) user_bytes_def\<close>)
qed

theorem write_prints_user_buffer_witness:
  "\<exists>k k' bs. current k = 8 \<and> sys_write 0x20000 1 0x100100 1300 k = Some (1300, k') \<and> length bs = 1300 \<and> io k' = fold printc bs (io k)"
proof -
  obtain k F where k: "kernel_inv k [7, 6, 5, 4, 3, 2, 1, 0] [] [] [9 \<mapsto> [], 8 \<mapsto> []] 9 F" "current k = 8" using booted by blast
  have c: "current k \<noteq> 9" "kernel_buffer 0x20000" "256 + 1300 \<le> 28 * (4096::nat)" using k(2) by (simp_all add: kernel_buffer_def)
  from write_prints_user_buffer[OF k(1) c] k(2) show ?thesis by fastforce
qed

text \<open>C10: \<^verbatim>\<open>read\<close> returns the typed characters: without waiting it stores as many of the keyboard buffer's
  oldest characters as there are and fit at the caller's address, in the order they were typed, takes
  exactly these out of the buffer, returns their number, and changes nothing else of the caller's memory.\<close>

theorem read_returns_typed_characters:
  assumes "kernel_inv k fq rq bq kids i F" "current k \<noteq> i" "off + mx \<le> 28 * 4096"
  shows "\<exists>k' n. n = min mx (length (cb_contents (cbuff k))) \<and>
    sys_read (0x100000 + of_nat off) (int mx) kbuf0 k = Some (int n, k') \<and> kernel_inv k' fq rq bq kids i F \<and>
    cb_contents (cbuff k') = drop n (cb_contents (cbuff k)) \<and>
    (\<forall>j<28 * 4096. load8 (translate (mm k')) (0x100000 + of_nat j) (ram (mm k')) =
       (if off \<le> j \<and> j < off + n then Some (cb_contents (cbuff k) ! (j - off))
        else load8 (translate (mm k)) (0x100000 + of_nat j) (ram (mm k))))"
proof -
  define n where "n = min mx (length (cb_contents (cbuff k)))"
  obtain k' where k': "sys_read (0x100000 + of_nat off) (int mx) kbuf0 k = Some (int n, k')" "kernel_inv k' fq rq bq kids i F"
      "cb_contents (cbuff k') = drop n (cb_contents (cbuff k))" "k' = k\<lparr>cbuff := cbuff k', mm := (mm k)\<lparr>ram := ram (mm k')\<rparr>\<rparr>"
      "user_bytes F (current k) (ram (mm k')) off n = take n (cb_contents (cbuff k))"
      "\<And>x. x \<notin> user_byte F (current k) ` {off..<off + n} \<Longrightarrow> ram (mm k') x = ram (mm k) x"
    using read_kernel[OF assms, of kbuf0] unfolding n_def by blast
  have fr: "frames_ok (mm k) (owners (users k rq bq i)) F" using kernel_invD(3)[OF assms(1)] by (simp add: space_inv_def)
  note c = users_facts(3)[OF assms(1,2)]
  have cu: "current k' = current k" by (subst k'(4)) (simp add: current_def)
  have n: "n \<le> mx" "n \<le> length (cb_contents (cbuff k))" by (simp_all add: n_def)
  have mem: "load8 (translate (mm k')) (0x100000 + of_nat j) (ram (mm k')) =
       (if off \<le> j \<and> j < off + n then Some (cb_contents (cbuff k) ! (j - off))
        else load8 (translate (mm k)) (0x100000 + of_nat j) (ram (mm k)))" if j: "j < 28 * 4096" for j
  proof (cases "off \<le> j \<and> j < off + n")
    case True
    then obtain x where "j = off + x" "x < n" using le_Suc_ex[of off j] by auto
    then have "user_bytes F (current k) (ram (mm k')) off n ! (j - off) = ram (mm k') (user_byte F (current k) j)"
      by (simp add: user_bytes_def)
    moreover have "j - off < n" using True by auto
    ultimately show ?thesis using True user_translate[OF k'(2) _ j] cu k'(5) assms(2) by (simp add: load8_def)
  next
    case False
    have "user_byte F (current k) j \<notin> user_byte F (current k) ` {off..<off + n}"
    proof
      assume "user_byte F (current k) j \<in> user_byte F (current k) ` {off..<off + n}"
      then obtain x where x: "off \<le> x" "x < off + n" "user_byte F (current k) j = user_byte F (current k) x" by auto
      then have "x < 28 * 4096" using assms(3) n(1) by simp
      from user_byte_inj[OF fr c j this x(3)] False x show False by simp
    qed
    then show ?thesis using False user_translate[OF k'(2) _ j] user_translate[OF assms(1,2) j] cu k'(6) assms(2) by (auto simp: load8_def)
  qed
  show ?thesis by (rule exI[of _ k'], rule exI[of _ n]) (use k'(1-3) mem in \<open>simp add: n_def\<close>)
qed

theorem read_returns_typed_characters_witness:
  "\<exists>k k'. current k = 8 \<and> sys_read 0x100100 10 (\<lambda>_. 0) k = Some (3, k') \<and> cb_contents (cbuff k') = []"
proof -
  obtain k F where k: "kernel_inv k [7, 6, 5, 4, 3, 2, 1, 0] [] [] [9 \<mapsto> [], 8 \<mapsto> []] 9 F" "current k = 8" using booted by blast
  let ?cb = "\<lparr>keys = 97 # 98 # 99 # replicate 29 0, write_idx = 3, read_idx = 0, cb_size = 0\<rparr> :: circular_buffer"
  let ?k = "k\<lparr>mm := mm k, cbuff := ?cb, io := io k\<rparr>"
  have cb: "cb_wf ?cb" "cb_contents ?cb = [97, 98, 99]" by (simp add: cb_wf_def) code_simp
  have inv: "kernel_inv ?k [7, 6, 5, 4, 3, 2, 1, 0] [] [] [9 \<mapsto> [], 8 \<mapsto> []] 9 F"
    by (rule kernel_inv_devices[OF k(1) kernel_invD(3)[OF k(1)] sched_invD(9)[OF kernel_invD(1)[OF k(1)]] cb(1) kernel_invD(6)[OF k(1)]])
  have c: "current ?k \<noteq> 9" "256 + 10 \<le> 28 * (4096::nat)" using k(2) by (simp_all add: current_def)
  have "current ?k = 8" using k(2) by (simp add: current_def)
  then show ?thesis using read_returns_typed_characters[OF inv c, of "\<lambda>_. 0"] cb(2) by - (rule exI[of _ ?k], auto)
qed

text \<open>C11: Shared pages connect processes: when a process attaches a shared page that process \<open>u\<close> already has
  mapped at its page \<open>q\<close>, \<^verbatim>\<open>shmat\<close> maps it at a free page, the requested one if that is free, counts one more
  reference and keeps the kernel's invariant; afterwards every byte the caller stores there is what
  \<open>u\<close> loads at the same offset of its page \<open>q\<close>.\<close>

theorem shared_memory_communicates:
  assumes inv: "kernel_inv k fq rq bq kids i F" "current k \<noteq> i" "0 \<le> sh_id" "sh_id \<le> 9"
    and a: "addr mod 4096 = 0" "unat (drop_bit 12 addr) < TOTAL_PAGES" "free_pages (mm k) (current k) \<noteq> {}"
    and u: "u \<in> users k rq bq i" "q < TOTAL_PAGES" "pt_entry (mm k) u q = mk_pte (of_nat (F (OShared (nat sh_id)))) 7"
  shows "\<exists>p k'. p \<in> free_pages (mm k) (current k) \<and> sys_shmat sh_id addr k = Some (int (4096 * p), k') \<and>
    kernel_inv k' fq rq bq kids i F \<and>
    (unat (drop_bit 12 addr) \<in> free_pages (mm k) (current k) \<longrightarrow> p = unat (drop_bit 12 addr)) \<and>
    num_refs (shared_pages (mm k') (nat sh_id)) = wrap32 (num_refs (shared_pages (mm k) (nat sh_id)) + 1) \<and>
    (\<forall>j<4096. \<forall>b. \<exists>r. store8 (translate (mm k')) (of_nat (4096 * p + j)) b (ram (mm k')) = Some r \<and>
       load8 (translate ((mm k')\<lparr>cr3 := Some u\<rparr>)) (of_nat (4096 * q + j)) r = Some b)"
proof -
  let ?idx = "nat sh_id" and ?c = "current k"
  note D = kernel_invD[OF inv(1)] and S = sched_invD[OF kernel_invD(1)[OF inv(1)]] and U = users_facts[OF inv(1)]
  obtain p where p: "p \<in> free_pages (mm k) ?c"
      "sys_shmat sh_id addr k = Some (int (4096 * p), k\<lparr>mm := attached ?c ?idx p (mm k)\<rparr>)"
      "unat (drop_bit 12 addr) \<in> free_pages (mm k) ?c \<longrightarrow> p = unat (drop_bit 12 addr)"
    using shmat_kernel[OF inv a] by blast
  let ?m = "attached ?c ?idx p (mm k)"
  have pb: "284 \<le> p" "p < 1024" "pt_entry (mm k) ?c p = 0" using p(1) by (simp_all add: free_pages_def)
  have idx: "?idx < 10" using inv(3,4) by simp
  have s: "space_inv ?m (users k rq bq i) F" by (rule attached_space[OF D(3) S(6) pb(1,2) idx])
  have s': "space_inv (?m\<lparr>cr3 := Some u\<rparr>) (users k rq bq i) F" using s by (simp add: space_inv_cr3)
  have sh: "sh_frame (shared_pages (mm k) ?idx) = int (F (OShared ?idx))" using D(3) idx by (simp add: space_inv_def tables_ok_def)
  have cr: "cr3 ?m = Some ?c" by (simp add: attached_def Let_def)
  have e1: "pt_entry ?m ?c p = mk_pte (of_nat (F (OShared ?idx))) 7" using attached_entry[OF S(6) pb(2,2)] sh by simp
  have "\<not> (u = ?c \<and> q = p)" using u(3) pb(3) mk_pte_nonzero[of 7 "of_nat (F (OShared ?idx))"] by auto
  then have e2: "pt_entry (?m\<lparr>cr3 := Some u\<rparr>) u q = mk_pte (of_nat (F (OShared ?idx))) 7"
    using attached_entry[OF S(6) pb(2) u(2), of ?idx "mm k" u] u(3) by (auto simp: pt_entry_def)
  have u10: "u < 10" using u(1) U(1) by auto
  have comm: "\<exists>r. store8 (translate ?m) (of_nat (4096 * p + j)) b (ram ?m) = Some r \<and>
       load8 (translate (?m\<lparr>cr3 := Some u\<rparr>)) (of_nat (4096 * q + j)) r = Some b" if "j < 4096" for j b
    using shared_translate[OF s S(6) cr pb(2) idx e1 that] shared_translate[OF s' u10 _ u(2) idx e2 that]
    by (simp add: store8_def load8_def)
  have "num_refs (shared_pages ?m ?idx) = wrap32 (num_refs (shared_pages (mm k) ?idx) + 1)" by (simp add: attached_def Let_def)
  moreover have "kernel_inv (k\<lparr>mm := ?m\<rparr>) fq rq bq kids i F" by (rule kernel_inv_mm[OF inv(1) s cr])
  ultimately show ?thesis using p comm by (intro exI[of _ p] exI[of _ "k\<lparr>mm := ?m\<rparr>"]) simp
qed

theorem shared_memory_communicates_witness:
  "\<exists>k p k'. current k = 8 \<and> sys_shmat 3 0 k = Some (int (4096 * p), k') \<and>
     (\<exists>r. store8 (translate (mm k')) (of_nat (4096 * p + 5)) 65 (ram (mm k')) = Some r \<and>
       load8 (translate ((mm k')\<lparr>cr3 := Some 7\<rparr>)) (of_nat (4096 * 300 + 5)) r = Some 65)"
proof -
  obtain k F where k: "kernel_inv k [6, 5, 4, 3, 2, 1, 0] [7] [] [9 \<mapsto> [], 8 \<mapsto> [7], 7 \<mapsto> []] 9 F" "current k = 8"
      "card (free_pages (mm k) 8) = 740" using forked by blast
  note D = kernel_invD[OF k(1)]
  let ?m = "(attached 7 3 300 (mm k))\<lparr>cr3 := Some (current k)\<rparr>"
  let ?k = "k\<lparr>mm := ?m\<rparr>"
  have s: "space_inv ?m (users k [7] [] 9) F" unfolding space_inv_cr3 by (rule attached_space[OF D(3)]) simp_all
  have inv: "kernel_inv ?k [6, 5, 4, 3, 2, 1, 0] [7] [] [9 \<mapsto> [], 8 \<mapsto> [7], 7 \<mapsto> []] 9 F"
    by (rule kernel_inv_mm[OF k(1) s]) simp
  have sh: "sh_frame (shared_pages (mm k) 3) = int (F (OShared 3))" using D(3) by (simp add: space_inv_def tables_ok_def)
  have e: "pt_entry ?m t p = (if t = 7 \<and> p = 300 then mk_pte (of_nat (F (OShared 3))) 7 else pt_entry (mm k) t p)"
    if "p < 1024" for t p
    using attached_entry[of 7 300 p 3 "mm k" t] that sh by (simp add: pt_entry_def)
  have "free_pages ?m 8 = free_pages (mm k) 8" using e by (auto simp: free_pages_def)
  then have f: "free_pages (mm ?k) (current ?k) \<noteq> {}" using k(2,3) by auto
  have c: "current ?k \<noteq> 9" "(0::int) \<le> 3" "(3::int) \<le> 9" "(0::DWord) mod 4096 = 0" "unat (drop_bit 12 (0::DWord)) < 1024"
    using k(2) by (simp_all add: current_def)
  have u: "7 \<in> users ?k [7] [] 9" "(300::nat) < 1024" "pt_entry (mm ?k) 7 300 = mk_pte (of_nat (F (OShared (nat 3)))) 7"
    using e[of 300 7] by (simp_all add: users_def)
  have c8: "current ?k = 8" using k(2) by (simp add: current_def)
  from shared_memory_communicates[OF inv c f u] obtain p k' where p: "sys_shmat 3 0 ?k = Some (int (4096 * p), k')"
      "\<forall>j<4096. \<forall>b. \<exists>r. store8 (translate (mm k')) (of_nat (4096 * p + j)) b (ram (mm k')) = Some r \<and>
       load8 (translate ((mm k')\<lparr>cr3 := Some 7\<rparr>)) (of_nat (4096 * 300 + j)) r = Some b" by blast
  show ?thesis by (rule exI[of _ ?k], rule exI[of _ p], rule exI[of _ k']) (intro conjI c8 p(1) p(2)[rule_format], simp)
qed

end
